(* ===== verification/Prelude.thy ===== *)
theory Prelude
  imports Main "HOL-Library.Word" "HOL-Library.Multiset"
begin

text \<open>
  The shared vocabulary of the development: the machine integers of the C++ sources, the ways in
  which a C++ statement can fail to continue, an error-propagating loop combinator with its
  invariant rule, the model of \<^verbatim>\<open>std::sort\<close> on vectors, and the bit-level reading of an IPv4
  address as the sequence of its leading bits, on which every longest-prefix-match argument rests.
\<close>

unbundle bit_operations_syntax

section \<open>Machine integers and failures\<close>

type_synonym u8 = "8 word"
type_synonym u16 = "16 word"
type_synonym u32 = "32 word"
type_synonym u64 = "64 word"

text \<open>
  Everything the sources do instead of continuing: \<^verbatim>\<open>abort()\<close> and \<^verbatim>\<open>fatal()\<close>, a failing
  \<^verbatim>\<open>assert\<close> (the release flags of \<^verbatim>\<open>CMakeLists.txt\<close> do not define \<^verbatim>\<open>NDEBUG\<close>), \<^verbatim>\<open>exit\<close>, and the
  two kinds of undefined behaviour the code can run into: a null dereference and an access
  outside a vector.
\<close>

datatype error = Abort | Fatal string | AssertFailed | Exit int | NullDeref | OutOfBounds

type_synonym 'a result = "error + 'a"

definition bindE :: "'a result \<Rightarrow> ('a \<Rightarrow> 'b result) \<Rightarrow> 'b result" where
  "bindE m f = (case m of Inl e \<Rightarrow> Inl e | Inr x \<Rightarrow> f x)"

text \<open>A loop \<^verbatim>\<open>for(auto x : xs) body\<close> whose body may stop the program.\<close>

fun foldE :: "('a \<Rightarrow> 's \<Rightarrow> 's result) \<Rightarrow> 'a list \<Rightarrow> 's \<Rightarrow> 's result" where
  "foldE f [] s = Inr s"
| "foldE f (x # xs) s = bindE (f x s) (foldE f xs)"

text \<open>A loop \<^verbatim>\<open>for(auto& x : xs) body\<close> that overwrites each element and threads a state.\<close>

fun mapE :: "('a \<Rightarrow> 's \<Rightarrow> ('b \<times> 's) result) \<Rightarrow> 'a list \<Rightarrow> 's \<Rightarrow> ('b list \<times> 's) result" where
  "mapE f [] s = Inr ([], s)"
| "mapE f (x # xs) s = bindE (f x s) (\<lambda>(y, s1). bindE (mapE f xs s1) (\<lambda>(ys, s2). Inr (y # ys, s2)))"

named_theorems result_simps \<open>evaluation of error-propagating code\<close>
named_theorems addr_simps \<open>IPv4 addresses and masks as bit sequences\<close>

lemma bindE_simps [simp, result_simps]:
  "bindE (Inl e) f = Inl e"
  "bindE (Inr x) f = f x"
  by (simp_all add: bindE_def)

lemma bindE_InrE:
  assumes "bindE m f = Inr y"
  obtains x where "m = Inr x" and "f x = Inr y"
  using assms by (auto simp: bindE_def split: sum.splits)

lemma bindE_Inr_iff: "bindE m f = Inr y \<longleftrightarrow> (\<exists>x. m = Inr x \<and> f x = Inr y)"
  by (auto simp: bindE_def split: sum.splits)

lemma bindE_Inl_iff: "bindE m f = Inl e \<longleftrightarrow> m = Inl e \<or> (\<exists>x. m = Inr x \<and> f x = Inl e)"
  by (auto simp: bindE_def split: sum.splits)

lemma bindE_assoc: "bindE (bindE m f) g = bindE m (\<lambda>x. bindE (f x) g)"
  by (simp add: bindE_def split: sum.splits)

lemma foldE_append: "foldE f (xs @ ys) s = bindE (foldE f xs s) (foldE f ys)"
  by (induction xs arbitrary: s) (auto simp: bindE_def split: sum.splits)

text \<open>An invariant kept by every iteration holds after the loop.\<close>

lemma foldE_invariant:
  assumes "foldE f xs s = Inr s'" and "I s"
    and "\<And>x s s'. x \<in> set xs \<Longrightarrow> I s \<Longrightarrow> f x s = Inr s' \<Longrightarrow> I s'"
  shows "I s'"
  using assms
proof (induction xs arbitrary: s)
  case Nil
  then show ?case by simp
next
  case (Cons x xs)
  from Cons.prems(1) obtain s1 where s1: "f x s = Inr s1" "foldE f xs s1 = Inr s'"
    by (auto elim: bindE_InrE)
  have "I s1" using s1(1) Cons.prems(2,3) by (meson list.set_intros(1))
  with s1(2) show ?case using Cons.IH Cons.prems(3) by (meson list.set_intros(2))
qed

text \<open>A loop whose body cannot fail under an invariant runs to its end.\<close>

lemma foldE_total:
  assumes "I s"
    and "\<And>x s. x \<in> set xs \<Longrightarrow> I s \<Longrightarrow> \<exists>s'. f x s = Inr s' \<and> I s'"
  shows "\<exists>s'. foldE f xs s = Inr s' \<and> I s'"
  using assms
proof (induction xs arbitrary: s)
  case Nil
  then show ?case by simp
next
  case (Cons x xs)
  then obtain s1 where s1: "f x s = Inr s1" "I s1" by (meson list.set_intros(1))
  have "\<exists>s'. foldE f xs s1 = Inr s' \<and> I s'"
    using Cons.IH [OF s1(2)] Cons.prems(2) by (meson list.set_intros(2))
  with s1(1) show ?case by simp
qed

text \<open>A loop whose body never fails is an ordinary fold.\<close>

lemma foldE_fold:
  assumes "\<And>x s. x \<in> set xs \<Longrightarrow> f x s = Inr (g x s)"
  shows "foldE f xs s = Inr (fold g xs s)"
  using assms by (induction xs arbitrary: s) auto

lemma fold_concat_map:
  "fold g (concat (map F xs)) s = fold (\<lambda>x. fold g (F x)) xs s"
  by (induction xs arbitrary: s) auto

lemma mapE_ConsE:
  assumes "mapE f (x # xs) s = Inr (zs, s')"
  obtains y s1 ys where "f x s = Inr (y, s1)" and "mapE f xs s1 = Inr (ys, s')" and "zs = y # ys"
  using assms by (auto simp: bindE_Inr_iff)

lemma mapE_length: "mapE f xs s = Inr (ys, s') \<Longrightarrow> length ys = length xs"
  by (induction xs arbitrary: s ys) (auto elim!: mapE_ConsE simp del: mapE.simps(2))

text \<open>
  The invariant rule of such a loop: \<open>I\<close> holds of the threaded state throughout, \<open>Q\<close> relates each
  element to its replacement relative to the final state, and survives later iterations.
\<close>

lemma mapE_invariant:
  assumes "mapE f xs s = Inr (ys, s')" and "I s"
    and step: "\<And>x s y s'. x \<in> set xs \<Longrightarrow> I s \<Longrightarrow> f x s = Inr (y, s') \<Longrightarrow> I s' \<and> R s s' \<and> Q s' x y"
    and refl: "\<And>s. R s s" and trans: "\<And>s t u. R s t \<Longrightarrow> R t u \<Longrightarrow> R s u"
    and stable: "\<And>s t x y. R s t \<Longrightarrow> Q s x y \<Longrightarrow> Q t x y"
  shows "I s' \<and> R s s' \<and> list_all2 (Q s') xs ys"
  using assms(1-3)
proof (induction xs arbitrary: s ys)
  case Nil
  then show ?case using refl by simp
next
  case (Cons x xs)
  from Cons.prems(1) obtain y s1 zs where
    1: "f x s = Inr (y, s1)" "mapE f xs s1 = Inr (zs, s')" "ys = y # zs"
    by (rule mapE_ConsE)
  have 2: "I s1 \<and> R s s1 \<and> Q s1 x y" using Cons.prems(2,3) 1(1) by (meson list.set_intros(1))
  have "I s' \<and> R s1 s' \<and> list_all2 (Q s') xs zs"
    using Cons.IH [OF 1(2)] 2 Cons.prems(3) by (meson list.set_intros(2))
  with 1(3) 2 trans stable show ?case by (metis list_all2_Cons)
qed

lemma mapE_total:
  assumes "I s"
    and "\<And>x s. x \<in> set xs \<Longrightarrow> I s \<Longrightarrow> \<exists>y s'. f x s = Inr (y, s') \<and> I s'"
  shows "\<exists>ys s'. mapE f xs s = Inr (ys, s') \<and> I s'"
  using assms
proof (induction xs arbitrary: s)
  case Nil
  then show ?case by simp
next
  case (Cons x xs)
  then obtain y s1 where 1: "f x s = Inr (y, s1)" "I s1" by (meson list.set_intros(1))
  then obtain ys s' where "mapE f xs s1 = Inr (ys, s')" "I s'"
    using Cons.IH [OF 1(2)] Cons.prems(2) by (meson list.set_intros(2))
  with 1(1) show ?case by simp
qed

lemma list_all2_set1: "list_all2 P xs ys \<Longrightarrow> x \<in> set xs \<Longrightarrow> \<exists>y \<in> set ys. P x y"
  by (induction rule: list_all2_induct) auto

lemma list_all2_set2: "list_all2 P xs ys \<Longrightarrow> y \<in> set ys \<Longrightarrow> \<exists>x \<in> set xs. P x y"
  by (induction rule: list_all2_induct) auto

section \<open>Computations that may not end\<close>

text \<open>
  A computation that may stop the program, or not end: \<open>None\<close> is a loop that has not ended within the fuel.
\<close>

definition bindO :: "'x result option \<Rightarrow> ('x \<Rightarrow> 'y result option) \<Rightarrow> 'y result option" where
  "bindO m f = (case m of None \<Rightarrow> None | Some (Inl e) \<Rightarrow> Some (Inl e) | Some (Inr x) \<Rightarrow> f x)"

lemma bindO_simps [simp]:
  "bindO None f = None" "bindO (Some (Inl e)) f = Some (Inl e)" "bindO (Some (Inr x)) f = f x"
  by (simp_all add: bindO_def)

fun foldO :: "('a \<Rightarrow> 's \<Rightarrow> 's result option) \<Rightarrow> 'a list \<Rightarrow> 's \<Rightarrow> 's result option" where
  "foldO f [] s = Some (Inr s)"
| "foldO f (x # xs) s = bindO (f x s) (foldO f xs)"

lemma foldO_append: "foldO f (xs @ ys) s = bindO (foldO f xs s) (foldO f ys)"
  by (induction xs arbitrary: s) (auto simp: bindO_def split: option.splits sum.splits)

section \<open>Values of machine integers\<close>

lemma unat_less_pow:
  "unat (x :: u8) < 256" "unat (y :: u16) < 65536" "unat (z :: u32) < 4294967296"
  using unsigned_less [of x, where ?'a = nat] unsigned_less [of y, where ?'a = nat]
    unsigned_less [of z, where ?'a = nat] by simp_all

section \<open>Sorting a vector with a comparison function\<close>

text \<open>
  \<^verbatim>\<open>std::sort\<close> with the element type's \<^verbatim>\<open>operator<\<close>. The standard leaves the order of equivalent
  elements open; the model is the insertion sort that keeps them in their order. Whatever depends
  on that choice is excluded where it is used: \<open>std_sort_unique\<close> shows that on distinct keys
  every sorted permutation is this one.
\<close>

fun insert_by :: "('a \<Rightarrow> 'a \<Rightarrow> bool) \<Rightarrow> 'a \<Rightarrow> 'a list \<Rightarrow> 'a list" where
  "insert_by lt x [] = [x]"
| "insert_by lt x (y # ys) = (if lt y x then y # insert_by lt x ys else x # y # ys)"

fun std_sort :: "('a \<Rightarrow> 'a \<Rightarrow> bool) \<Rightarrow> 'a list \<Rightarrow> 'a list" where
  "std_sort lt [] = []"
| "std_sort lt (x # xs) = insert_by lt x (std_sort lt xs)"

lemma mset_insert_by [simp]: "mset (insert_by lt x ys) = add_mset x (mset ys)"
  by (induction ys) auto

lemma mset_std_sort [simp]: "mset (std_sort lt xs) = mset xs"
  by (induction xs) auto

lemma set_std_sort [simp]: "set (std_sort lt xs) = set xs"
  by (metis mset_std_sort set_mset_mset)

lemma length_std_sort [simp]: "length (std_sort lt xs) = length xs"
  by (metis mset_std_sort size_mset)

lemma set_insert_by [simp]: "set (insert_by lt x ys) = insert x (set ys)"
  by (induction ys) auto

lemma sorted_insert_by:
  fixes k :: "'a \<Rightarrow> 'k::linorder"
  assumes "\<And>a b. a \<in> insert x (set ys) \<Longrightarrow> b \<in> insert x (set ys) \<Longrightarrow> lt a b = (k a < k b)"
    and "sorted (map k ys)"
  shows "sorted (map k (insert_by lt x ys))"
  using assms by (induction ys) (auto simp: not_less)

lemma sorted_std_sort:
  fixes k :: "'a \<Rightarrow> 'k::linorder"
  assumes "\<And>a b. a \<in> set xs \<Longrightarrow> b \<in> set xs \<Longrightarrow> lt a b = (k a < k b)"
  shows "sorted (map k (std_sort lt xs))"
  using assms by (induction xs) (auto intro!: sorted_insert_by)

lemma std_sort_unique:
  fixes k :: "'a \<Rightarrow> 'k::linorder"
  assumes lt: "\<And>a b. a \<in> set xs \<Longrightarrow> b \<in> set xs \<Longrightarrow> lt a b = (k a < k b)"
    and dist: "distinct (map k xs)"
    and ys: "mset ys = mset xs" "sorted (map k ys)"
  shows "ys = std_sort lt xs"
proof -
  have m: "mset ys = mset (std_sort lt xs)" using ys by simp
  have mk: "mset (map k ys) = mset (map k (std_sort lt xs))" by (simp only: mset_map m)
  have "sorted (map k (std_sort lt xs))" by (rule sorted_std_sort) (rule lt)
  with properties_for_sort [OF mk ys(2)] have "map k ys = map k (std_sort lt xs)"
    by (simp add: sorted_sort_id)
  moreover have "inj_on k (set ys \<union> set (std_sort lt xs))"
    using dist mset_eq_setD [OF ys(1)] by (simp add: distinct_map)
  ultimately show ?thesis by (simp add: inj_on_map_eq_map)
qed

end
