(* ===== verification/Util.thy ===== *)
theory Util
  imports Prelude
begin

text \<open>
  The arithmetic helpers of \<^verbatim>\<open>include/util.hpp\<close>: the prefix-mask macro, bit extraction, the most
  significant one, bit rotation, and the byte-order conversions of the C library on the
  little-endian machines the router runs on. Each comes with the lemma that says which bits its
  result has; together they turn equality under a mask into equality of leading bit sequences.
\<close>

section \<open>Definitions\<close>

definition uint16_t_max :: u16 where
  "uint16_t_max = 0xFFFF"

definition uint32_t_max :: u32 where
  "uint32_t_max = 0xFFFFFFFF"

definition PREFIX_MASK :: "nat \<Rightarrow> u32" where
  "PREFIX_MASK len = ucast (NOT (push_bit (32 - len) (1 :: u64) - 1))"

text \<open>
  \<^verbatim>\<open>extractBit\<close> shifts by \<open>31 - pos\<close>. For a position beyond 31 the shift count is negative and
  C++ leaves the result open: the argument \<open>ub\<close> stands for whatever the machine computes there.
\<close>

definition extractBit :: "(u32 \<Rightarrow> nat \<Rightarrow> u32) \<Rightarrow> u32 \<Rightarrow> nat \<Rightarrow> u32" where
  "extractBit ub addr pos =
     (if pos \<le> 31
      then let mask = push_bit (31 - pos) 1; bit = addr AND mask in drop_bit (31 - pos) bit
      else ub addr pos)"

text \<open>The loop of \<^verbatim>\<open>mostSigOne\<close> from bit \<open>i\<close> downwards.\<close>

fun mostSigOne_from :: "nat \<Rightarrow> u32 \<Rightarrow> int" where
  "mostSigOne_from 0 num = (if num AND 1 \<noteq> 0 then 31 else -1)"
| "mostSigOne_from (Suc i) num =
     (if num AND push_bit (Suc i) 1 \<noteq> 0 then 31 - int (Suc i) else mostSigOne_from i num)"

definition mostSigOne :: "u32 \<Rightarrow> int" where
  "mostSigOne num = mostSigOne_from 31 num"

text \<open>
  \<^verbatim>\<open>rotl\<close> shifts left by \<open>s\<close> and right by \<open>digits - s\<close>. With a count outside \<open>0 < s < digits\<close> one of the
  shifts may be undefined, which \<open>ub\<close> stands for again.
\<close>

definition rotl :: "('a word \<Rightarrow> nat \<Rightarrow> 'a word) \<Rightarrow> 'a::len word \<Rightarrow> nat \<Rightarrow> 'a word" where
  "rotl ub x s = (if 0 < s \<and> s < LENGTH('a) then push_bit s x OR drop_bit (LENGTH('a) - s) x else ub x s)"

text \<open>The C library's byte-order conversions on a little-endian host swap the bytes.\<close>

definition htons :: "u16 \<Rightarrow> u16" where
  "htons x = push_bit 8 x OR drop_bit 8 x"

definition ntohs :: "u16 \<Rightarrow> u16" where
  "ntohs x = htons x"

definition htonl :: "u32 \<Rightarrow> u32" where
  "htonl x = push_bit 24 x OR (push_bit 8 x AND 0xFF0000) OR (drop_bit 8 x AND 0xFF00) OR drop_bit 24 x"

definition ntohl :: "u32 \<Rightarrow> u32" where
  "ntohl x = htonl x"

text \<open>Decimal output of an unsigned integer, and the dotted notation of \<^verbatim>\<open>inet_ntoa\<close>.\<close>

fun string_of_nat :: "nat \<Rightarrow> string" where
  "string_of_nat n =
     (if n < 10 then [char_of (48 + n)] else string_of_nat (n div 10) @ [char_of (48 + n mod 10)])"

declare string_of_nat.simps [simp del]

definition endl :: string where
  "endl = [char_of (10 :: nat)]"

definition octet :: "u32 \<Rightarrow> nat \<Rightarrow> nat" where
  "octet ip i = unat (drop_bit (24 - 8 * i) ip AND 0xFF)"

definition ip_to_str :: "u32 \<Rightarrow> string" where
  "ip_to_str ip = string_of_nat (octet ip 0) @ ''.'' @ string_of_nat (octet ip 1) @ ''.'' @
     string_of_nat (octet ip 2) @ ''.'' @ string_of_nat (octet ip 3)"

section \<open>Byte order\<close>

lemma bit_htons: "bit (htons x) n \<longleftrightarrow> n < 16 \<and> bit x (if n < 8 then n + 8 else n - 8)"
  by (auto simp: htons_def bit_or_iff bit_push_bit_iff bit_drop_bit_eq not_less add.commute
      dest: bit_imp_le_length)

lemma htons_htons [simp]: "htons (htons x) = x"
  by (rule bit_word_eqI) (auto simp: bit_htons)

lemma ntohs_htons [simp]: "ntohs (htons x) = x" "htons (ntohs x) = x"
  by (simp_all add: ntohs_def)

lemma htons_eq_iff [simp]: "htons x = htons y \<longleftrightarrow> x = y"
  by (metis htons_htons)

lemma bit_0xFF0000: "bit (0xFF0000 :: int) n \<longleftrightarrow> 16 \<le> n \<and> n < 24"
proof -
  have eq: "(0xFF0000 :: int) = push_bit 16 (mask 8)" by (simp add: mask_eq_exp_minus_1)
  show ?thesis unfolding eq bit_push_bit_iff bit_mask_iff by auto
qed

lemma bit_0xFF00: "bit (0xFF00 :: int) n \<longleftrightarrow> 8 \<le> n \<and> n < 16"
proof -
  have eq: "(0xFF00 :: int) = push_bit 8 (mask 8)" by (simp add: mask_eq_exp_minus_1)
  show ?thesis unfolding eq bit_push_bit_iff bit_mask_iff by auto
qed

lemma bit_htonl:
  "bit (htonl x) n \<longleftrightarrow>
     (if n < 8 then bit x (n + 24) else if n < 16 then bit x (n + 8)
      else if n < 24 then bit x (n - 8) else n < 32 \<and> bit x (n - 24))"
  by (auto simp: htonl_def bit_or_iff bit_and_iff bit_push_bit_iff bit_drop_bit_eq bit_0xFF0000
      bit_0xFF00 add.commute dest: bit_imp_le_length)

lemma htonl_htonl [simp]: "htonl (htonl x) = x"
  by (rule bit_word_eqI) (auto simp: bit_htonl split: if_splits)

lemma ntohl_htonl [simp]: "ntohl (htonl x) = x" "htonl (ntohl x) = x"
  by (simp_all add: ntohl_def)

lemma htonl_eq_iff [simp]: "htonl x = htonl y \<longleftrightarrow> x = y"
  by (metis htonl_htonl)

section \<open>Masks and bits\<close>

lemma bit_PREFIX_MASK [addr_simps]: "len \<le> 32 \<Longrightarrow> bit (PREFIX_MASK len) i \<longleftrightarrow> i < 32 \<and> 32 - len \<le> i"
  by (auto simp: PREFIX_MASK_def bit_ucast_iff bit_not_iff push_bit_of_1 bit_mask_iff
      simp flip: mask_eq_exp_minus_1)

lemma extractBit_bit [addr_simps]:
  "pos \<le> 31 \<Longrightarrow> extractBit ub addr pos = of_bool (bit addr (31 - pos))"
proof (rule bit_word_eqI)
  fix n
  assume "pos \<le> 31" "n < LENGTH(32)"
  then show "bit (extractBit ub addr pos) n = bit (of_bool (bit addr (31 - pos)) :: u32) n"
    by (cases n) (auto simp: extractBit_def bit_drop_bit_eq bit_and_iff push_bit_of_1 bit_exp_iff
        bit_1_iff Let_def)
qed

text \<open>The leading \<open>n\<close> bits of an address, most significant first.\<close>

definition prefix_bits :: "u32 \<Rightarrow> nat \<Rightarrow> bool list" where
  "prefix_bits a n = map (\<lambda>i. bit a (31 - i)) [0..<n]"

lemma length_prefix_bits [simp]: "length (prefix_bits a n) = n"
  by (simp add: prefix_bits_def)

lemma prefix_bits_Suc: "prefix_bits a (Suc n) = prefix_bits a n @ [bit a (31 - n)]"
  by (simp add: prefix_bits_def)

lemma take_prefix_bits [simp]: "m \<le> n \<Longrightarrow> take m (prefix_bits a n) = prefix_bits a m"
  by (simp add: prefix_bits_def take_map)

lemma prefix_bits_mono: "prefix_bits a n = prefix_bits b n \<Longrightarrow> m \<le> n \<Longrightarrow> prefix_bits a m = prefix_bits b m"
  by (metis take_prefix_bits)

lemma prefix_bits_eq_iff: "prefix_bits a n = prefix_bits b n \<longleftrightarrow> (\<forall>i<n. bit a (31 - i) = bit b (31 - i))"
  by (auto simp: prefix_bits_def)

lemma masked_eq_iff [addr_simps]:
  assumes "n \<le> 32"
  shows "a AND PREFIX_MASK n = b AND PREFIX_MASK n \<longleftrightarrow> prefix_bits a n = prefix_bits b n"
proof
  assume eq: "a AND PREFIX_MASK n = b AND PREFIX_MASK n"
  show "prefix_bits a n = prefix_bits b n"
    unfolding prefix_bits_eq_iff
  proof (intro allI impI)
    fix i assume "i < n"
    then have "bit (PREFIX_MASK n) (31 - i)" using assms by (auto simp: bit_PREFIX_MASK)
    with arg_cong [OF eq, of "\<lambda>w. bit w (31 - i)"] show "bit a (31 - i) = bit b (31 - i)"
      by (simp add: bit_and_iff)
  qed
next
  assume eq: "prefix_bits a n = prefix_bits b n"
  show "a AND PREFIX_MASK n = b AND PREFIX_MASK n"
  proof (rule bit_word_eqI)
    fix i assume "i < LENGTH(32)"
    then have i: "i < 32" by simp
    show "bit (a AND PREFIX_MASK n) i = bit (b AND PREFIX_MASK n) i"
    proof (cases "32 - n \<le> i")
      case True
      then have "31 - i < n" "31 - (31 - i) = i" using i assms by auto
      with eq show ?thesis by (metis bit_and_iff prefix_bits_eq_iff)
    next
      case False
      with i assms show ?thesis by (simp add: bit_and_iff bit_PREFIX_MASK)
    qed
  qed
qed

lemma prefix_bits_masked [simp]: "n \<le> 32 \<Longrightarrow> prefix_bits (a AND PREFIX_MASK n) n = prefix_bits a n"
  by (metis and.assoc and.idem masked_eq_iff)

lemma masked_full [simp]: "a AND PREFIX_MASK 32 = a"
  by (rule bit_word_eqI) (simp add: bit_and_iff bit_PREFIX_MASK)

lemma masked_zero [simp]: "a AND PREFIX_MASK 0 = 0"
  by (rule bit_word_eqI) (simp add: bit_and_iff bit_PREFIX_MASK)

section \<open>The most significant one\<close>

lemma and_push_bit_1: "(num :: u32) AND push_bit i 1 \<noteq> 0 \<longleftrightarrow> bit num i"
  by (simp add: push_bit_of_1 bit_iff_and_push_bit_not_eq_0)

lemma mostSigOne_from_bit:
  "mostSigOne_from 0 num = (if bit num 0 then 31 else -1)"
  "mostSigOne_from (Suc i) num = (if bit num (Suc i) then 31 - int (Suc i) else mostSigOne_from i num)"
  using and_push_bit_1 [of num 0] and_push_bit_1 [of num "Suc i"]
  by (simp_all only: mostSigOne_from.simps push_bit_0_id id_apply if_cancel refl split: if_splits)

declare mostSigOne_from.simps [simp del]

lemma mostSigOne_from_Some:
  "i < 32 \<Longrightarrow> bit num j \<Longrightarrow> j \<le> i \<Longrightarrow> (\<forall>k. j < k \<and> k \<le> i \<longrightarrow> \<not> bit num k) \<Longrightarrow>
     mostSigOne_from i num = 31 - int j"
proof (induction i)
  case 0
  then show ?case by (simp add: mostSigOne_from_bit)
next
  case (Suc i)
  show ?case
  proof (cases "j = Suc i")
    case True
    with Suc.prems show ?thesis by (simp add: mostSigOne_from_bit)
  next
    case False
    with Suc.prems have "\<not> bit num (Suc i)" "j \<le> i" by auto
    with Suc show ?thesis by (simp add: mostSigOne_from_bit)
  qed
qed

lemma mostSigOne_from_None: "\<forall>k\<le>i. \<not> bit num k \<Longrightarrow> mostSigOne_from i num = -1"
proof (induction i)
  case 0
  then show ?case by (simp add: mostSigOne_from_bit)
next
  case (Suc i)
  then show ?case by (simp add: mostSigOne_from_bit)
qed

lemma bit_rotl:
  fixes x :: "'a::len word"
  assumes "0 < s" "s < LENGTH('a)"
  shows "bit (rotl ub x s) n \<longleftrightarrow> n < LENGTH('a) \<and>
    (if s \<le> n then bit x (n - s) else bit x (n + (LENGTH('a) - s)))"
  using assms
  by (auto simp: rotl_def bit_or_iff bit_push_bit_iff bit_drop_bit_eq add.commute
      dest: bit_imp_le_length)

end
