(* ===== verification/Interface.thy ===== *)
theory Interface
  imports Util
begin

text \<open>
  \<^verbatim>\<open>include/interface.hpp\<close>: one ethernet port. The router keeps its ports behind
  \<^verbatim>\<open>shared_ptr<Interface>\<close>, and the netmap set-up writes \<open>netmapIndex\<close> through one of these
  pointers after the routes have copied them, so the model keeps pointers as pointers: an \<open>iptr\<close>
  names an object in a heap of interfaces, and \<open>None\<close> is \<^verbatim>\<open>nullptr\<close>.
\<close>

text \<open>\<^verbatim>\<open>std::array<uint8_t, 6>\<close>\<close>

datatype mac = Mac u8 u8 u8 u8 u8 u8

abbreviation zero_mac :: mac where
  "zero_mac \<equiv> Mac 0 0 0 0 0 0"

abbreviation broadcast_mac :: mac where
  "broadcast_mac \<equiv> Mac 0xFF 0xFF 0xFF 0xFF 0xFF 0xFF"

record Interface =
  if_mac :: mac
  netlinkIndex :: u32
  netmapIndex :: u32
  IPs :: "u32 list"
  if_name :: string

type_synonym iptr = nat
type_synonym iheap = "iptr \<Rightarrow> Interface"

definition new_Interface :: Interface where
  "new_Interface = \<lparr>if_mac = zero_mac, netlinkIndex = uint32_t_max, netmapIndex = uint32_t_max,
     IPs = [], if_name = ''noname''\<rparr>"

definition Interface_less :: "Interface \<Rightarrow> Interface \<Rightarrow> bool" where
  "Interface_less a b \<longleftrightarrow> netmapIndex a > netmapIndex b"

definition Interface_eq :: "Interface \<Rightarrow> Interface \<Rightarrow> bool" where
  "Interface_eq a b \<longleftrightarrow> netmapIndex a = netmapIndex b"

definition Interface_eq_index :: "Interface \<Rightarrow> u32 \<Rightarrow> bool" where
  "Interface_eq_index a i \<longleftrightarrow> netmapIndex a = i"

definition Interface_eq_name :: "Interface \<Rightarrow> string \<Rightarrow> bool" where
  "Interface_eq_name a str \<longleftrightarrow> if_name a = str"

text \<open>
  The search every component runs over its interface vector: the first pointer whose object has
  the given netmap index, \<^verbatim>\<open>nullptr\<close> if there is none.
\<close>

definition find_iface :: "iheap \<Rightarrow> iptr list \<Rightarrow> u32 \<Rightarrow> iptr option" where
  "find_iface h ps i = find (\<lambda>p. netmapIndex (h p) = i) ps"

lemma find_iface_Some:
  "find_iface h ps i = Some p \<Longrightarrow> p \<in> set ps \<and> netmapIndex (h p) = i"
  by (auto simp: find_iface_def find_Some_iff)

lemma find_iface_None: "find_iface h ps i = None \<longleftrightarrow> (\<forall>p \<in> set ps. netmapIndex (h p) \<noteq> i)"
  by (auto simp: find_iface_def find_None_iff)

text \<open>The ordering is the reverse order of the netmap index, hence usable by a sort.\<close>

lemma Interface_less_trans: "Interface_less a b \<Longrightarrow> Interface_less b c \<Longrightarrow> Interface_less a c"
  by (auto simp: Interface_less_def)

lemma Interface_incomparable: "\<not> Interface_less a b \<and> \<not> Interface_less b a \<longleftrightarrow> Interface_eq a b"
  by (auto simp: Interface_less_def Interface_eq_def)

end
