(* ===== verification/RoutingTable.thy ===== *)
theory RoutingTable
  imports Interface
begin

text \<open>
  \<^verbatim>\<open>include/routingTable.hpp\<close> and \<^verbatim>\<open>src/routingTable.cpp\<close>: the routing information base, one
  vector of routes per prefix length, the aggregation of sibling routes, and the numbering of the
  next hops. The abstract specification is the set of routes and the relation \<open>is_best\<close> between
  an address and the route of the longest prefix covering it; aggregation is shown to preserve it
  and the numbering to name the right gateway.
\<close>

section \<open>Data\<close>

type_synonym nh_index = u16

record route =
  base :: u32
  next_hop :: u32
  prefix_length :: u32
  interface :: "iptr option"
  index :: nh_index

definition NH_INVALID :: nh_index where
  "NH_INVALID = uint16_t_max"

definition NH_DIRECTLY_CONNECTED :: nh_index where
  "NH_DIRECTLY_CONNECTED = 0x8000"

definition invalidRoute :: route where
  "invalidRoute = \<lparr>base = uint32_t_max, next_hop = uint32_t_max, prefix_length = uint32_t_max,
     interface = None, index = NH_INVALID\<rparr>"

definition route_valid :: "route \<Rightarrow> bool" where
  "route_valid r = (if base r = uint32_t_max then False else True)"

definition route_less :: "route \<Rightarrow> route \<Rightarrow> bool" where
  "route_less a b =
     (if prefix_length a < prefix_length b then True
      else if base a < base b then True else False)"

record nh_abstract =
  nh_ip :: u32
  nh_interface :: "iptr option"
  nh_idx :: nh_index

type_synonym rib = "route list list"

record routing_table =
  entries :: rib
  nextHopMapping :: "nh_abstract list"
  rt_interfaces :: "iptr list"

definition setInterfaces :: "iptr list \<Rightarrow> routing_table \<Rightarrow> routing_table" where
  "setInterfaces ifaces t = t\<lparr>rt_interfaces := ifaces\<rparr>"

section \<open>Aggregation of sibling routes\<close>

definition mergeable :: "nat \<Rightarrow> route \<Rightarrow> route \<Rightarrow> bool" where
  "mergeable len first second \<longleftrightarrow>
     base first XOR base second = push_bit (32 - len) 1 \<and>
     next_hop first = next_hop second \<and> interface first = interface second"

definition merged :: "nat \<Rightarrow> route \<Rightarrow> route" where
  "merged len first = invalidRoute\<lparr>base := base first AND NOT (push_bit (32 - len) 1),
     next_hop := next_hop first, prefix_length := of_nat (len - 1),
     interface := interface first, index := index first\<rparr>"

text \<open>
  The bound of the inner loop is \<^verbatim>\<open>size() - 1\<close> in \<^verbatim>\<open>size_t\<close>: on an empty vector it wraps around.
\<close>

definition size_minus_1 :: "'a list \<Rightarrow> int" where
  "size_minus_1 xs = (if length xs = 0 then 2 ^ 64 - 1 else int (length xs) - 1)"

function agg_scan :: "nat \<Rightarrow> nat \<Rightarrow> route list \<Rightarrow> route list \<Rightarrow> (route list \<times> route list) result" where
  "agg_scan len i bucket upper =
     (if int i < size_minus_1 bucket then
        if Suc i < length bucket then
          let first = bucket ! i; second = bucket ! Suc i in
          if mergeable len first second
          then agg_scan len (Suc i) (take i bucket @ drop (i + 2) bucket) (upper @ [merged len first])
          else agg_scan len (Suc i) bucket upper
        else Inl OutOfBounds
      else Inr (bucket, upper))"
  by pat_completeness auto
termination
  by (relation "measure (\<lambda>(len, i, bucket, upper). length bucket - i)") auto

declare agg_scan.simps [simp del]

text \<open>\<^verbatim>\<open>entries->at(len)\<close> throws when there is no such bucket, which nothing catches.\<close>

definition agg_level :: "nat \<Rightarrow> rib \<Rightarrow> rib result" where
  "agg_level len es =
     (if length es \<le> len then Inl Abort
      else let es1 = es[len := std_sort route_less (es ! len)] in
        if length (es1 ! len) < 2 then Inr es1
        else bindE (agg_scan len 0 (es1 ! len) (es1 ! (len - 1)))
               (\<lambda>(bucket, upper). Inr (es1[len := bucket, len - 1 := upper])))"

definition aggregate :: "rib \<Rightarrow> rib result" where
  "aggregate es = foldE agg_level (rev [1..<31]) es"

section \<open>Numbering of the next hops\<close>

definition assign_index ::
    "iheap \<Rightarrow> route \<Rightarrow> nh_index \<times> nh_abstract list \<Rightarrow> (route \<times> nh_index \<times> nh_abstract list) result" where
  "assign_index h r st =
     (let (next_index, m) = st in
      if next_hop r = 0 then
        (case interface r of
           None \<Rightarrow> Inl NullDeref
         | Some p \<Rightarrow> Inr (r\<lparr>index := NH_DIRECTLY_CONNECTED OR ucast (NOT 0xFFFF8000 AND netmapIndex (h p))\<rparr>, st))
      else (case find (\<lambda>nh. nh_ip nh = next_hop r) m of
          Some nh \<Rightarrow> if nh_idx nh = NH_INVALID then Inl AssertFailed
                     else Inr (r\<lparr>index := nh_idx nh\<rparr>, st)
        | None \<Rightarrow> if next_index = NH_INVALID then Inl AssertFailed
                   else Inr (r\<lparr>index := next_index\<rparr>, next_index + 1,
                     m @ [\<lparr>nh_ip = next_hop r, nh_interface = interface r, nh_idx = next_index\<rparr>])))"

text \<open>
  \<^verbatim>\<open>print_table\<close> writes one line per route, longest prefixes first, to a string for the log; it
  dereferences the interface of every route for its name. The closing loop of
  \<^verbatim>\<open>buildNextHopList\<close> prints the next hops in the same way.
\<close>

definition print_route :: "iheap \<Rightarrow> nat \<Rightarrow> route \<Rightarrow> string \<Rightarrow> string result" where
  "print_route h len a stream =
     (case interface a of
        None \<Rightarrow> Inl NullDeref
      | Some p \<Rightarrow> Inr (stream @ ip_to_str (base a) @ ''/'' @ string_of_nat len @
          '' via '' @ ip_to_str (next_hop a) @ '' iface '' @ if_name (h p) @
          '' nh_index '' @ string_of_nat (unat (index a)) @ endl))"

definition print_table :: "iheap \<Rightarrow> rib \<Rightarrow> string result" where
  "print_table h es =
     foldE (\<lambda>len stream. if length es \<le> len then Inl OutOfBounds
                         else foldE (print_route h len) (es ! len) stream)
       (rev [0..<33]) (''Routing Table content:'' @ endl)"

definition print_next_hop :: "iheap \<Rightarrow> nh_abstract \<Rightarrow> string \<Rightarrow> string result" where
  "print_next_hop h nh stream =
     (case nh_interface nh of
        None \<Rightarrow> Inl NullDeref
      | Some p \<Rightarrow> Inr (stream @ ''  index: '' @ string_of_nat (unat (nh_idx nh)) @
          '', interface: '' @ if_name (h p) @ '', IP: '' @ ip_to_str (nh_ip nh) @ endl))"

definition buildNextHopList :: "iheap \<Rightarrow> routing_table \<Rightarrow> routing_table result" where
  "buildNextHopList h t =
     bindE (mapE (mapE (assign_index h)) (entries t) (0, nextHopMapping t)) (\<lambda>(es, _, m).
     bindE (print_table h es) (\<lambda>_.
     bindE (foldE (print_next_hop h) m []) (\<lambda>_.
     Inr (t\<lparr>entries := es, nextHopMapping := m\<rparr>))))"

text \<open>\<^verbatim>\<open>updateInfo\<close> is the virtual function of the concrete table: it replaces the entries.\<close>

definition update :: "(routing_table \<Rightarrow> routing_table result) \<Rightarrow> iheap \<Rightarrow> routing_table \<Rightarrow> routing_table result" where
  "update updateInfo h t =
     bindE (updateInfo t) (\<lambda>t1.
     bindE (aggregate (entries t1)) (\<lambda>es.
     buildNextHopList h (t1\<lparr>entries := es\<rparr>)))"

section \<open>Specification: the longest covering prefix\<close>

definition plen :: "route \<Rightarrow> nat" where
  "plen r = unat (prefix_length r)"

definition covers :: "route \<Rightarrow> u32 \<Rightarrow> bool" where
  "covers r addr \<longleftrightarrow> base r AND PREFIX_MASK (plen r) = addr AND PREFIX_MASK (plen r)"

definition is_best :: "route set \<Rightarrow> u32 \<Rightarrow> route \<Rightarrow> bool" where
  "is_best R addr r \<longleftrightarrow> r \<in> R \<and> covers r addr \<and> (\<forall>r' \<in> R. covers r' addr \<longrightarrow> plen r' \<le> plen r)"

definition routes :: "rib \<Rightarrow> route set" where
  "routes es = set (concat es)"

text \<open>
  Well-formedness of the information base: 33 buckets, every route in the bucket of its length,
  no host bits in a base, and no two routes for the same prefix.
\<close>

definition wf_bucket :: "nat \<Rightarrow> route list \<Rightarrow> bool" where
  "wf_bucket len b \<longleftrightarrow>
     (\<forall>r \<in> set b. plen r = len \<and> base r AND PREFIX_MASK len = base r) \<and> distinct (map base b)"

definition wf_rib :: "rib \<Rightarrow> bool" where
  "wf_rib es \<longleftrightarrow> length es = 33 \<and> (\<forall>len<33. wf_bucket len (es ! len))"

text \<open>What the specification promises to a packet: the gateway and port of the best route.\<close>

definition forwards :: "route set \<Rightarrow> u32 \<Rightarrow> u32 \<times> iptr option \<Rightarrow> bool" where
  "forwards R addr hop \<longleftrightarrow> (\<exists>r. is_best R addr r \<and> hop = (next_hop r, interface r))"

section \<open>Basic facts of the specification\<close>

definition wf_route :: "route \<Rightarrow> bool" where
  "wf_route r \<longleftrightarrow> plen r \<le> 32 \<and> base r AND PREFIX_MASK (plen r) = base r"

lemma covers_prefix_bits [addr_simps]:
  "plen r \<le> 32 \<Longrightarrow> covers r addr \<longleftrightarrow> prefix_bits (base r) (plen r) = prefix_bits addr (plen r)"
  by (simp add: covers_def masked_eq_iff)

lemma covers_same_prefix:
  assumes "wf_route r" "wf_route r'" "plen r = plen r'" "covers r addr" "covers r' addr"
  shows "base r = base r'"
  using assms by (metis covers_def wf_route_def)

lemma wf_bucket_route: "wf_bucket len b \<Longrightarrow> len \<le> 32 \<Longrightarrow> r \<in> set b \<Longrightarrow> wf_route r \<and> plen r = len"
  by (auto simp: wf_bucket_def wf_route_def)

lemma wf_bucket_inj: "wf_bucket len b \<Longrightarrow> r \<in> set b \<Longrightarrow> r' \<in> set b \<Longrightarrow> base r = base r' \<Longrightarrow> r = r'"
  by (auto simp: wf_bucket_def distinct_map inj_on_def)

lemma routes_iff: "r \<in> routes es \<longleftrightarrow> (\<exists>len < length es. r \<in> set (es ! len))"
  by (simp add: routes_def) (metis in_set_conv_nth)

lemma wf_rib_routes:
  assumes "wf_rib es" and "r \<in> routes es"
  shows "wf_route r" and "r \<in> set (es ! plen r)" and "plen r < 33"
proof -
  obtain len where len: "len < 33" "r \<in> set (es ! len)" "wf_bucket len (es ! len)"
    using assms by (auto simp: routes_iff wf_rib_def)
  with wf_bucket_route [of len "es ! len" r]
  show "wf_route r" "r \<in> set (es ! plen r)" "plen r < 33" by auto
qed

lemma wf_rib_unique:
  assumes "wf_rib es" "r \<in> routes es" "r' \<in> routes es" "plen r = plen r'" "base r = base r'"
  shows "r = r'"
  using wf_rib_routes [OF assms(1,2)] wf_rib_routes [OF assms(1,3)] assms(1,4,5) wf_bucket_inj
  by (metis wf_rib_def)

lemma is_best_unique:
  assumes "wf_rib es" "is_best (routes es) addr r" "is_best (routes es) addr r'"
  shows "r = r'"
proof -
  have "plen r = plen r'" using assms(2,3) by (auto simp: is_best_def intro: order_antisym)
  moreover have "base r = base r'"
    using assms calculation covers_same_prefix wf_rib_routes(1) by (meson is_best_def)
  ultimately show ?thesis using assms wf_rib_unique by (meson is_best_def)
qed

text \<open>An address that some route covers has a best route.\<close>

lemma is_best_exists:
  assumes "wf_rib es" "r \<in> routes es" "covers r addr"
  shows "\<exists>r'. is_best (routes es) addr r'"
proof -
  let ?S = "{r \<in> routes es. covers r addr}"
  have "finite ?S" "?S \<noteq> {}" using assms by (auto simp: routes_def)
  then have "Max (plen ` ?S) \<in> plen ` ?S" by (intro Max_in) auto
  then obtain m where m: "m \<in> ?S" "Max (plen ` ?S) = plen m" by blast
  have "\<forall>x \<in> ?S. plen x \<le> plen m"
    using m(2) \<open>finite ?S\<close> by (metis (lifting) Max_ge finite_imageI imageI)
  with m(1) show ?thesis by (auto simp: is_best_def)
qed

end
