(* ===== verification/SampleTable.thy ===== *)
theory SampleTable
  imports RoutingTable
begin

text \<open>
  The routing table of the unit tests (\<^verbatim>\<open>tests/sampleRoutingTable.hpp\<close>), used for the
  concrete instances: five directly connected networks, three gateways, a default route and
  three siblings at length 26.
\<close>

definition test_route :: "u32 \<Rightarrow> u32 \<Rightarrow> u32 \<Rightarrow> iptr \<Rightarrow> route" where
  "test_route b nh len i = \<lparr>base = b, next_hop = nh, prefix_length = len, interface = Some i, index = NH_INVALID\<rparr>"

definition test_rib :: rib where
  "test_rib =
    (let direct = map (\<lambda>i. test_route (0x0A000000 + push_bit 8 (of_nat i)) 0 24 i) [1..<6];
         mid = [test_route 0x10000000 0x0A000102 16 1, test_route 0x20000000 0x0A000202 16 2,
                test_route 0x30000000 0x0A000302 16 3];
         siblings = map (\<lambda>b. test_route b 0xC0A8FF01 26 1) [0xC0A80000, 0xC0A80040, 0xC0A80080]
     in [[test_route 0 0x0A000102 0 1]] @ replicate 15 [] @ [mid] @ replicate 7 [] @ [direct, [], siblings] @
        replicate 6 [])"

lemma wf_test_rib: "wf_rib test_rib"
  by code_simp

abbreviation test_table :: routing_table where
  "test_table \<equiv> \<lparr>entries = test_rib, nextHopMapping = [], rt_interfaces = [1..<6]\<rparr>"

definition test_heap :: iheap where
  "test_heap i = new_Interface\<lparr>netmapIndex := of_nat i, netlinkIndex := of_nat i\<rparr>"

end
