(* ===== verification/LPM.thy ===== *)
theory LPM
  imports SampleTable
begin

text \<open>
  The interface behind \<^verbatim>\<open>using LPM=BasicTrie\<close> in \<^verbatim>\<open>include/config.hpp\<close>: what the worker may
  assume of whichever lookup structure is configured. A client builds the structure from the
  numbered table and asks it for the index of an address; the provider promises the index of the
  longest covering prefix.
\<close>

text \<open>A table that is ready for lookups: well formed, every route numbered.\<close>

definition lpm_ready :: "rib \<Rightarrow> bool" where
  "lpm_ready es \<longleftrightarrow> wf_rib es \<and> (\<forall>r \<in> routes es. index r \<noteq> NH_INVALID)"

lemma lpm_ready_best:
  assumes "lpm_ready es" "\<exists>r \<in> routes es. covers r addr"
  obtains r where "is_best (routes es) addr r"
  using assms is_best_exists unfolding lpm_ready_def by blast

locale lpm_impl =
  fixes build :: "rib \<Rightarrow> 'l result"
    and lookup :: "'l \<Rightarrow> u32 \<Rightarrow> nh_index result"
  assumes builds: "lpm_ready es \<Longrightarrow> \<exists>l. build es = Inr l"
    and hit: "lpm_ready es \<Longrightarrow> build es = Inr l \<Longrightarrow> is_best (routes es) addr r \<Longrightarrow> lookup l addr = Inr (index r)"
    and miss: "lpm_ready es \<Longrightarrow> build es = Inr l \<Longrightarrow> (\<And>r. r \<in> routes es \<Longrightarrow> \<not> covers r addr) \<Longrightarrow>
      lookup l addr = Inr NH_INVALID"
begin

text \<open>Every lookup returns, and \<^verbatim>\<open>NH_INVALID\<close> means exactly that no route covers the address.\<close>

lemma lookup_total:
  assumes "lpm_ready es" "build es = Inr l"
  shows "\<exists>i. lookup l addr = Inr i"
proof (cases "\<exists>r \<in> routes es. covers r addr")
  case True
  then obtain r where "is_best (routes es) addr r"
    using lpm_ready_best [OF assms(1)] by blast
  with hit [OF assms] show ?thesis by blast
next
  case False
  with miss [OF assms] show ?thesis by blast
qed

lemma lookup_invalid_iff:
  assumes "lpm_ready es" "build es = Inr l"
  shows "lookup l addr = Inr NH_INVALID \<longleftrightarrow> (\<forall>r \<in> routes es. \<not> covers r addr)"
proof
  assume inv: "lookup l addr = Inr NH_INVALID"
  show "\<forall>r \<in> routes es. \<not> covers r addr"
  proof (rule ccontr)
    assume "\<not> ?thesis"
    then obtain r where r: "is_best (routes es) addr r"
      using lpm_ready_best [OF assms(1)] by blast
    then have "index r = NH_INVALID" using hit [OF assms] inv by simp
    moreover have "index r \<noteq> NH_INVALID" using r assms(1) by (simp add: is_best_def lpm_ready_def)
    ultimately show False by simp
  qed
next
  assume "\<forall>r \<in> routes es. \<not> covers r addr"
  with miss [OF assms] show "lookup l addr = Inr NH_INVALID" by blast
qed

text \<open>An index that is returned belongs to the best route.\<close>

lemma lookup_best:
  assumes "lpm_ready es" "build es = Inr l" "lookup l addr = Inr i" "i \<noteq> NH_INVALID"
  shows "\<exists>r. is_best (routes es) addr r \<and> index r = i"
proof -
  have "\<exists>r \<in> routes es. covers r addr" using lookup_invalid_iff [OF assms(1,2), of addr] assms(3,4) by auto
  then obtain r where "is_best (routes es) addr r"
    using lpm_ready_best [OF assms(1)] by blast
  with hit [OF assms(1,2)] assms(3) show ?thesis by fastforce
qed

end

text \<open>Two structures that keep the promise agree on every address.\<close>

locale lpm_pair = A: lpm_impl buildA lookupA + B: lpm_impl buildB lookupB
  for buildA :: "rib \<Rightarrow> 'a result" and lookupA and buildB :: "rib \<Rightarrow> 'b result" and lookupB
begin

lemma agree:
  assumes "lpm_ready es" "buildA es = Inr a" "buildB es = Inr b"
  shows "lookupA a addr = lookupB b addr"
proof (cases "\<exists>r \<in> routes es. covers r addr")
  case True
  then obtain r where "is_best (routes es) addr r"
    using lpm_ready_best [OF assms(1)] by blast
  with A.hit B.hit assms show ?thesis by metis
next
  case False
  with A.miss B.miss assms show ?thesis by metis
qed

end

end
