(* ===== verification/Naive.thy ===== *)
theory Naive
  imports LPM
begin

text \<open>
  \<^verbatim>\<open>src/naive.cpp\<close>: the lookup that walks over all routes from the longest prefixes to the
  shortest. The object keeps the 33 masks its constructor computes and a pointer to the table.
\<close>

record naive =
  nv_entries :: rib
  masks :: "u32 list"

fun mask_loop :: "nat \<Rightarrow> u32 \<Rightarrow> u32 list" where
  "mask_loop 0 m = []"
| "mask_loop (Suc n) m = m # mask_loop n (drop_bit 1 m OR push_bit 31 1)"

definition Naive :: "rib \<Rightarrow> naive" where
  "Naive es = \<lparr>nv_entries = es, masks = mask_loop 33 0\<rparr>"

fun naive_from :: "rib \<Rightarrow> u32 list \<Rightarrow> u32 \<Rightarrow> nat \<Rightarrow> nh_index result" where
  "naive_from es ms addr len =
     (if length es \<le> len then Inl OutOfBounds
      else case find (\<lambda>r. base r = addr AND ms ! len) (es ! len) of
        Some r \<Rightarrow> Inr (index r)
      | None \<Rightarrow> (if len = 0 then Inr NH_INVALID else naive_from es ms addr (len - 1)))"

declare naive_from.simps [simp del]

definition naive_route :: "naive \<Rightarrow> u32 \<Rightarrow> nh_index result" where
  "naive_route l addr = naive_from (nv_entries l) (masks l) addr 32"

section \<open>The masks of the constructor\<close>

lemma PREFIX_MASK_Suc:
  assumes "i < 32"
  shows "drop_bit 1 (PREFIX_MASK i) OR push_bit 31 1 = PREFIX_MASK (Suc i)"
proof (rule bit_word_eqI)
  fix k assume "k < LENGTH(32)"
  then show "bit (drop_bit 1 (PREFIX_MASK i) OR push_bit 31 1) k = bit (PREFIX_MASK (Suc i)) k"
    using assms unfolding bit_or_iff push_bit_of_1 bit_exp_iff
    by (auto simp: bit_drop_bit_eq bit_PREFIX_MASK)
qed

lemma mask_loop_nth:
  "k < n \<Longrightarrow> i + n \<le> 33 \<Longrightarrow> mask_loop n (PREFIX_MASK i) ! k = PREFIX_MASK (i + k)"
proof (induction n arbitrary: i k)
  case 0
  then show ?case by simp
next
  case (Suc n)
  show ?case
  proof (cases k)
    case 0
    then show ?thesis by simp
  next
    case (Suc j)
    have "i < 32" using Suc Suc.prems by simp
    then have "mask_loop (Suc n) (PREFIX_MASK i) ! k = mask_loop n (PREFIX_MASK (Suc i)) ! j"
      by (simp only: mask_loop.simps PREFIX_MASK_Suc Suc nth_Cons_Suc)
    with Suc Suc.prems Suc.IH [of j "Suc i"] show ?thesis by simp
  qed
qed

lemma naive_masks: "len \<le> 32 \<Longrightarrow> masks (Naive es) ! len = PREFIX_MASK len"
proof -
  have "PREFIX_MASK 0 = 0" by (rule bit_word_eqI) (simp add: bit_PREFIX_MASK)
  then show "len \<le> 32 \<Longrightarrow> ?thesis" using mask_loop_nth [of len 33 0] by (simp only: Naive_def) simp
qed

section \<open>The lookup\<close>

definition bucket_hit :: "rib \<Rightarrow> u32 \<Rightarrow> nat \<Rightarrow> route option" where
  "bucket_hit es addr len = find (\<lambda>r. base r = addr AND PREFIX_MASK len) (es ! len)"

lemma bucket_hit_Some:
  assumes "wf_rib es" "len \<le> 32" "bucket_hit es addr len = Some r"
  shows "r \<in> routes es \<and> plen r = len \<and> covers r addr"
proof -
  have "r \<in> set (es ! len)" "base r = addr AND PREFIX_MASK len"
    using assms(3) by (auto simp: bucket_hit_def find_Some_iff)
  moreover from this have "r \<in> routes es" using assms(1,2) by (auto simp: routes_iff wf_rib_def intro!: exI [of _ len])
  ultimately show ?thesis using assms(1,2) wf_bucket_route [of len "es ! len" r]
    by (auto simp: wf_rib_def covers_def)
qed

lemma bucket_hit_covers:
  assumes "wf_rib es" "r \<in> routes es" "covers r addr"
  shows "bucket_hit es addr (plen r) = Some r"
proof -
  note r = wf_rib_routes [OF assms(1,2)]
  have "base r = addr AND PREFIX_MASK (plen r)" using r(1) assms(3) by (simp add: covers_def wf_route_def)
  with r(2) obtain r' where r': "bucket_hit es addr (plen r) = Some r'"
    by (metis (mono_tags, lifting) bucket_hit_def find_None_iff not_None_eq)
  then have "r' \<in> routes es \<and> plen r' = plen r \<and> covers r' addr"
    using bucket_hit_Some [OF assms(1) _ r'] r(3) by simp
  then have "r' = r"
    using covers_same_prefix [OF _ r(1)] wf_rib_routes(1) [OF assms(1)] wf_rib_unique [OF assms(1) _ assms(2)] assms(3)
    by metis
  with r' show ?thesis by simp
qed

lemma naive_step:
  assumes "wf_rib es" "len \<le> 32"
  shows "naive_from es (masks (Naive es)) addr len =
    (case bucket_hit es addr len of
       Some r \<Rightarrow> Inr (index r)
     | None \<Rightarrow> if len = 0 then Inr NH_INVALID else naive_from es (masks (Naive es)) addr (len - 1))"
  using assms by (subst naive_from.simps) (simp add: naive_masks wf_rib_def bucket_hit_def)

lemma naive_from_hit:
  assumes "wf_rib es" "is_best (routes es) addr r" "plen r \<le> len" "len \<le> 32"
  shows "naive_from es (masks (Naive es)) addr len = Inr (index r)"
  using assms(3,4)
proof (induction len)
  case 0
  with naive_step [OF assms(1), of 0 addr] bucket_hit_covers [OF assms(1)] assms(2)
  show ?case by (fastforce simp: is_best_def)
next
  case (Suc len)
  show ?case
  proof (cases "plen r = Suc len")
    case True
    with naive_step [OF assms(1) Suc.prems(2), of addr] bucket_hit_covers [OF assms(1)] assms(2)
    show ?thesis by (fastforce simp: is_best_def)
  next
    case False
    then have "bucket_hit es addr (Suc len) \<noteq> Some r'" for r'
      using bucket_hit_Some [OF assms(1) Suc.prems(2)] assms(2) Suc.prems(1) by (fastforce simp: is_best_def)
    then have "bucket_hit es addr (Suc len) = None" by blast
    with naive_step [OF assms(1) Suc.prems(2)] Suc.IH Suc.prems False show ?thesis by simp
  qed
qed

lemma naive_from_miss:
  assumes "wf_rib es" "\<And>r. r \<in> routes es \<Longrightarrow> \<not> covers r addr" "len \<le> 32"
  shows "naive_from es (masks (Naive es)) addr len = Inr NH_INVALID"
proof -
  have none: "bucket_hit es addr n = None" if "n \<le> 32" for n
    using bucket_hit_Some [OF assms(1) that] assms(2) by (metis not_None_eq)
  show ?thesis
    using assms(3) by (induction len) (simp_all add: naive_step [OF assms(1)] none)
qed

interpretation nv: lpm_impl "\<lambda>es. Inr (Naive es)" naive_route
proof (unfold_locales, goal_cases)
  case (1 es)
  then show ?case by simp
next
  case (2 es l addr r)
  then show ?case
    using naive_from_hit [of es addr r 32] wf_rib_routes(3) [of es r]
    by (auto simp: naive_route_def Naive_def lpm_ready_def is_best_def)
next
  case (3 es l addr)
  then show ?case
    using naive_from_miss [of es addr 32] by (auto simp: naive_route_def Naive_def lpm_ready_def)
qed

end
