(* ===== verification/NextHops.thy ===== *)
theory NextHops
  imports SampleTable
begin

text \<open>
  Correctness of \<^verbatim>\<open>RoutingTable::buildNextHopList\<close>: the numbering it leaves in the routes names,
  through the next-hop mapping, the gateway of the route; directly connected routes carry the
  netmap index of their port; and a second run over the same routes only refreshes the latter.
\<close>

definition direct_index :: "Interface \<Rightarrow> nh_index" where
  "direct_index i = NH_DIRECTLY_CONNECTED OR ucast (NOT 0xFFFF8000 AND netmapIndex i)"

text \<open>
  What the index of a directly connected route says of the port: of a bound interface it is the
  port number behind the bit, of an interface that is not bound (all ones) it is the invalid index.
\<close>

lemma direct_index_bound:
  assumes "unat (netmapIndex i) < 0x7FFF"
  shows "direct_index i AND NH_DIRECTLY_CONNECTED \<noteq> 0"
    "unat (direct_index i XOR NH_DIRECTLY_CONNECTED) = unat (netmapIndex i)"
    "direct_index i \<noteq> NH_INVALID"
proof -
  let ?n = "netmapIndex i"
  have "take_bit 15 ?n = ?n" using assms by (simp add: word_unat_eq_iff unsigned_take_bit_eq take_bit_nat_eq_self)
  then have small: "\<not> bit ?n k" if "15 \<le> k" for k using that by (metis bit_take_bit_iff not_le)
  have dc: "bit NH_DIRECTLY_CONNECTED k \<longleftrightarrow> k = 15" for k
    using bit_push_bit_iff [of 15 "1 :: u16" k] by (auto simp: NH_DIRECTLY_CONNECTED_def push_bit_eq_mult bit_1_iff)
  have m: "NOT 0xFFFF8000 = (mask 15 :: u32)" by (simp add: mask_eq_exp_minus_1)
  have mask: "NOT 0xFFFF8000 AND ?n = ?n"
    unfolding m using \<open>take_bit 15 ?n = ?n\<close> by (simp add: take_bit_eq_mask and.commute)
  have bits: "bit (direct_index i) k \<longleftrightarrow> k = 15 \<or> k < 16 \<and> bit ?n k" for k
    unfolding direct_index_def mask by (auto simp: bit_or_iff dc bit_unsigned_iff)
  have "bit (direct_index i AND NH_DIRECTLY_CONNECTED) 15" by (simp add: bit_and_iff bits dc)
  then show "direct_index i AND NH_DIRECTLY_CONNECTED \<noteq> 0" by auto
  have x: "direct_index i XOR NH_DIRECTLY_CONNECTED = ucast ?n"
    by (rule bit_word_eqI) (use small [of 15] in \<open>auto simp: bit_xor_iff bits dc bit_unsigned_iff\<close>)
  then show u: "unat (direct_index i XOR NH_DIRECTLY_CONNECTED) = unat ?n"
    using assms by (simp add: unsigned_ucast_eq take_bit_nat_eq_self)
  have "unat (NH_INVALID XOR NH_DIRECTLY_CONNECTED) = 0x7FFF"
    by (simp add: NH_INVALID_def uint16_t_max_def NH_DIRECTLY_CONNECTED_def)
  then show "direct_index i \<noteq> NH_INVALID" using u assms by auto
qed

lemma direct_index_unbound: "netmapIndex i = uint32_t_max \<Longrightarrow> direct_index i = NH_INVALID"
  by (simp add: direct_index_def NH_INVALID_def uint16_t_max_def uint32_t_max_def NH_DIRECTLY_CONNECTED_def)

text \<open>The state of the numbering loop: entry \<open>i\<close> of the mapping has index \<open>i\<close>.\<close>

definition nh_table_ok :: "nh_index \<times> nh_abstract list \<Rightarrow> bool" where
  "nh_table_ok st \<longleftrightarrow> (let (n, m) = st in n = of_nat (length m) \<and> length m \<le> 65535 \<and>
     (\<forall>i < length m. nh_idx (m ! i) = of_nat i) \<and> distinct (map nh_ip m))"

definition numbered :: "iheap \<Rightarrow> nh_abstract list \<Rightarrow> route \<Rightarrow> route \<Rightarrow> bool" where
  "numbered h m r r' \<longleftrightarrow> r' = r\<lparr>index := index r'\<rparr> \<and>
     (if next_hop r = 0 then \<exists>p. interface r = Some p \<and> index r' = direct_index (h p)
      else \<exists>i < length m. index r' = of_nat i \<and> nh_ip (m ! i) = next_hop r)"

lemma assign_index_direct:
  "next_hop r = 0 \<Longrightarrow> interface r = Some p \<Longrightarrow>
     assign_index h r st = Inr (r\<lparr>index := direct_index (h p)\<rparr>, st)"
  by (cases st) (simp add: assign_index_def direct_index_def)

lemma nh_table_ok_snoc:
  assumes "nh_table_ok (n, m)" "n \<noteq> NH_INVALID" "ip \<notin> nh_ip ` set m"
  shows "nh_table_ok (n + 1, m @ [\<lparr>nh_ip = ip, nh_interface = i, nh_idx = n\<rparr>])"
proof -
  have "length m \<noteq> 65535" using assms by (auto simp: nh_table_ok_def NH_INVALID_def uint16_t_max_def)
  with assms show ?thesis by (auto simp: nh_table_ok_def nth_append less_Suc_eq add.commute)
qed

lemma assign_index_step:
  assumes ok: "nh_table_ok st" and eq: "assign_index h r st = Inr (r', st')"
  shows "nh_table_ok st' \<and> (\<exists>new. snd st' = snd st @ new) \<and> numbered h (snd st') r r'"
proof -
  obtain n m where st: "st = (n, m)" by (cases st)
  show ?thesis
  proof (cases "next_hop r = 0")
    case True
    with eq st obtain p where "interface r = Some p" by (auto simp: assign_index_def split: option.splits)
    with True eq ok assign_index_direct [OF True this] show ?thesis by (auto simp: numbered_def)
  next
    case False
    show ?thesis
    proof (cases "find (\<lambda>nh. nh_ip nh = next_hop r) m")
      case None
      then have fresh: "next_hop r \<notin> nh_ip ` set m" by (auto simp: find_None_iff)
      have n: "n \<noteq> NH_INVALID" "r' = r\<lparr>index := n\<rparr>"
        "st' = (n + 1, m @ [\<lparr>nh_ip = next_hop r, nh_interface = interface r, nh_idx = n\<rparr>])"
        using eq False None st by (auto simp: assign_index_def split: if_splits)
      moreover have "n = of_nat (length m)" using ok st by (simp add: nh_table_ok_def)
      ultimately show ?thesis using nh_table_ok_snoc [of n m] ok st fresh False
        by (auto simp: numbered_def nth_append)
    next
      case (Some nh)
      then obtain i where i: "i < length m" "nh = m ! i" "nh_ip nh = next_hop r" by (auto simp: find_Some_iff)
      have "r' = r\<lparr>index := nh_idx nh\<rparr>" "st' = st"
        using eq False Some st by (auto simp: assign_index_def split: if_splits)
      moreover have "nh_idx nh = of_nat i" using ok st i by (simp add: nh_table_ok_def)
      ultimately show ?thesis using ok st i False by (auto simp: numbered_def)
    qed
  qed
qed

section \<open>The whole table\<close>

lemma numbered_mono:
  assumes "numbered h m r r'" shows "numbered h (m @ new) r r'"
proof (cases "next_hop r = 0")
  case True
  with assms show ?thesis by (simp add: numbered_def)
next
  case False
  with assms obtain i where "i < length m" "index r' = of_nat i" "nh_ip (m ! i) = next_hop r"
    by (auto simp: numbered_def)
  then have "\<exists>i < length (m @ new). index r' = of_nat i \<and> nh_ip ((m @ new) ! i) = next_hop r"
    by (intro exI [of _ i]) (simp add: nth_append)
  with assms False show ?thesis by (simp add: numbered_def)
qed

lemma mapE_assign_index:
  assumes "mapE (assign_index h) rs st = Inr (rs', st')" "nh_table_ok st"
  shows "nh_table_ok st' \<and> (\<exists>new. snd st' = snd st @ new) \<and> list_all2 (numbered h (snd st')) rs rs'"
  by (rule mapE_invariant [where I = nh_table_ok, OF assms])
    (auto dest: assign_index_step simp: numbered_mono)

lemma mapE_mapE_assign_index:
  assumes "mapE (mapE (assign_index h)) es st = Inr (es', st')" "nh_table_ok st"
  shows "nh_table_ok st' \<and> (\<exists>new. snd st' = snd st @ new) \<and>
    list_all2 (list_all2 (numbered h (snd st'))) es es'"
  by (rule mapE_invariant [where I = nh_table_ok, OF assms])
    (auto dest: mapE_assign_index simp: numbered_mono elim!: list_all2_mono)

lemma nh_table_ok_empty: "nh_table_ok (0, [])"
  by (simp add: nh_table_ok_def)

lemma buildNextHopList_numbered:
  assumes "buildNextHopList h t = Inr t'" "nextHopMapping t = []"
  shows "nh_table_ok (of_nat (length (nextHopMapping t')), nextHopMapping t') \<and>
    list_all2 (list_all2 (numbered h (nextHopMapping t'))) (entries t) (entries t')"
proof -
  from assms obtain es n m where *: "mapE (mapE (assign_index h)) (entries t) (0, []) = Inr (es, n, m)"
    and t': "t' = t\<lparr>entries := es, nextHopMapping := m\<rparr>"
    by (auto simp: buildNextHopList_def bindE_Inr_iff)
  from mapE_mapE_assign_index [OF * nh_table_ok_empty] t' show ?thesis by (simp add: nh_table_ok_def)
qed

lemma numbered_fields:
  assumes "numbered h m r r'"
  shows "base r' = base r" "next_hop r' = next_hop r" "prefix_length r' = prefix_length r"
    "interface r' = interface r"
proof -
  have e: "r' = r\<lparr>index := index r'\<rparr>" using assms by (simp add: numbered_def)
  show "base r' = base r" by (subst e) simp
  show "next_hop r' = next_hop r" by (subst e) simp
  show "prefix_length r' = prefix_length r" by (subst e) simp
  show "interface r' = interface r" by (subst e) simp
qed

section \<open>The run succeeds\<close>

definition nh_loop_inv :: "u32 set \<Rightarrow> nh_index \<times> nh_abstract list \<Rightarrow> bool" where
  "nh_loop_inv G st \<longleftrightarrow> nh_table_ok st \<and> nh_ip ` set (snd st) \<subseteq> G \<and>
     (\<forall>nh \<in> set (snd st). nh_interface nh \<noteq> None)"

lemma nh_loop_inv_length:
  assumes "nh_loop_inv G st" "finite G"
  shows "length (snd st) \<le> card G"
proof -
  have "length (snd st) = card (nh_ip ` set (snd st))"
    using assms(1) distinct_card [of "map nh_ip (snd st)"]
    by (auto simp: nh_loop_inv_def nh_table_ok_def split: prod.splits)
  also have "\<dots> \<le> card G" using assms by (intro card_mono) (auto simp: nh_loop_inv_def)
  finally show ?thesis .
qed

lemma small_index:
  "i \<le> 32768 \<Longrightarrow> (of_nat i :: nh_index) \<noteq> NH_INVALID"
  "i < 32768 \<Longrightarrow> (of_nat i :: nh_index) AND NH_DIRECTLY_CONNECTED = 0"
proof -
  assume "i \<le> 32768"
  then have "unat (of_nat i :: nh_index) = i" by (simp add: unat_of_nat take_bit_eq_mod)
  moreover have "unat NH_INVALID = 65535" by (simp add: NH_INVALID_def uint16_t_max_def)
  ultimately show "(of_nat i :: nh_index) \<noteq> NH_INVALID" using \<open>i \<le> 32768\<close> by auto
next
  assume "i < 32768"
  then have "take_bit 15 i = i" by (simp add: take_bit_eq_mod)
  then have "(of_nat i :: nh_index) = take_bit 15 (of_nat i)" by (metis of_nat_take_bit)
  then have "\<not> bit (of_nat i :: nh_index) 15" by (metis bit_take_bit_iff less_irrefl)
  moreover have "NH_DIRECTLY_CONNECTED = 2 ^ 15" by (simp add: NH_DIRECTLY_CONNECTED_def)
  ultimately show "(of_nat i :: nh_index) AND NH_DIRECTLY_CONNECTED = 0"
    by (metis and_exp_eq_0_iff_not_bit)
qed

lemma assign_index_total:
  assumes inv: "nh_loop_inv G st" and G: "finite G" "card G \<le> 32768" "next_hop r \<noteq> 0 \<Longrightarrow> next_hop r \<in> G"
    and iface: "interface r \<noteq> None"
  shows "\<exists>r' st'. assign_index h r st = Inr (r', st') \<and> nh_loop_inv G st'"
proof -
  obtain n m where st: "st = (n, m)" by (cases st)
  have len: "length m \<le> 32768" using nh_loop_inv_length [OF inv G(1)] G(2) st by simp
  have ok: "n = of_nat (length m)" "\<forall>i < length m. nh_idx (m ! i) = of_nat i"
    using inv st by (auto simp: nh_loop_inv_def nh_table_ok_def)
  note small = small_index(1)
  obtain r' st' where eq: "assign_index h r st = Inr (r', st')"
  proof (cases "next_hop r = 0")
    case True
    with iface assign_index_direct that show ?thesis by blast
  next
    case False
    then show ?thesis using that ok len small st
      by (cases "find (\<lambda>nh. nh_ip nh = next_hop r) m") (auto simp: assign_index_def find_Some_iff)
  qed
  moreover have "nh_table_ok st'" using assign_index_step [OF _ eq] inv by (simp add: nh_loop_inv_def)
  moreover have "snd st' = m \<or> next_hop r \<noteq> 0 \<and>
      snd st' = m @ [\<lparr>nh_ip = next_hop r, nh_interface = interface r, nh_idx = n\<rparr>]"
    using eq st by (auto simp: assign_index_def split: if_splits option.splits)
  ultimately show ?thesis using inv st G(3) iface by (auto simp: nh_loop_inv_def image_subset_iff)
qed

lemma print_table_total:
  assumes "length es = 33" "\<And>r. r \<in> routes es \<Longrightarrow> interface r \<noteq> None"
  shows "\<exists>s. print_table h es = Inr s"
proof -
  have "\<exists>s'. foldE (print_route h len) (es ! len) s = Inr s'" if "len < 33" for len s
    using foldE_total [of "\<lambda>_. True" s "es ! len" "print_route h len"] that assms
    by (fastforce simp: print_route_def routes_iff)
  then show ?thesis
    using foldE_total [of "\<lambda>_. True" "''Routing Table content:'' @ endl" "rev [0..<33]"] assms(1)
    by (fastforce simp: print_table_def)
qed

lemma list_all2_routes:
  assumes "list_all2 (list_all2 P) es es'"
  shows "\<And>r'. r' \<in> routes es' \<Longrightarrow> \<exists>r \<in> routes es. P r r'" "\<And>r. r \<in> routes es \<Longrightarrow> \<exists>r' \<in> routes es'. P r r'"
proof -
  have c: "list_all2 P (concat es) (concat es')" using assms by (induction rule: list_all2_induct) (auto intro: list_all2_appendI)
  show "\<exists>r \<in> routes es. P r r'" if "r' \<in> routes es'" for r'
    using that c unfolding routes_def by (metis in_set_conv_nth list_all2_conv_all_nth)
  show "\<exists>r' \<in> routes es'. P r r'" if "r \<in> routes es" for r
    using that c unfolding routes_def by (metis in_set_conv_nth list_all2_conv_all_nth)
qed

lemma buildNextHopList_total:
  assumes es: "length (entries t) = 33" "\<And>r. r \<in> routes (entries t) \<Longrightarrow> interface r \<noteq> None"
    and G: "card (next_hop ` routes (entries t)) \<le> 32768" and m: "nextHopMapping t = []"
  shows "\<exists>t'. buildNextHopList h t = Inr t' \<and> length (nextHopMapping t') \<le> 32768 \<and>
    (\<forall>nh \<in> set (nextHopMapping t'). nh_interface nh \<noteq> None)"
proof -
  let ?G = "next_hop ` routes (entries t)"
  have fin: "finite ?G" by (simp add: routes_def)
  have inner: "\<exists>b' st'. mapE (assign_index h) b st = Inr (b', st') \<and> nh_loop_inv ?G st'"
    if "b \<in> set (entries t)" "nh_loop_inv ?G st" for b st
    by (rule mapE_total [where I = "nh_loop_inv ?G", OF that(2)], rule assign_index_total [OF _ fin G])
      (use that es(2) in \<open>auto simp: routes_def\<close>)
  have "nh_loop_inv ?G (0, [])" by (simp add: nh_loop_inv_def nh_table_ok_empty)
  then obtain es' n m' where run: "mapE (mapE (assign_index h)) (entries t) (0, []) = Inr (es', n, m')"
    and inv: "nh_loop_inv ?G (n, m')"
    using mapE_total [of "nh_loop_inv ?G" "(0, [])" "entries t" "mapE (assign_index h)"] inner by auto
  have "list_all2 (list_all2 (numbered h m')) (entries t) es'"
    using mapE_mapE_assign_index [OF run nh_table_ok_empty] by simp
  then have "interface r \<noteq> None" if "r \<in> routes es'" for r
    using list_all2_routes(1) that es(2) numbered_fields(4) by metis
  moreover have "length es' = 33" using mapE_length [OF run] es(1) by simp
  ultimately obtain s where "print_table h es' = Inr s" using print_table_total by blast
  moreover have "\<exists>s'. foldE (print_next_hop h) m' [] = Inr s'"
    using foldE_total [of "\<lambda>_. True" "[]" m' "print_next_hop h"] inv
    by (fastforce simp: print_next_hop_def nh_loop_inv_def)
  ultimately show ?thesis
    using run m nh_loop_inv_length [OF inv fin] G inv by (auto simp: buildNextHopList_def nh_loop_inv_def)
qed

section \<open>A second run over the same routes\<close>

text \<open>
  \<^verbatim>\<open>Manager::initNetmap\<close> numbers the routes a second time, after the ports have received their
  netmap index. Every gateway is found in the mapping, so nothing is added to it.
\<close>

definition renumbered :: "iheap \<Rightarrow> route \<Rightarrow> route \<Rightarrow> bool" where
  "renumbered h r r' \<longleftrightarrow>
     (if next_hop r = 0 then \<exists>p. interface r = Some p \<and> r' = r\<lparr>index := direct_index (h p)\<rparr> else r' = r)"

lemma assign_index_again:
  assumes ok: "nh_table_ok (k, m)" and r: "numbered h0 m r0 r"
    and eq: "assign_index h r (n, m) = Inr (r', st')"
  shows "st' = (n, m) \<and> renumbered h r r'"
proof (cases "next_hop r = 0")
  case True
  with eq obtain p where "interface r = Some p" by (auto simp: assign_index_def split: option.splits)
  with True eq assign_index_direct show ?thesis by (fastforce simp: renumbered_def)
next
  case False
  with r numbered_fields(2) [OF r] obtain i where i: "i < length m" "index r = of_nat i" "nh_ip (m ! i) = next_hop r"
    by (auto simp: numbered_def)
  then obtain nh where nh: "find (\<lambda>nh. nh_ip nh = next_hop r) m = Some nh"
    by (metis (mono_tags, lifting) find_None_iff not_None_eq nth_mem)
  then obtain j where j: "j < length m" "nh = m ! j" "nh_ip nh = next_hop r" by (auto simp: find_Some_iff)
  have "i = j" using ok i j by (auto simp: nh_table_ok_def distinct_conv_nth) (metis nth_map length_map)
  then have "nh_idx nh = index r" using ok i j by (simp add: nh_table_ok_def)
  then show ?thesis using eq False nh by (auto simp: assign_index_def renumbered_def split: if_splits)
qed

lemma mapE_assign_index_again:
  assumes "mapE (assign_index h) rs (n, m) = Inr (rs', st')" "nh_table_ok (k, m)"
    and "\<And>r. r \<in> set rs \<Longrightarrow> \<exists>h0 r0. numbered h0 m r0 r"
  shows "st' = (n, m) \<and> list_all2 (renumbered h) rs rs'"
  using mapE_invariant [where I = "\<lambda>st. st = (n, m)" and R = "\<lambda>_ _. True" and Q = "\<lambda>_. renumbered h", OF assms(1)]
    assign_index_again [OF assms(2)] assms(3) by metis

lemma mapE_mapE_assign_index_again:
  assumes "mapE (mapE (assign_index h)) es (n, m) = Inr (es', st')" "nh_table_ok (k, m)"
    and "\<And>r. r \<in> routes es \<Longrightarrow> \<exists>h0 r0. numbered h0 m r0 r"
  shows "st' = (n, m) \<and> list_all2 (list_all2 (renumbered h)) es es'"
proof -
  have "s' = (n, m) \<and> True \<and> list_all2 (renumbered h) b b'"
    if "b \<in> set es" "s = (n, m)" "mapE (assign_index h) b s = Inr (b', s')" for b b' s s'
  proof -
    have "\<exists>h0 r0. numbered h0 m r0 r" if "r \<in> set b" for r
      using assms(3) that \<open>b \<in> set es\<close> by (auto simp: routes_def)
    then show ?thesis using mapE_assign_index_again [OF that(3) [unfolded that(2)] assms(2)] by simp
  qed
  then show ?thesis
    using mapE_invariant [where I = "\<lambda>st. st = (n, m)" and R = "\<lambda>_ _. True"
        and Q = "\<lambda>_. list_all2 (renumbered h)", OF assms(1)] by metis
qed

lemma renumbered_interface: "renumbered h r r' \<Longrightarrow> interface r' = interface r"
  by (auto simp: renumbered_def split: if_splits)

lemma assign_again_total:
  assumes "nh_table_ok (k, m)" "length m \<le> 32768" "numbered h0 m r0 r" "interface r \<noteq> None"
  shows "\<exists>r'. assign_index h r (n, m) = Inr (r', n, m)"
proof -
  have "\<exists>r' st'. assign_index h r (n, m) = Inr (r', st')"
  proof (cases "next_hop r = 0")
    case True
    then show ?thesis using assign_index_direct assms(4) by blast
  next
    case False
    then obtain i where i: "i < length m" "nh_ip (m ! i) = next_hop r"
      using assms(3) numbered_fields(2) [OF assms(3)] by (auto simp: numbered_def)
    then obtain nh where nh: "find (\<lambda>nh. nh_ip nh = next_hop r) m = Some nh"
      by (metis (mono_tags, lifting) find_None_iff not_None_eq nth_mem)
    then obtain j where j: "j < length m" "nh = m ! j" by (auto simp: find_Some_iff)
    then have "nh_idx nh \<noteq> NH_INVALID" using assms(1,2) small_index(1) [of j] by (simp add: nh_table_ok_def)
    with False nh show ?thesis by (simp add: assign_index_def)
  qed
  then show ?thesis using assign_index_again [OF assms(1,3)] by blast
qed

lemma numbering_again_total:
  assumes m: "nh_table_ok (k, nextHopMapping t)" "length (nextHopMapping t) \<le> 32768" "\<forall>nh \<in> set (nextHopMapping t). nh_interface nh \<noteq> None"
    and es: "length (entries t) = 33" "\<And>r. r \<in> routes (entries t) \<Longrightarrow> interface r \<noteq> None"
    and num: "\<And>r. r \<in> routes (entries t) \<Longrightarrow> \<exists>h0 r0. numbered h0 (nextHopMapping t) r0 r"
  shows "\<exists>es'. buildNextHopList h t = Inr (t\<lparr>entries := es'\<rparr>) \<and> list_all2 (list_all2 (renumbered h)) (entries t) es' \<and>
    (\<exists>s. print_table h es' = Inr s)"
proof -
  let ?m = "nextHopMapping t"
  have inner: "\<exists>b' st'. mapE (assign_index h) b st = Inr (b', st') \<and> st' = (0, ?m)" if "b \<in> set (entries t)" "st = (0, ?m)" for b st
  proof (rule mapE_total [where I = "\<lambda>st. st = (0, ?m)", OF that(2)])
    fix r and st :: "nh_index \<times> nh_abstract list" assume r: "r \<in> set b" "st = (0, ?m)"
    then have "r \<in> routes (entries t)" using that(1) by (auto simp: routes_def)
    then show "\<exists>r' st'. assign_index h r st = Inr (r', st') \<and> st' = (0, ?m)"
      using num es(2) assign_again_total [OF m(1,2)] r(2) by metis
  qed
  obtain es' where run: "mapE (mapE (assign_index h)) (entries t) (0, ?m) = Inr (es', 0, ?m)"
    using mapE_total [of "\<lambda>st. st = (0, ?m)" "(0, ?m)" "entries t" "mapE (assign_index h)"] inner by auto
  have re: "list_all2 (list_all2 (renumbered h)) (entries t) es'"
    using mapE_mapE_assign_index_again [OF run m(1) num] by blast
  have "interface r \<noteq> None" if r: "r \<in> routes es'" for r
  proof -
    obtain r0 where "r0 \<in> routes (entries t)" "renumbered h r0 r" using list_all2_routes(1) [OF re r] by (rule bexE)
    then show ?thesis using es(2) renumbered_interface by metis
  qed
  moreover have "length es' = 33" using list_all2_lengthD [OF re] es(1) by simp
  ultimately obtain s where s: "print_table h es' = Inr s" using print_table_total by blast
  moreover obtain s' where "foldE (print_next_hop h) ?m [] = Inr s'"
    using foldE_total [of "\<lambda>_. True" "[]" ?m "print_next_hop h"] m(3) by (fastforce simp: print_next_hop_def)
  ultimately have "buildNextHopList h t = Inr (t\<lparr>entries := es'\<rparr>)" using run by (simp add: buildNextHopList_def)
  with re s show ?thesis by blast
qed

section \<open>Properties\<close>

definition names_hop :: "iheap \<Rightarrow> nh_abstract list \<Rightarrow> route \<Rightarrow> bool" where
  "names_hop h m r \<longleftrightarrow> (if next_hop r = 0
     then \<exists>p. interface r = Some p \<and>
       (unat (netmapIndex (h p)) < 0x7FFF \<longrightarrow> index r \<noteq> NH_INVALID \<and> index r AND NH_DIRECTLY_CONNECTED \<noteq> 0 \<and>
          unat (index r XOR NH_DIRECTLY_CONNECTED) = unat (netmapIndex (h p))) \<and>
       (netmapIndex (h p) = uint32_t_max \<longrightarrow> index r = NH_INVALID)
     else \<exists>i < length m. index r \<noteq> NH_INVALID \<and> index r AND NH_DIRECTLY_CONNECTED = 0 \<and> unat (index r) = i \<and>
       nh_ip (m ! i) = next_hop r \<and> nh_idx (m ! i) = index r)"

lemma numbered_names_hop:
  assumes "nh_table_ok (k, m)" "length m \<le> 32768" "numbered h0 m r0 r" "renumbered h r r'"
  shows "names_hop h m r'"
proof (cases "next_hop r = 0")
  case True
  with assms(4) obtain p where p: "interface r = Some p" "r' = r\<lparr>index := direct_index (h p)\<rparr>"
    by (auto simp: renumbered_def)
  with True show ?thesis
    using direct_index_bound [of "h p"] direct_index_unbound [of "h p"] by (simp add: names_hop_def)
next
  case False
  with assms(3,4) numbered_fields(2) [OF assms(3)]
  obtain i where i: "r' = r" "i < length m" "index r = of_nat i" "nh_ip (m ! i) = next_hop r"
    by (auto simp: numbered_def renumbered_def)
  moreover from i have "unat (index r) = i" using assms(2) by (simp add: unat_of_nat take_bit_eq_mod)
  moreover from i have "index r AND NH_DIRECTLY_CONNECTED = 0" "index r \<noteq> NH_INVALID"
    using assms(2) small_index [of i] by simp_all
  ultimately show ?thesis using assms(1) False by (auto simp: names_hop_def nh_table_ok_def)
qed

text \<open>
  C10: the program numbers a table twice, once when it is read and again after the ports are
  bound. For a fresh table of which every route has an interface and that has at most
  \<^verbatim>\<open>0x8000\<close> gateways both runs succeed, change nothing but the indices, and every index then
  means what the worker takes it to mean. A gateway route's index has no
  \<^verbatim>\<open>NH_DIRECTLY_CONNECTED\<close> bit and selects the mapping entry of its gateway. The index of a
  directly connected route on a port below \<^verbatim>\<open>0x7FFF\<close> is valid, has the bit, and is the port
  number once the bit is taken off; on an interface that the second run still finds unbound it
  is \<^verbatim>\<open>NH_INVALID\<close>.
\<close>

theorem buildNextHopList_resolves:
  assumes "length (entries t) = 33" "\<And>r. r \<in> routes (entries t) \<Longrightarrow> interface r \<noteq> None"
    and "card (next_hop ` routes (entries t)) \<le> 32768" "nextHopMapping t = []"
  shows "\<exists>t1 t2. buildNextHopList h t = Inr t1 \<and> buildNextHopList h' t1 = Inr t2 \<and>
    list_all2 (list_all2 (\<lambda>r r'. r' = r\<lparr>index := index r'\<rparr>)) (entries t) (entries t2) \<and>
    nextHopMapping t2 = nextHopMapping t1 \<and> (\<forall>r \<in> routes (entries t2). names_hop h' (nextHopMapping t2) r)"
proof -
  obtain t1 where t1: "buildNextHopList h t = Inr t1" "length (nextHopMapping t1) \<le> 32768"
      "\<forall>nh \<in> set (nextHopMapping t1). nh_interface nh \<noteq> None"
    using buildNextHopList_total [OF assms] by blast
  let ?m = "nextHopMapping t1"
  have ok: "nh_table_ok (of_nat (length ?m), ?m)" and all: "list_all2 (list_all2 (numbered h ?m)) (entries t) (entries t1)"
    using buildNextHopList_numbered [OF t1(1) assms(4)] by auto
  have num: "\<exists>r0 \<in> routes (entries t). numbered h ?m r0 r" if "r \<in> routes (entries t1)" for r
    using list_all2_routes(1) [OF all that] .
  have face: "interface r \<noteq> None" if r: "r \<in> routes (entries t1)" for r
    using num [OF r] assms(2) numbered_fields(4) by metis
  have "length (entries t1) = 33" using list_all2_lengthD [OF all] assms(1) by simp
  then obtain es2 where t2: "buildNextHopList h' t1 = Inr (t1\<lparr>entries := es2\<rparr>)"
    and re: "list_all2 (list_all2 (renumbered h')) (entries t1) es2"
    using numbering_again_total [OF ok t1(2,3) _ face, of h'] num by metis
  have "names_hop h' ?m r" if r: "r \<in> routes es2" for r
    using list_all2_routes(1) [OF re r] num numbered_names_hop [OF ok t1(2)] by metis
  moreover have "list_all2 (list_all2 (\<lambda>r r'. r' = r\<lparr>index := index r'\<rparr>)) (entries t) es2"
    by (rule list_all2_trans [OF _ all re], rule list_all2_trans) (auto simp: numbered_def renumbered_def split: if_splits)
  ultimately show ?thesis using t1(1) t2 by auto
qed

lemma test_table_hyps:
  "length (entries test_table) = 33" "\<And>r. r \<in> routes (entries test_table) \<Longrightarrow> interface r \<noteq> None"
  "card (next_hop ` routes (entries test_table)) \<le> 32768"
proof -
  show "length (entries test_table) = 33" by (simp add: test_rib_def Let_def)
  have "list_all (\<lambda>r. interface r \<noteq> None) (concat test_rib)" by code_simp
  then show "\<And>r. r \<in> routes (entries test_table) \<Longrightarrow> interface r \<noteq> None"
    by (auto simp: routes_def list_all_iff)
  have "card (next_hop ` routes test_rib) \<le> length (concat test_rib)"
    unfolding routes_def by (metis card_length image_set length_map)
  also have "\<dots> \<le> 32768" by code_simp
  finally show "card (next_hop ` routes (entries test_table)) \<le> 32768" by simp
qed

theorem buildNextHopList_resolves_witness:
  "\<exists>t1 t2 r d. buildNextHopList (\<lambda>i. new_Interface) test_table = Inr t1 \<and> buildNextHopList test_heap t1 = Inr t2 \<and>
     r \<in> routes (entries t2) \<and> base r = 0x20000000 \<and> nh_ip (nextHopMapping t2 ! unat (index r)) = 0x0A000202 \<and>
     d \<in> routes (entries t2) \<and> base d = 0x0A000300 \<and> unat (index d XOR NH_DIRECTLY_CONNECTED) = 3"
proof -
  let ?r = "test_route 0x20000000 0x0A000202 16 2" and ?d = "test_route 0x0A000300 0 24 3"
  obtain t1 t2 where t: "buildNextHopList (\<lambda>i. new_Interface) test_table = Inr t1" "buildNextHopList test_heap t1 = Inr t2"
      "list_all2 (list_all2 (\<lambda>r r'. r' = r\<lparr>index := index r'\<rparr>)) (entries test_table) (entries t2)"
    and res: "\<And>r. r \<in> routes (entries t2) \<Longrightarrow> names_hop test_heap (nextHopMapping t2) r"
    using buildNextHopList_resolves [OF test_table_hyps, of "\<lambda>i. new_Interface" test_heap] by auto
  have "?r \<in> routes (entries test_table)" "?d \<in> routes (entries test_table)" by (simp, code_simp)+
  then obtain r d where r: "r \<in> routes (entries t2)" "r = ?r\<lparr>index := index r\<rparr>"
    and d: "d \<in> routes (entries t2)" "d = ?d\<lparr>index := index d\<rparr>"
    using list_all2_routes(2) [OF t(3)] by metis
  have f: "base r = base ?r" "next_hop r = next_hop ?r" "base d = base ?d" "next_hop d = next_hop ?d" "interface d = interface ?d"
    by (subst r(2), simp, subst r(2), simp) (subst d(2), simp)+
  have "nh_ip (nextHopMapping t2 ! unat (index r)) = 0x0A000202"
    using res [OF r(1)] f by (auto simp: names_hop_def test_route_def)
  moreover have "unat (index d XOR NH_DIRECTLY_CONNECTED) = 3"
    using res [OF d(1)] f by (simp add: names_hop_def test_route_def test_heap_def)
  ultimately show ?thesis using t(1,2) r(1) d(1) f
    by (intro exI [of _ t1] exI [of _ t2] exI [of _ r] exI [of _ d]) (simp add: test_route_def)
qed

text \<open>
  Numbering the same table again, with whatever netmap indices the ports have by then, leaves
  the mapping and the indices of all gateway routes alone and refreshes the directly connected
  routes.
\<close>

theorem buildNextHopList_again:
  assumes "buildNextHopList h t = Inr t1" "nextHopMapping t = []" "buildNextHopList h' t1 = Inr t2"
  shows "nextHopMapping t2 = nextHopMapping t1 \<and>
    list_all2 (list_all2 (\<lambda>r r'. if next_hop r = 0
        then \<exists>p. interface r = Some p \<and> r' = r\<lparr>index := direct_index (h' p)\<rparr> else r' = r))
      (entries t1) (entries t2)"
proof -
  have ok: "nh_table_ok (of_nat (length (nextHopMapping t1)), nextHopMapping t1)"
    and all: "list_all2 (list_all2 (numbered h (nextHopMapping t1))) (entries t) (entries t1)"
    using buildNextHopList_numbered [OF assms(1,2)] by auto
  from assms(3) obtain es n m where
    run: "mapE (mapE (assign_index h')) (entries t1) (0, nextHopMapping t1) = Inr (es, n, m)"
    and t2: "t2 = t1\<lparr>entries := es, nextHopMapping := m\<rparr>"
    by (auto simp: buildNextHopList_def bindE_Inr_iff)
  have "(n, m) = (0, nextHopMapping t1) \<and> list_all2 (list_all2 (renumbered h')) (entries t1) es"
    using mapE_mapE_assign_index_again [OF run ok] list_all2_routes(1) [OF all] by blast
  with t2 show ?thesis by (simp add: renumbered_def [abs_def])
qed

definition one_route_table :: routing_table where
  "one_route_table = \<lparr>entries = [[test_route 0 7 0 1]] @ replicate 32 [], nextHopMapping = [], rt_interfaces = [1]\<rparr>"

theorem buildNextHopList_again_witness:
  "\<exists>t1 t2. buildNextHopList (\<lambda>i. new_Interface) one_route_table = Inr t1 \<and>
     buildNextHopList test_heap t1 = Inr t2 \<and> nextHopMapping t2 = nextHopMapping t1"
proof -
  let ?t = "\<lparr>entries = [[(test_route 0 7 0 1)\<lparr>index := 0\<rparr>]] @ replicate 32 [],
      nextHopMapping = [\<lparr>nh_ip = 7, nh_interface = Some 1, nh_idx = 0\<rparr>], rt_interfaces = [1]\<rparr>"
  have 1: "buildNextHopList (\<lambda>i. new_Interface) one_route_table = Inr ?t" by code_simp
  have 2: "buildNextHopList test_heap ?t = Inr ?t" by code_simp
  show ?thesis using buildNextHopList_again [OF 1 _ 2] 1 2 by (auto simp: one_route_table_def)
qed

end
