(* ===== verification/BasicTrie.thy ===== *)
theory BasicTrie
  imports Naive NextHops
begin

text \<open>
  \<^verbatim>\<open>include/basicTrie.hpp\<close> and \<^verbatim>\<open>src/basicTrie.cpp\<close>: the binary trie the router uses. A node owns
  its two children and holds the index of the route that ends there; the \<^verbatim>\<open>parent\<close> pointer is
  written but never read, so a node is a tree. The lookup remembers the last index on the way
  down. A path of 32 steps makes it extract bit 32 of the address, whose value C++ leaves open
  (the argument \<open>ub\<close> of \<open>extractBit\<close>): the theorems hold for every such value.
\<close>

datatype trie = Internal (left: "trie option") (right: "trie option") (leaf: nh_index)

definition new_Internal :: trie where
  "new_Internal = Internal None None NH_INVALID"

text \<open>
  The descent of \<^verbatim>\<open>buildTrie\<close> for one route: from \<open>level\<close>, \<open>n\<close> more levels down to its length,
  creating the missing nodes.
\<close>

fun trie_insert :: "(u32 \<Rightarrow> nat \<Rightarrow> u32) \<Rightarrow> u32 \<Rightarrow> nat \<Rightarrow> nat \<Rightarrow> nh_index \<Rightarrow> trie \<Rightarrow> trie" where
  "trie_insert ub b level 0 ix (Internal l r lf) = Internal l r ix"
| "trie_insert ub b level (Suc n) ix (Internal l r lf) =
     (if extractBit ub b level \<noteq> 0
      then let next = (case r of None \<Rightarrow> new_Internal | Some t \<Rightarrow> t)
           in Internal l (Some (trie_insert ub b (Suc level) n ix next)) lf
      else let next = (case l of None \<Rightarrow> new_Internal | Some t \<Rightarrow> t)
           in Internal (Some (trie_insert ub b (Suc level) n ix next)) r lf)"

definition buildTrie :: "(u32 \<Rightarrow> nat \<Rightarrow> u32) \<Rightarrow> rib \<Rightarrow> trie result" where
  "buildTrie ub tbl =
     foldE (\<lambda>len root. if length tbl \<le> len then Inl OutOfBounds
              else Inr (fold (\<lambda>r. trie_insert ub (base r) 0 len (index r)) (tbl ! len) root))
       [0..<33] new_Internal"

text \<open>The loop of \<^verbatim>\<open>route\<close> at a node, with the position of the bit to branch on next.\<close>

function route_from :: "(u32 \<Rightarrow> nat \<Rightarrow> u32) \<Rightarrow> u32 \<Rightarrow> nat \<Rightarrow> trie \<Rightarrow> nh_index \<Rightarrow> nh_index" where
  "route_from ub addr pos (Internal l r lf) lastLeaf =
     (case (if extractBit ub addr pos \<noteq> 0 then r else l) of
        None \<Rightarrow> lastLeaf
      | Some cur \<Rightarrow> route_from ub addr (Suc pos) cur
          (if leaf cur \<noteq> NH_INVALID then leaf cur else lastLeaf))"
  by pat_completeness auto
termination
  by (relation "measure (\<lambda>(_, _, _, t, _). size t)") (auto split: if_splits)

definition trie_route :: "(u32 \<Rightarrow> nat \<Rightarrow> u32) \<Rightarrow> trie \<Rightarrow> u32 \<Rightarrow> nh_index" where
  "trie_route ub root addr = route_from ub addr 0 root (leaf root)"

section \<open>Tries as maps from bit sequences\<close>

fun leaf_at :: "trie \<Rightarrow> bool list \<Rightarrow> nh_index" where
  "leaf_at (Internal l r lf) [] = lf"
| "leaf_at (Internal l r lf) (b # bs) =
     (case (if b then r else l) of None \<Rightarrow> NH_INVALID | Some t \<Rightarrow> leaf_at t bs)"

fun depth_le :: "nat \<Rightarrow> trie \<Rightarrow> bool" where
  "depth_le 0 (Internal l r lf) \<longleftrightarrow> l = None \<and> r = None"
| "depth_le (Suc n) (Internal l r lf) \<longleftrightarrow> (\<forall>t \<in> set_option l. depth_le n t) \<and> (\<forall>t \<in> set_option r. depth_le n t)"

text \<open>The bits of an address from position \<open>i\<close> up to position \<open>j\<close>.\<close>

definition bits_between :: "u32 \<Rightarrow> nat \<Rightarrow> nat \<Rightarrow> bool list" where
  "bits_between a i j = map (\<lambda>k. bit a (31 - k)) [i..<j]"

lemma bits_between_Cons: "i < j \<Longrightarrow> bits_between a i j = bit a (31 - i) # bits_between a (Suc i) j"
  by (simp add: bits_between_def upt_conv_Cons)

lemma bits_between_0: "bits_between a 0 n = prefix_bits a n"
  by (simp add: bits_between_def prefix_bits_def)

lemma leaf_at_new [simp]: "leaf_at new_Internal bs = NH_INVALID"
  by (cases bs) (auto simp: new_Internal_def)

lemma leaf_at_Nil: "leaf_at t [] = leaf t"
  by (cases t) simp

lemma depth_le_new [simp]: "depth_le n new_Internal"
  by (cases n) (auto simp: new_Internal_def)

lemma leaf_at_insert:
  "level + n \<le> 32 \<Longrightarrow>
     leaf_at (trie_insert ub b level n ix t) bs =
       (if bs = bits_between b level (level + n) then ix else leaf_at t bs)"
proof (induction ub b level n ix t arbitrary: bs rule: trie_insert.induct)
  case (1 ub b level ix l r lf)
  then show ?case by (cases bs) (auto simp: bits_between_def)
next
  case (2 ub b level n ix l r lf)
  then have ext: "extractBit ub b level = of_bool (bit b (31 - level))" by (simp add: extractBit_bit)
  show ?case
  proof (cases bs)
    case Nil
    then show ?thesis by (simp add: Let_def bits_between_Cons)
  next
    case (Cons x xs)
    with 2 ext show ?thesis
      by (cases "bit b (31 - level)") (auto simp: Let_def bits_between_Cons split: option.splits)
  qed
qed

lemma depth_le_insert:
  "n \<le> d \<Longrightarrow> depth_le d t \<Longrightarrow> depth_le d (trie_insert ub b level n ix t)"
proof (induction ub b level n ix t arbitrary: d rule: trie_insert.induct)
  case (1 ub b level ix l r lf)
  then show ?case by (cases d) auto
next
  case (2 ub b level n ix l r lf)
  then show ?case by (cases d) (auto simp: Let_def split: option.splits)
qed

section \<open>The lookup follows the address\<close>

text \<open>The reference walk over a bit sequence that the lookup is compared with.\<close>

fun best_leaf :: "trie \<Rightarrow> bool list \<Rightarrow> nh_index \<Rightarrow> nh_index" where
  "best_leaf t [] acc = acc"
| "best_leaf (Internal l r lf) (b # bs) acc =
     (case (if b then r else l) of
        None \<Rightarrow> acc
      | Some t \<Rightarrow> best_leaf t bs (if leaf t \<noteq> NH_INVALID then leaf t else acc))"

lemma route_from_best_leaf:
  "pos \<le> 32 \<Longrightarrow> depth_le (32 - pos) t \<Longrightarrow>
     route_from ub addr pos t acc = best_leaf t (bits_between addr pos 32) acc"
proof (induction ub addr pos t acc rule: route_from.induct)
  case (1 ub addr pos l r lf acc)
  show ?case
  proof (cases "pos = 32")
    case True
    with "1.prems" have "l = None" "r = None" by auto
    with True show ?thesis by (simp add: bits_between_def)
  next
    case False
    with "1.prems"(1) have pos: "pos < 32" "32 - pos = Suc (32 - Suc pos)" by auto
    have ext: "extractBit ub addr pos = of_bool (bit addr (31 - pos))"
      using pos(1) by (simp add: extractBit_bit)
    let ?next = "if bit addr (31 - pos) then r else l"
    show ?thesis
    proof (cases ?next)
      case None
      with ext pos(1) show ?thesis by (auto simp: bits_between_Cons split: if_splits)
    next
      case (Some t)
      with "1.prems"(2) pos have "depth_le (32 - Suc pos) t" by (auto split: if_splits)
      with "1.IH" [of t] Some ext pos(1) show ?thesis by (auto simp: bits_between_Cons split: if_splits)
    qed
  qed
qed

lemma best_leaf_miss:
  "(\<And>j. 0 < j \<Longrightarrow> j \<le> length bs \<Longrightarrow> leaf_at t (take j bs) = NH_INVALID) \<Longrightarrow> best_leaf t bs acc = acc"
proof (induction t bs acc rule: best_leaf.induct)
  case (1 t acc)
  then show ?case by simp
next
  case (2 l r lf b bs acc)
  show ?case
  proof (cases "if b then r else l")
    case None
    then show ?thesis by simp
  next
    case (Some t)
    have "leaf_at t (take j bs) = NH_INVALID" if "j \<le> length bs" for j
      using "2.prems" [of "Suc j"] that Some by simp
    with "2.IH" [OF Some] this [of 0] Some show ?thesis by (simp add: leaf_at_Nil)
  qed
qed

lemma best_leaf_hit:
  assumes "0 < k" "k \<le> length bs" "leaf_at t (take k bs) = ix" "ix \<noteq> NH_INVALID"
    and "\<And>j. k < j \<Longrightarrow> j \<le> length bs \<Longrightarrow> leaf_at t (take j bs) = NH_INVALID"
  shows "best_leaf t bs acc = ix"
  using assms
proof (induction t bs acc arbitrary: k rule: best_leaf.induct)
  case (1 t acc)
  then show ?case by simp
next
  case (2 l r lf b bs acc)
  obtain k' where k: "k = Suc k'" using "2.prems"(1) by (cases k) auto
  with "2.prems"(3,4) obtain t where t: "(if b then r else l) = Some t" "leaf_at t (take k' bs) = ix"
    by (auto split: option.splits)
  have later: "leaf_at t (take j bs) = NH_INVALID" if "k' < j" "j \<le> length bs" for j
    using "2.prems"(5) [of "Suc j"] that k t(1) by simp
  show ?case
  proof (cases "k' = 0")
    case True
    with t "2.prems"(4) have "leaf t = ix" by (simp add: leaf_at_Nil)
    with t(1) True later "2.prems"(4) best_leaf_miss [of bs t ix] show ?thesis by simp
  next
    case False
    with "2.IH" [OF t(1) _ _ t(2) "2.prems"(4) later] "2.prems"(2) k t(1) show ?thesis by simp
  qed
qed

section \<open>The trie of a table\<close>

definition table_pairs :: "rib \<Rightarrow> (nat \<times> route) list" where
  "table_pairs es = concat (map (\<lambda>len. map (Pair len) (es ! len)) [0..<33])"

definition insert_pair :: "(u32 \<Rightarrow> nat \<Rightarrow> u32) \<Rightarrow> nat \<times> route \<Rightarrow> trie \<Rightarrow> trie" where
  "insert_pair ub p = trie_insert ub (base (snd p)) 0 (fst p) (index (snd p))"

lemma buildTrie_eq:
  assumes "33 \<le> length es"
  shows "buildTrie ub es = Inr (fold (insert_pair ub) (table_pairs es) new_Internal)"
proof -
  have "fold (insert_pair ub) (map (Pair len) b) = fold (\<lambda>r. trie_insert ub (base r) 0 len (index r)) b" for len b
    by (simp add: fold_map insert_pair_def comp_def)
  then show ?thesis
    using assms unfolding buildTrie_def table_pairs_def fold_concat_map
    by (subst foldE_fold [where g = "\<lambda>len. fold (\<lambda>r. trie_insert ub (base r) 0 len (index r)) (es ! len)"]) auto
qed

lemma depth_le_fold: "(\<And>p. p \<in> set ps \<Longrightarrow> fst p \<le> 32) \<Longrightarrow> depth_le 32 t \<Longrightarrow> depth_le 32 (fold (insert_pair ub) ps t)"
  by (induction ps arbitrary: t) (auto simp: insert_pair_def intro: depth_le_insert)

lemma leaf_at_fold_other:
  assumes "\<And>p. p \<in> set ps \<Longrightarrow> fst p \<le> 32 \<and> prefix_bits (base (snd p)) (fst p) \<noteq> bs"
  shows "leaf_at (fold (insert_pair ub) ps t) bs = leaf_at t bs"
  using assms
proof (induction ps arbitrary: t)
  case Nil
  then show ?case by simp
next
  case (Cons p ps)
  have "leaf_at (insert_pair ub p t) bs = leaf_at t bs"
    using Cons.prems [of p] by (auto simp: insert_pair_def leaf_at_insert bits_between_0)
  with Cons show ?case by simp
qed

lemma leaf_at_fold_hit:
  assumes "p \<in> set ps" "prefix_bits (base (snd p)) (fst p) = bs"
    and "\<And>q. q \<in> set ps \<Longrightarrow> fst q \<le> 32"
    and "\<And>q. q \<in> set ps \<Longrightarrow> prefix_bits (base (snd q)) (fst q) = bs \<Longrightarrow> q = p"
  shows "leaf_at (fold (insert_pair ub) ps t) bs = index (snd p)"
  using assms
proof (induction ps arbitrary: t)
  case Nil
  then show ?case by simp
next
  case (Cons q ps)
  show ?case
  proof (cases "p \<in> set ps")
    case True
    have "leaf_at (fold (insert_pair ub) ps (insert_pair ub q t)) bs = index (snd p)"
      by (rule Cons.IH [OF True Cons.prems(2)], rule Cons.prems(3), simp, rule Cons.prems(4)) simp_all
    then show ?thesis by simp
  next
    case False
    with Cons.prems(1) have q: "q = p" by simp
    have "leaf_at (insert_pair ub p t) bs = index (snd p)"
      using Cons.prems(2,3) q by (auto simp: insert_pair_def leaf_at_insert bits_between_0)
    moreover have "fst x \<le> 32 \<and> prefix_bits (base (snd x)) (fst x) \<noteq> bs" if "x \<in> set ps" for x
      using Cons.prems(3) [of x] Cons.prems(4) [of x] that False by auto
    ultimately show ?thesis using leaf_at_fold_other [of ps bs] q by simp
  qed
qed

text \<open>What the trie of a well-formed table holds at the leading bits of an address.\<close>

lemma table_pairs_iff:
  assumes "wf_rib es"
  shows "(len, r) \<in> set (table_pairs es) \<longleftrightarrow> r \<in> routes es \<and> len = plen r"
proof
  assume "(len, r) \<in> set (table_pairs es)"
  then have "len < 33" "r \<in> set (es ! len)" by (auto simp: table_pairs_def)
  with assms wf_bucket_route [of len "es ! len" r] show "r \<in> routes es \<and> len = plen r"
    by (auto simp: wf_rib_def routes_iff)
next
  assume "r \<in> routes es \<and> len = plen r"
  with wf_rib_routes [OF assms, of r] show "(len, r) \<in> set (table_pairs es)"
    by (auto simp: table_pairs_def)
qed

lemma trie_leaf_hit:
  assumes "wf_rib es" "buildTrie ub es = Inr t" "r \<in> routes es" "covers r addr"
  shows "leaf_at t (prefix_bits addr (plen r)) = index r"
proof -
  have t: "t = fold (insert_pair ub) (table_pairs es) new_Internal"
    using assms(1,2) buildTrie_eq [of es ub] by (simp add: wf_rib_def)
  have bs: "prefix_bits (base r) (plen r) = prefix_bits addr (plen r)"
    using assms wf_rib_routes(1) [OF assms(1,3)] by (simp add: covers_prefix_bits wf_route_def)
  have "leaf_at t (prefix_bits addr (plen r)) = index (snd (plen r, r))"
    unfolding t
  proof (rule leaf_at_fold_hit)
    show "(plen r, r) \<in> set (table_pairs es)" using assms(3) table_pairs_iff [OF assms(1)] by simp
    show "prefix_bits (base (snd (plen r, r))) (fst (plen r, r)) = prefix_bits addr (plen r)" using bs by simp
  next
    fix q assume q: "q \<in> set (table_pairs es)"
    then have qr: "snd q \<in> routes es" "fst q = plen (snd q)" using table_pairs_iff [OF assms(1), of "fst q" "snd q"] by auto
    note wq = wf_rib_routes(1) [OF assms(1) qr(1)]
    show "fst q \<le> 32" using wq qr(2) by (simp add: wf_route_def)
    assume eq: "prefix_bits (base (snd q)) (fst q) = prefix_bits addr (plen r)"
    then have len: "plen (snd q) = plen r" using qr(2) by (metis length_prefix_bits)
    have "covers (snd q) addr" using eq len qr(2) wq by (simp add: covers_prefix_bits wf_route_def)
    then have "base (snd q) = base r"
      using covers_same_prefix [OF wq wf_rib_routes(1) [OF assms(1,3)] len] assms(4) by simp
    then have "snd q = r" using wf_rib_unique [OF assms(1) qr(1) assms(3) len] by simp
    then show "q = (plen r, r)" using qr(2) by (metis prod.collapse)
  qed
  then show ?thesis by simp
qed

lemma trie_leaf_miss:
  assumes "wf_rib es" "buildTrie ub es = Inr t" "n \<le> 32"
    and "\<And>r. r \<in> routes es \<Longrightarrow> plen r = n \<Longrightarrow> \<not> covers r addr"
  shows "leaf_at t (prefix_bits addr n) = NH_INVALID"
proof -
  have t: "t = fold (insert_pair ub) (table_pairs es) new_Internal"
    using assms(1,2) buildTrie_eq [of es ub] by (simp add: wf_rib_def)
  have "fst q \<le> 32 \<and> prefix_bits (base (snd q)) (fst q) \<noteq> prefix_bits addr n"
    if "q \<in> set (table_pairs es)" for q
  proof -
    have qr: "snd q \<in> routes es" "fst q = plen (snd q)"
      using that table_pairs_iff [OF assms(1), of "fst q" "snd q"] by auto
    have wq: "plen (snd q) \<le> 32" using wf_rib_routes(1) [OF assms(1) qr(1)] by (simp add: wf_route_def)
    have "plen (snd q) = n \<Longrightarrow> prefix_bits (base (snd q)) n \<noteq> prefix_bits addr n"
      using assms(3,4) qr(1) by (auto simp: covers_prefix_bits)
    then show ?thesis using qr(2) wq by (metis length_prefix_bits)
  qed
  then show ?thesis unfolding t by (simp add: leaf_at_fold_other)
qed

lemma trie_depth: "wf_rib es \<Longrightarrow> buildTrie ub es = Inr t \<Longrightarrow> depth_le 32 t"
  using buildTrie_eq [of es ub] by (auto simp: wf_rib_def table_pairs_def intro!: depth_le_fold)

lemma trie_route_best_leaf:
  assumes "wf_rib es" "buildTrie ub es = Inr t"
  shows "trie_route ub' t addr = best_leaf t (prefix_bits addr 32) (leaf t)"
  using route_from_best_leaf [of 0 t ub' addr] trie_depth [OF assms] by (simp add: trie_route_def bits_between_0)

text \<open>
  The general form of the lookup theorem: the trie performs longest-prefix matching among the
  numbered routes; a route whose index is \<^verbatim>\<open>NH_INVALID\<close> is transparent.
\<close>

definition numbered_routes :: "rib \<Rightarrow> route set" where
  "numbered_routes es = {r \<in> routes es. index r \<noteq> NH_INVALID}"

lemma trie_leaf_unnumbered:
  assumes "wf_rib es" "buildTrie ub es = Inr t" "n \<le> 32"
    and "\<And>r. r \<in> numbered_routes es \<Longrightarrow> plen r = n \<Longrightarrow> \<not> covers r addr"
  shows "leaf_at t (prefix_bits addr n) = NH_INVALID"
proof (cases "\<exists>r \<in> routes es. plen r = n \<and> covers r addr")
  case True
  then obtain r where r: "r \<in> routes es" "plen r = n" "covers r addr" by blast
  then have "index r = NH_INVALID" using assms(4) by (auto simp: numbered_routes_def)
  with trie_leaf_hit [OF assms(1,2) r(1,3)] r(2) show ?thesis by simp
next
  case False
  with trie_leaf_miss [OF assms(1-3)] show ?thesis by blast
qed

lemma trie_route_hit:
  assumes "wf_rib es" "buildTrie ub es = Inr t" "is_best (numbered_routes es) addr r"
  shows "trie_route ub' t addr = index r"
proof -
  have r: "r \<in> routes es" "index r \<noteq> NH_INVALID" "covers r addr"
    using assms(3) by (auto simp: is_best_def numbered_routes_def)
  have len: "plen r \<le> 32" using wf_rib_routes(1) [OF assms(1) r(1)] by (simp add: wf_route_def)
  have hit: "leaf_at t (take (plen r) (prefix_bits addr 32)) = index r"
    using trie_leaf_hit [OF assms(1,2) r(1,3)] len by simp
  have later: "leaf_at t (take j (prefix_bits addr 32)) = NH_INVALID"
    if "plen r < j" "j \<le> length (prefix_bits addr 32)" for j
    using trie_leaf_unnumbered [OF assms(1,2), of j addr] that assms(3) by (fastforce simp: is_best_def)
  show ?thesis
  proof (cases "plen r = 0")
    case True
    with hit have "leaf t = index r" by (simp add: leaf_at_Nil prefix_bits_def)
    with True later best_leaf_miss [of "prefix_bits addr 32" t] show ?thesis
      by (simp add: trie_route_best_leaf [OF assms(1,2)])
  next
    case False
    with best_leaf_hit [OF _ _ hit r(2) later] len show ?thesis
      by (simp add: trie_route_best_leaf [OF assms(1,2)])
  qed
qed

lemma trie_route_miss:
  assumes "wf_rib es" "buildTrie ub es = Inr t" "\<And>r. r \<in> numbered_routes es \<Longrightarrow> \<not> covers r addr"
  shows "trie_route ub' t addr = NH_INVALID"
proof -
  have none: "leaf_at t (prefix_bits addr n) = NH_INVALID" if "n \<le> 32" for n
    using trie_leaf_unnumbered [OF assms(1,2) that] assms(3) by blast
  have "leaf t = NH_INVALID" using none [of 0] by (simp add: prefix_bits_def leaf_at_Nil)
  then show ?thesis
    using best_leaf_miss [of "prefix_bits addr 32" t] none by (simp add: trie_route_best_leaf [OF assms(1,2)])
qed

lemma numbered_routes_ready: "lpm_ready es \<Longrightarrow> numbered_routes es = routes es"
  by (auto simp: numbered_routes_def lpm_ready_def)

interpretation bt: lpm_impl "buildTrie ub" "\<lambda>t a. Inr (trie_route ub t a)" for ub
proof (unfold_locales, goal_cases)
  case (1 es)
  then show ?case using buildTrie_eq [of es ub] by (simp add: lpm_ready_def wf_rib_def)
next
  case (2 es l addr r)
  then show ?case using trie_route_hit [of es ub l addr r ub]
    by (simp add: lpm_ready_def numbered_routes_ready)
next
  case (3 es l addr)
  then show ?case using trie_route_miss [of es ub l addr ub]
    by (simp add: lpm_ready_def numbered_routes_ready)
qed

interpretation np: lpm_pair "\<lambda>es. Inr (Naive es)" naive_route "buildTrie ub" "\<lambda>t a. Inr (trie_route ub t a)" for ub
  by unfold_locales

section \<open>Properties\<close>

text \<open>
  The sample table with indices as the numbering leaves them, for the concrete instances.
\<close>

definition test_numbered :: rib where
  "test_numbered = map (map (\<lambda>r. r\<lparr>index :=
     (if next_hop r = 0 then direct_index (test_heap (the (interface r))) else ucast (next_hop r AND 0xF))\<rparr>)) test_rib"

lemma ready_test_numbered: "lpm_ready test_numbered"
  unfolding lpm_ready_def
proof
  show "wf_rib test_numbered" by code_simp
  have "list_all (\<lambda>r. index r \<noteq> NH_INVALID) (concat test_numbered)" by code_simp
  then show "\<forall>r \<in> routes test_numbered. index r \<noteq> NH_INVALID" by (simp add: routes_def list_all_iff)
qed

definition test_best :: route where
  "test_best = (test_route 0x10000000 0x0A000102 16 1)\<lparr>index := 2\<rparr>"

lemma test_best: "is_best (routes test_numbered) 0x10000040 test_best"
  by code_simp

lemma test_best_index: "index test_best = 2"
  by (simp add: test_best_def)

lemma test_best_numbered: "is_best (numbered_routes test_numbered) 0x10000040 test_best"
  using test_best ready_test_numbered by (simp add: numbered_routes_ready)

text \<open>
  C1: the trie built from a well-formed table answers every address with the index of the longest
  covering prefix among the numbered routes, and with \<^verbatim>\<open>NH_INVALID\<close> if there is none, whatever
  the machine yields for the out-of-range bit that the walk extracts below a host route.
\<close>

theorem trie_longest_prefix:
  assumes "wf_rib es"
  shows "\<exists>t. buildTrie ub es = Inr t \<and>
    (\<forall>ub' addr r. is_best (numbered_routes es) addr r \<longrightarrow> trie_route ub' t addr = index r) \<and>
    (\<forall>ub' addr. (\<forall>r \<in> numbered_routes es. \<not> covers r addr) \<longrightarrow> trie_route ub' t addr = NH_INVALID)"
proof -
  obtain t where t: "buildTrie ub es = Inr t" using assms buildTrie_eq [of es ub] by (simp add: wf_rib_def)
  then show ?thesis using trie_route_hit [OF assms t] trie_route_miss [OF assms t] by blast
qed

theorem trie_longest_prefix_witness:
  "wf_rib test_numbered \<and> (\<exists>t. buildTrie (\<lambda>_ _. 0) test_numbered = Inr t \<and>
     trie_route (\<lambda>_ _. 0) t 0x10000040 = index test_best \<and> trie_route (\<lambda>_ _. 1) t 0x10000040 = 2)"
proof -
  have wf: "wf_rib test_numbered" using ready_test_numbered by (simp add: lpm_ready_def)
  show ?thesis
    using trie_longest_prefix [OF wf, of "\<lambda>_ _. 0"] wf test_best_numbered test_best_index by fastforce
qed

text \<open>
  C35: the walk over all routes returns the index of the longest covering prefix of a numbered
  well-formed table, and \<^verbatim>\<open>NH_INVALID\<close> exactly for the addresses no route covers.
\<close>

theorem naive_longest_prefix:
  assumes "lpm_ready es"
  shows "(\<forall>addr r. is_best (routes es) addr r \<longrightarrow> naive_route (Naive es) addr = Inr (index r)) \<and>
    (\<forall>addr. naive_route (Naive es) addr = Inr NH_INVALID \<longleftrightarrow> (\<forall>r \<in> routes es. \<not> covers r addr))"
  using nv.hit [OF assms refl] nv.lookup_invalid_iff [OF assms refl] by blast

theorem naive_longest_prefix_witness:
  "lpm_ready test_numbered \<and> naive_route (Naive test_numbered) 0x10000040 = Inr 2"
  using naive_longest_prefix [OF ready_test_numbered] ready_test_numbered test_best test_best_index by metis

end
