(* ===== verification/Headers.thy ===== *)
theory Headers
  imports Interface
begin

text \<open>
  \<^verbatim>\<open>include/headers.hpp\<close>: the packed protocol headers the router overlays on its packet buffers
  with \<^verbatim>\<open>reinterpret_cast\<close>. Memory is a function from addresses to bytes; scalars are stored
  little-endian, as on the machines the router runs on. Every header struct is a record with a
  load and a store; an assignment through a header pointer is a store of the updated record. The
  locale \<open>packed\<close> states what such a pair has to satisfy and every struct interprets it.
\<close>

type_synonym mem = "nat \<Rightarrow> u8"
type_synonym addr = nat

section \<open>Scalars in memory\<close>

definition rd8 :: "mem \<Rightarrow> addr \<Rightarrow> u8" where
  "rd8 m a = m a"

definition wr8 :: "addr \<Rightarrow> u8 \<Rightarrow> mem \<Rightarrow> mem" where
  "wr8 a v m = m(a := v)"

definition rd16 :: "mem \<Rightarrow> addr \<Rightarrow> u16" where
  "rd16 m a = ucast (m a) OR push_bit 8 (ucast (m (a + 1)))"

definition wr16 :: "addr \<Rightarrow> u16 \<Rightarrow> mem \<Rightarrow> mem" where
  "wr16 a v m = m(a := ucast v, a + 1 := ucast (drop_bit 8 v))"

definition rd32 :: "mem \<Rightarrow> addr \<Rightarrow> u32" where
  "rd32 m a = ucast (m a) OR push_bit 8 (ucast (m (a + 1))) OR push_bit 16 (ucast (m (a + 2))) OR
     push_bit 24 (ucast (m (a + 3)))"

definition wr32 :: "addr \<Rightarrow> u32 \<Rightarrow> mem \<Rightarrow> mem" where
  "wr32 a v m = m(a := ucast v, a + 1 := ucast (drop_bit 8 v), a + 2 := ucast (drop_bit 16 v),
     a + 3 := ucast (drop_bit 24 v))"

definition rd_mac :: "mem \<Rightarrow> addr \<Rightarrow> mac" where
  "rd_mac m a = Mac (m a) (m (a + 1)) (m (a + 2)) (m (a + 3)) (m (a + 4)) (m (a + 5))"

fun wr_mac :: "addr \<Rightarrow> mac \<Rightarrow> mem \<Rightarrow> mem" where
  "wr_mac a (Mac b0 b1 b2 b3 b4 b5) m =
     m(a := b0, a + 1 := b1, a + 2 := b2, a + 3 := b3, a + 4 := b4, a + 5 := b5)"

section \<open>What a packed object promises\<close>

definition same_bytes :: "nat \<Rightarrow> mem \<Rightarrow> addr \<Rightarrow> mem \<Rightarrow> addr \<Rightarrow> bool" where
  "same_bytes n m p m' p' \<longleftrightarrow> (\<forall>i<n. m (p + i) = m' (p' + i))"

locale packed =
  fixes size :: nat and load :: "mem \<Rightarrow> addr \<Rightarrow> 'h" and store :: "addr \<Rightarrow> 'h \<Rightarrow> mem \<Rightarrow> mem"
  assumes load_store: "load (store p h m) p = h"
    and store_load: "store p (load m p) m = m"
    and store_inside: "p \<le> a \<Longrightarrow> a < p + size \<Longrightarrow> store p h m a = store p h m' a"
    and store_outside: "a < p \<or> p + size \<le> a \<Longrightarrow> store p h m a = m a"
    and load_cong: "(\<And>i. i < size \<Longrightarrow> m (p + i) = m' (p' + i)) \<Longrightarrow> load m p = load m' p'"
begin

lemma store_store: "store p h (store p h' m) = store p h m"
proof
  fix a show "store p h (store p h' m) a = store p h m a"
  proof (cases "p \<le> a \<and> a < p + size")
    case True
    then show ?thesis by (intro store_inside) simp_all
  next
    case False
    then show ?thesis by (simp add: not_le not_less store_outside)
  qed
qed

lemma load_unchanged:
  assumes "\<And>a. p \<le> a \<Longrightarrow> a < p + size \<Longrightarrow> m' a = m a"
  shows "load m' p = load m p"
  using assms by (intro load_cong) simp

lemma load_shift:
  assumes "same_bytes n m p m' p'" "off + size \<le> n"
  shows "load m (p + off) = load m' (p' + off)"
  using assms by (intro load_cong) (simp add: add.assoc same_bytes_def)

lemma store_redundant: "load m p = h \<Longrightarrow> store p h m = m"
  using store_load by blast

lemma store_agree:
  assumes "a < p \<or> p + size \<le> a \<Longrightarrow> m a = m' a"
  shows "store p h m a = store p h m' a"
  using assms store_inside [of p a h m m'] store_outside [of a p h] by (metis not_le_imp_less)

text \<open>A sequence of assignments to fields of one struct is one store of the updated struct.\<close>

lemma store_update: "store p (f (load (store p h m) p)) (store p h m) = store p (f h) m"
  by (simp add: load_store store_store)

end

text \<open>Two objects at disjoint addresses do not disturb each other.\<close>

locale packed_pair = A: packed sizeA loadA storeA + B: packed sizeB loadB storeB
  for sizeA :: nat and loadA :: "mem \<Rightarrow> addr \<Rightarrow> 'a" and storeA
    and sizeB :: nat and loadB :: "mem \<Rightarrow> addr \<Rightarrow> 'b" and storeB
begin

lemma load_disjoint:
  assumes "a + sizeA \<le> b \<or> b + sizeB \<le> a"
  shows "loadA (storeB b h m) a = loadA m a"
  using assms by (intro A.load_unchanged B.store_outside) auto

lemma load_disjoint':
  assumes "a + sizeA \<le> b \<or> b + sizeB \<le> a"
  shows "loadB (storeA a h m) b = loadB m b"
  using assms by (intro B.load_unchanged A.store_outside) auto

end

section \<open>The scalars keep the promise\<close>

lemma ucast_bits [simp]: "bit (ucast (x :: u8) :: 'a::len word) n \<longleftrightarrow> n < LENGTH('a) \<and> bit x n"
  by (simp add: bit_ucast_iff)

lemma bit_rd16: "bit (rd16 m a) n \<longleftrightarrow> (if n < 8 then bit (m a) n else n < 16 \<and> bit (m (a + 1)) (n - 8))"
  by (auto simp: rd16_def bit_or_iff bit_push_bit_iff bit_ucast_iff dest: bit_imp_le_length)

lemma bit_rd32: "bit (rd32 m a) n \<longleftrightarrow>
   (if n < 8 then bit (m a) n else if n < 16 then bit (m (a + 1)) (n - 8)
    else if n < 24 then bit (m (a + 2)) (n - 16) else n < 32 \<and> bit (m (a + 3)) (n - 24))"
  by (auto simp: rd32_def bit_or_iff bit_push_bit_iff bit_ucast_iff dest: bit_imp_le_length)

lemma ucast_byte0_bits: "bit (ucast x :: u8) n \<longleftrightarrow> n < 8 \<and> bit (x :: 'a::len word) n"
  by (simp add: bit_ucast_iff)

interpretation f8: packed 1 rd8 wr8
  by unfold_locales (auto simp: rd8_def wr8_def)

interpretation f16: packed 2 rd16 wr16
proof (unfold_locales, goal_cases)
  case (1 p h m)
  show ?case by (rule bit_word_eqI) (auto simp: bit_rd16 ucast_byte0_bits bit_drop_bit_eq wr16_def)
next
  case (2 p m)
  have "ucast (rd16 m p) = m p" "ucast (drop_bit 8 (rd16 m p)) = m (p + 1)"
    by (rule bit_word_eqI, auto simp: bit_rd16 bit_rd32 ucast_byte0_bits bit_drop_bit_eq)+
  then show ?case by (auto simp: wr16_def)
next
  case (5 m p m' p')
  from 5 [of 0] 5 [of 1] show ?case by (simp add: rd16_def)
qed (auto simp: wr16_def)

interpretation f32: packed 4 rd32 wr32
proof (unfold_locales, goal_cases)
  case (1 p h m)
  show ?case by (rule bit_word_eqI) (auto simp: bit_rd32 ucast_byte0_bits bit_drop_bit_eq wr32_def)
next
  case (2 p m)
  have "ucast (rd32 m p) = m p" "ucast (drop_bit 8 (rd32 m p)) = m (p + 1)"
    "ucast (drop_bit 16 (rd32 m p)) = m (p + 2)" "ucast (drop_bit 24 (rd32 m p)) = m (p + 3)"
    by (rule bit_word_eqI, auto simp: bit_rd16 bit_rd32 ucast_byte0_bits bit_drop_bit_eq)+
  then show ?case by (auto simp: wr32_def)
next
  case (5 m p m' p')
  from 5 [of 0] 5 [of 1] 5 [of 2] 5 [of 3] show ?case by (simp add: rd32_def)
qed (auto simp: wr32_def)

interpretation fmac: packed 6 rd_mac wr_mac
proof (unfold_locales, goal_cases)
  case (1 p h m)
  show ?case by (cases h) (simp add: rd_mac_def)
next
  case (3 p a h m m')
  then show ?case by (cases h) auto
next
  case (4 a p h m)
  then show ?case by (cases h) auto
next
  case (5 m p m' p')
  from 5 [of 0] 5 [of 1] 5 [of 2] 5 [of 3] 5 [of 4] 5 [of 5] show ?case by (simp add: rd_mac_def)
qed (simp add: rd_mac_def)

interpretation p8_16: packed_pair 1 rd8 wr8 2 rd16 wr16 by unfold_locales
interpretation p8_32: packed_pair 1 rd8 wr8 4 rd32 wr32 by unfold_locales
interpretation p16_32: packed_pair 2 rd16 wr16 4 rd32 wr32 by unfold_locales
interpretation p16_mac: packed_pair 2 rd16 wr16 6 rd_mac wr_mac by unfold_locales
interpretation p8_mac: packed_pair 1 rd8 wr8 6 rd_mac wr_mac by unfold_locales
interpretation p32_mac: packed_pair 4 rd32 wr32 6 rd_mac wr_mac by unfold_locales
interpretation p8_8: packed_pair 1 rd8 wr8 1 rd8 wr8 by unfold_locales
interpretation p16_16: packed_pair 2 rd16 wr16 2 rd16 wr16 by unfold_locales
interpretation p32_32: packed_pair 4 rd32 wr32 4 rd32 wr32 by unfold_locales
interpretation pmac_mac: packed_pair 6 rd_mac wr_mac 6 rd_mac wr_mac by unfold_locales

text \<open>The rules that read a scalar back through a chain of stores.\<close>

lemmas scalar_simps =
  f8.load_store f16.load_store f32.load_store fmac.load_store
  f8.store_load f16.store_load f32.store_load fmac.store_load
  p8_8.load_disjoint p16_16.load_disjoint p32_32.load_disjoint pmac_mac.load_disjoint
  p8_16.load_disjoint p8_16.load_disjoint' p8_32.load_disjoint p8_32.load_disjoint'
  p16_32.load_disjoint p16_32.load_disjoint' p16_mac.load_disjoint p16_mac.load_disjoint'
  p8_mac.load_disjoint p8_mac.load_disjoint' p32_mac.load_disjoint p32_mac.load_disjoint'

lemmas scalar_outside = f8.store_outside f16.store_outside f32.store_outside fmac.store_outside
lemmas scalar_redundant = f8.store_redundant f16.store_redundant f32.store_redundant fmac.store_redundant
lemmas scalar_agree = f8.store_agree f16.store_agree f32.store_agree fmac.store_agree

section \<open>The header structs\<close>

record ether =
  d_mac :: mac
  s_mac :: mac
  ethertype :: u16

record ipv4 =
  version_ihl :: u8
  tos :: u8
  total_length :: u16
  ip_id :: u16
  flags_fragmentation :: u16
  ttl :: u8
  proto :: u8
  checksum :: u16
  s_ip :: u32
  d_ip :: u32

definition version :: "ipv4 \<Rightarrow> u8" where
  "version h = drop_bit 4 (version_ihl h AND 0xF0)"

definition ihl :: "ipv4 \<Rightarrow> u8" where
  "ihl h = version_ihl h AND 0x0F"

definition fragmentation :: "ipv4 \<Rightarrow> u16" where
  "fragmentation h = flags_fragmentation h AND 0x1FFF"

definition flags :: "ipv4 \<Rightarrow> u16" where
  "flags h = drop_bit 18 (flags_fragmentation h)"

definition PROTO_ICMP :: u8 where "PROTO_ICMP = 1"
definition PROTO_TCP :: u8 where "PROTO_TCP = 6"
definition PROTO_UDP :: u8 where "PROTO_UDP = 17"

record arp =
  hw_type :: u16
  proto_type :: u16
  hw_len :: u8
  proto_len :: u8
  op :: u16
  s_hw_addr :: mac
  s_proto_addr :: u32
  t_hw_addr :: mac
  t_proto_addr :: u32

definition OP_REQUEST :: u8 where "OP_REQUEST = 1"
definition OP_REPLY :: u8 where "OP_REPLY = 2"

record tcp =
  tcp_s_port :: u16
  tcp_d_port :: u16
  seq :: u32
  ack :: u32
  offset_flags :: u16
  window :: u16
  tcp_checksum :: u16
  urgend_ptr :: u16

record udp =
  udp_s_port :: u16
  udp_d_port :: u16
  udp_len :: u16
  udp_checksum :: u16

record icmp =
  icmp_type :: u8
  icmp_code :: u8
  icmp_checksum :: u16

section \<open>Overlaying the structs on memory\<close>

definition sizeof_ether :: nat where "sizeof_ether = 14"
definition sizeof_ipv4 :: nat where "sizeof_ipv4 = 20"
definition sizeof_arp :: nat where "sizeof_arp = 28"

definition load_ether :: "mem \<Rightarrow> addr \<Rightarrow> ether" where
  "load_ether m p = \<lparr>d_mac = rd_mac m p, s_mac = rd_mac m (p + 6), ethertype = rd16 m (p + 12)\<rparr>"

definition store_ether :: "addr \<Rightarrow> ether \<Rightarrow> mem \<Rightarrow> mem" where
  "store_ether p h m = wr_mac p (d_mac h) (wr_mac (p + 6) (s_mac h) (wr16 (p + 12) (ethertype h) m))"

definition load_ipv4 :: "mem \<Rightarrow> addr \<Rightarrow> ipv4" where
  "load_ipv4 m p = \<lparr>version_ihl = rd8 m p, tos = rd8 m (p + 1), total_length = rd16 m (p + 2),
     ip_id = rd16 m (p + 4), flags_fragmentation = rd16 m (p + 6), ttl = rd8 m (p + 8),
     proto = rd8 m (p + 9), checksum = rd16 m (p + 10), s_ip = rd32 m (p + 12), d_ip = rd32 m (p + 16)\<rparr>"

definition store_ipv4 :: "addr \<Rightarrow> ipv4 \<Rightarrow> mem \<Rightarrow> mem" where
  "store_ipv4 p h m = wr8 p (version_ihl h) (wr8 (p + 1) (tos h) (wr16 (p + 2) (total_length h)
     (wr16 (p + 4) (ip_id h) (wr16 (p + 6) (flags_fragmentation h) (wr8 (p + 8) (ttl h)
     (wr8 (p + 9) (proto h) (wr16 (p + 10) (checksum h) (wr32 (p + 12) (s_ip h)
     (wr32 (p + 16) (d_ip h) m)))))))))"

definition load_arp :: "mem \<Rightarrow> addr \<Rightarrow> arp" where
  "load_arp m p = \<lparr>hw_type = rd16 m p, proto_type = rd16 m (p + 2), hw_len = rd8 m (p + 4),
     proto_len = rd8 m (p + 5), op = rd16 m (p + 6), s_hw_addr = rd_mac m (p + 8),
     s_proto_addr = rd32 m (p + 14), t_hw_addr = rd_mac m (p + 18), t_proto_addr = rd32 m (p + 24)\<rparr>"

definition store_arp :: "addr \<Rightarrow> arp \<Rightarrow> mem \<Rightarrow> mem" where
  "store_arp p h m = wr16 p (hw_type h) (wr16 (p + 2) (proto_type h) (wr8 (p + 4) (hw_len h)
     (wr8 (p + 5) (proto_len h) (wr16 (p + 6) (op h) (wr_mac (p + 8) (s_hw_addr h)
     (wr32 (p + 14) (s_proto_addr h) (wr_mac (p + 18) (t_hw_addr h) (wr32 (p + 24) (t_proto_addr h) m))))))))"

definition load_tcp :: "mem \<Rightarrow> addr \<Rightarrow> tcp" where
  "load_tcp m p = \<lparr>tcp_s_port = rd16 m p, tcp_d_port = rd16 m (p + 2), seq = rd32 m (p + 4),
     ack = rd32 m (p + 8), offset_flags = rd16 m (p + 12), window = rd16 m (p + 14),
     tcp_checksum = rd16 m (p + 16), urgend_ptr = rd16 m (p + 18)\<rparr>"

definition load_udp :: "mem \<Rightarrow> addr \<Rightarrow> udp" where
  "load_udp m p = \<lparr>udp_s_port = rd16 m p, udp_d_port = rd16 m (p + 2), udp_len = rd16 m (p + 4),
     udp_checksum = rd16 m (p + 6)\<rparr>"

definition load_icmp :: "mem \<Rightarrow> addr \<Rightarrow> icmp" where
  "load_icmp m p = \<lparr>icmp_type = rd8 m p, icmp_code = rd8 m (p + 1), icmp_checksum = rd16 m (p + 2)\<rparr>"

interpretation eth: packed sizeof_ether load_ether store_ether
proof (unfold_locales, goal_cases)
  case (5 m p m' p')
  have c: "same_bytes 14 m p m' p'" using 5 by (simp add: same_bytes_def sizeof_ether_def)
  show ?case using fmac.load_shift [OF c, of 0] by (simp add: load_ether_def fmac.load_shift [OF c] f16.load_shift [OF c])
next
  case (3 p a h m m')
  show ?case unfolding store_ether_def
    by (intro scalar_agree) (use 3 in \<open>auto simp: sizeof_ether_def\<close>)
next
  case (4 a p h m)
  then show ?case by (elim disjE) (simp_all add: sizeof_ether_def store_ether_def scalar_outside)
qed (simp_all add: load_ether_def store_ether_def scalar_simps)

interpretation ip: packed sizeof_ipv4 load_ipv4 store_ipv4
proof (unfold_locales, goal_cases)
  case (5 m p m' p')
  have c: "same_bytes 20 m p m' p'" using 5 by (simp add: same_bytes_def sizeof_ipv4_def)
  show ?case using f8.load_shift [OF c, of 0] f8.load_shift [OF c, of 1] f16.load_shift [OF c, of 2]
    by (simp add: load_ipv4_def f8.load_shift [OF c] f16.load_shift [OF c] f32.load_shift [OF c])
next
  case (3 p a h m m')
  show ?case unfolding store_ipv4_def
    by (intro scalar_agree) (use 3 in \<open>auto simp: sizeof_ipv4_def\<close>)
next
  case (4 a p h m)
  then show ?case by (elim disjE) (simp_all add: sizeof_ipv4_def store_ipv4_def scalar_outside)
qed (simp_all add: load_ipv4_def store_ipv4_def scalar_simps)

interpretation ar: packed sizeof_arp load_arp store_arp
proof (unfold_locales, goal_cases)
  case (5 m p m' p')
  have c: "same_bytes 28 m p m' p'" using 5 by (simp add: same_bytes_def sizeof_arp_def)
  show ?case using f16.load_shift [OF c, of 0] f16.load_shift [OF c, of 2]
    by (simp add: load_arp_def f8.load_shift [OF c] f16.load_shift [OF c] f32.load_shift [OF c]
      fmac.load_shift [OF c])
next
  case (3 p a h m m')
  show ?case unfolding store_arp_def
    by (intro scalar_agree) (use 3 in \<open>auto simp: sizeof_arp_def\<close>)
next
  case (4 a p h m)
  then show ?case by (elim disjE) (simp_all add: sizeof_arp_def store_arp_def scalar_outside)
qed (simp_all add: load_arp_def store_arp_def scalar_simps)

interpretation eth_ip: packed_pair sizeof_ether load_ether store_ether sizeof_ipv4 load_ipv4 store_ipv4
  by unfold_locales

interpretation eth_arp: packed_pair sizeof_ether load_ether store_ether sizeof_arp load_arp store_arp
  by unfold_locales

end
