(* ===== verification/Frame.thy ===== *)
theory Frame
  imports Headers
begin

text \<open>
  \<^verbatim>\<open>include/frame.hpp\<close> and \<^verbatim>\<open>src/frame.cpp\<close>: the descriptor of one ethernet frame that travels
  between the manager and the workers, the flags the workers leave in its interface field, and the
  hash of a frame.
\<close>

section \<open>Definitions\<close>

record frame =
  buf_ptr :: addr
  frame_len :: u16
  iface :: u16
  vlan :: u16

definition IFACE_NOMAC :: u16 where "IFACE_NOMAC = 0x1000"
definition IFACE_ARP :: u16 where "IFACE_ARP = 0x2000"
definition IFACE_HOST :: u16 where "IFACE_HOST = 0x4000"
definition IFACE_DISCARD :: u16 where "IFACE_DISCARD = 0x8000"
definition IFACE_ID :: u16 where "IFACE_ID = 0x0FFF"

lemmas iface_flags = IFACE_NOMAC_def IFACE_ARP_def IFACE_HOST_def IFACE_DISCARD_def IFACE_ID_def

definition new_frame :: frame where
  "new_frame = \<lparr>buf_ptr = 0, frame_len = 0, iface = 0xFFFF, vlan = 0\<rparr>"

definition MAGIC_1 :: nat where "MAGIC_1 = 3"
definition MAGIC_2 :: nat where "MAGIC_2 = 7"
definition MAGIC_3 :: nat where "MAGIC_3 = 12"

definition tcp_hash :: "(u16 \<Rightarrow> nat \<Rightarrow> u16) \<Rightarrow> mem \<Rightarrow> addr \<Rightarrow> u16" where
  "tcp_hash ub m a = (let h = load_tcp m a in rotl ub (tcp_d_port h) MAGIC_1 OR rotl ub (tcp_s_port h) MAGIC_2)"

definition udp_hash :: "(u16 \<Rightarrow> nat \<Rightarrow> u16) \<Rightarrow> mem \<Rightarrow> addr \<Rightarrow> u16" where
  "udp_hash ub m a = (let h = load_udp m a in rotl ub (udp_d_port h) MAGIC_1 OR rotl ub (udp_s_port h) MAGIC_2)"

definition icmp_hash :: "mem \<Rightarrow> addr \<Rightarrow> u16" where
  "icmp_hash m a = (let h = load_icmp m a in push_bit 8 (ucast (icmp_code h)) OR ucast (icmp_type h))"

text \<open>
  \<^verbatim>\<open>rotl\<close> of the 8-bit protocol number by \<^verbatim>\<open>MAGIC_3 = 12\<close> shifts right by a negative count: its value
  is an argument here too.
\<close>

definition ipv4_hash :: "(u8 \<Rightarrow> nat \<Rightarrow> u8) \<Rightarrow> (u16 \<Rightarrow> nat \<Rightarrow> u16) \<Rightarrow> (u32 \<Rightarrow> nat \<Rightarrow> u32) \<Rightarrow> mem \<Rightarrow> addr \<Rightarrow> u16" where
  "ipv4_hash ub8 ub16 ub32 m a =
     (let h = load_ipv4 m a;
          res = 0;
          res = res OR rotl ub32 (d_ip h) MAGIC_1;
          res = res OR rotl ub32 (s_ip h) MAGIC_2;
          res = res OR ucast (rotl ub8 (proto h) MAGIC_3);
          l4 = a + unat (ihl h) * 4;
          res = (if proto h = PROTO_ICMP then res OR ucast (icmp_hash m l4)
                 else if proto h = PROTO_TCP then res OR ucast (tcp_hash ub16 m l4)
                 else if proto h = PROTO_UDP then res OR ucast (udp_hash ub16 m l4)
                 else res)
      in ucast ((res AND 0x0000FFFF) OR (res AND 0xFFFF0000)))"

definition hash :: "(u8 \<Rightarrow> nat \<Rightarrow> u8) \<Rightarrow> (u16 \<Rightarrow> nat \<Rightarrow> u16) \<Rightarrow> (u32 \<Rightarrow> nat \<Rightarrow> u32) \<Rightarrow> mem \<Rightarrow> frame \<Rightarrow> u16" where
  "hash ub8 ub16 ub32 m f =
     (let e = load_ether m (buf_ptr f); result = ethertype e
      in if ethertype e = htons 0x0800 then result OR ipv4_hash ub8 ub16 ub32 m (buf_ptr f) else result)"

section \<open>The flag bits\<close>

text \<open>The port number and the flags occupy different bits of the interface field.\<close>

lemma flag_push_bit:
  "IFACE_NOMAC = push_bit 12 1" "IFACE_ARP = push_bit 13 1" "IFACE_HOST = push_bit 14 1"
  "IFACE_DISCARD = push_bit 15 1"
  by (simp_all add: iface_flags)

lemma bit_flags:
  "bit IFACE_NOMAC n \<longleftrightarrow> n = 12" "bit IFACE_ARP n \<longleftrightarrow> n = 13"
  "bit IFACE_HOST n \<longleftrightarrow> n = 14" "bit IFACE_DISCARD n \<longleftrightarrow> n = 15"
  unfolding flag_push_bit push_bit_of_1 bit_exp_iff by (auto simp: possible_bit_def)

lemma IFACE_ID_mask: "IFACE_ID = mask 12"
  by (simp add: IFACE_ID_def mask_eq_exp_minus_1)

lemma bit_IFACE_ID: "bit IFACE_ID n \<longleftrightarrow> n < 12"
  unfolding IFACE_ID_mask bit_mask_iff by (auto simp: possible_bit_def)

text \<open>The port number survives setting a flag, and the flag can be read back.\<close>

lemma flag_keeps_id:
  "(x OR IFACE_NOMAC) AND IFACE_ID = x AND IFACE_ID" "(x OR IFACE_ARP) AND IFACE_ID = x AND IFACE_ID"
  "(x OR IFACE_HOST) AND IFACE_ID = x AND IFACE_ID" "(x OR IFACE_DISCARD) AND IFACE_ID = x AND IFACE_ID"
  by (rule bit_word_eqI, auto simp: bit_and_iff bit_or_iff bit_flags bit_IFACE_ID)+

lemma flag_test:
  "x AND IFACE_NOMAC \<noteq> 0 \<longleftrightarrow> bit x 12" "x AND IFACE_ARP \<noteq> 0 \<longleftrightarrow> bit x 13"
  "x AND IFACE_HOST \<noteq> 0 \<longleftrightarrow> bit x 14" "x AND IFACE_DISCARD \<noteq> 0 \<longleftrightarrow> bit x 15"
  unfolding flag_push_bit bit_iff_and_push_bit_not_eq_0 by (rule refl)+

lemma id_no_flag: "\<not> bit (x AND IFACE_ID) 12" "\<not> bit (x AND IFACE_ID) 13" "\<not> bit (x AND IFACE_ID) 14"
  "\<not> bit (x AND IFACE_ID) 15"
  by (simp_all add: bit_and_iff bit_IFACE_ID)

end
