(* ===== verification/Checksum.thy ===== *)
theory Checksum
  imports Frame
begin

text \<open>
  \<^verbatim>\<open>IPv4HdrChecksum\<close> of \<^verbatim>\<open>include/util.hpp\<close> and what the worker relies on: the loop computes the
  ones'-complement sum of RFC 1071, and decrementing the time to live while incrementing the
  stored checksum keeps the header valid.
\<close>

section \<open>Definitions\<close>

definition csum_add :: "u32 \<Rightarrow> u16 \<Rightarrow> u32" where
  "csum_add result w =
     (let result = result + ucast (ntohs w)
      in if result AND push_bit 16 1 \<noteq> 0 then (result AND 0xFFFF) + 1 else result)"

text \<open>The function zeroes the checksum field, sums the 16-bit words and restores the field.\<close>

definition IPv4HdrChecksum :: "mem \<Rightarrow> addr \<Rightarrow> u16 \<times> mem" where
  "IPv4HdrChecksum m p =
     (let orig_checksum = checksum (load_ipv4 m p);
          m0 = store_ipv4 p ((load_ipv4 m p)\<lparr>checksum := 0\<rparr>) m;
          result = fold (\<lambda>i r. csum_add r (rd16 m0 (p + 2 * i))) [0..<unat (ihl (load_ipv4 m0 p)) * 2] 0;
          m1 = store_ipv4 p ((load_ipv4 m0 p)\<lparr>checksum := orig_checksum\<rparr>) m0
      in (htons (ucast (NOT result)), m1))"

section \<open>The ones'-complement sum\<close>

text \<open>
  The representative of a sum in ones'-complement arithmetic: zero only for zero, and otherwise
  the residue in \<open>1..65535\<close>.
\<close>

definition oc :: "nat \<Rightarrow> nat" where
  "oc s = (if s = 0 then 0 else (s - 1) mod 65535 + 1)"

definition hdr_sum :: "mem \<Rightarrow> addr \<Rightarrow> nat" where
  "hdr_sum m p = (\<Sum>i\<leftarrow>[0..<unat (ihl (load_ipv4 m p)) * 2]. if i = 5 then 0 else unat (ntohs (rd16 m (p + 2 * i))))"

lemma oc_le: "oc s \<le> 65535"
proof -
  have "(s - 1) mod 65535 + 1 \<le> 65535" using mod_less_divisor [of 65535 "s - 1"] by linarith
  then show ?thesis unfolding oc_def by (cases "s = 0") simp_all
qed

lemma oc_mod: "oc s mod 65535 = s mod 65535"
proof (cases s)
  case (Suc n)
  then show ?thesis by (simp add: oc_def mod_Suc_eq)
qed (simp add: oc_def)

lemma oc_unique:
  assumes "x \<le> 65535" "x mod 65535 = s mod 65535" "x = 0 \<longleftrightarrow> s = 0"
  shows "oc s = x"
proof -
  have "oc s mod 65535 = x mod 65535" using assms oc_mod by simp
  moreover have "oc s = 0 \<longleftrightarrow> x = 0" using assms by (simp add: oc_def)
  ultimately show ?thesis using assms(1) oc_le [of s] by (auto simp: mod_if split: if_splits)
qed

lemma oc_add: "x < 65536 \<Longrightarrow> oc (s + x) = (if oc s + x < 65536 then oc s + x else oc s + x - 65535)"
proof (rule oc_unique)
  assume x: "x < 65536"
  show "(if oc s + x < 65536 then oc s + x else oc s + x - 65535) \<le> 65535" using x oc_le [of s] by auto
  have "(oc s + x) mod 65535 = (s + x) mod 65535" by (metis mod_add_left_eq oc_mod)
  moreover have "(oc s + x - 65535) mod 65535 = (oc s + x) mod 65535" if "65535 \<le> oc s + x"
    using that by (simp add: le_mod_geq)
  ultimately show "(if oc s + x < 65536 then oc s + x else oc s + x - 65535) mod 65535 = (s + x) mod 65535"
    by auto
  show "(if oc s + x < 65536 then oc s + x else oc s + x - 65535) = 0 \<longleftrightarrow> s + x = 0"
    by (auto simp: oc_def)
qed

section \<open>The loop computes the sum\<close>

lemma unat_ucast16 [simp]: "unat (ucast (w :: u16) :: u32) = unat w"
  using unat_less_pow(2) [of w] by (simp add: unsigned_ucast_eq take_bit_nat_eq_self_iff)

lemma unat_sum17:
  assumes "unat (r :: u32) \<le> 65535"
  shows "unat (r + ucast (w :: u16)) = unat r + unat w"
  using assms unat_less_pow(2) [of w] unat_add_lem [of r "ucast w"] by simp

lemma carry_bit:
  assumes "unat (r :: u32) < 131072"
  shows "r AND push_bit 16 1 \<noteq> 0 \<longleftrightarrow> 65536 \<le> unat r"
proof -
  have "r AND push_bit 16 1 \<noteq> 0 \<longleftrightarrow> bit (unat r) 16"
    unfolding bit_iff_and_push_bit_not_eq_0 [symmetric] by (simp add: bit_unsigned_iff)
  also have "\<dots> \<longleftrightarrow> odd (unat r div 65536)" by (simp add: bit_iff_odd)
  also have "\<dots> \<longleftrightarrow> 65536 \<le> unat r"
  proof (cases "65536 \<le> unat r")
    case True
    with assms have "unat r div 65536 = 1" by (simp add: div_nat_eqI)
    with True show ?thesis by simp
  qed simp
  finally show ?thesis .
qed

lemma csum_add_unat:
  assumes "unat r \<le> 65535"
  shows "unat (csum_add r w) = (let s = unat r + unat (ntohs w) in if s < 65536 then s else s - 65535)"
proof -
  let ?s = "r + ucast (ntohs w)"
  have s: "unat ?s = unat r + unat (ntohs w)" using unat_sum17 [OF assms] .
  then have b: "unat ?s < 131072" using assms unat_less_pow(2) [of "ntohs w"] by simp
  have "(0xFFFF :: u32) = mask 16" by (simp add: mask_eq_exp_minus_1)
  then have "unat (?s AND 0xFFFF) = take_bit 16 (unat ?s)"
    by (simp only: take_bit_eq_mask [symmetric] unsigned_take_bit_eq)
  then have m: "unat (?s AND 0xFFFF) = unat ?s mod 65536" by (simp add: take_bit_eq_mod)
  show ?thesis
  proof (cases "65536 \<le> unat ?s")
    case True
    have "unat ?s mod 65536 = unat ?s - 65536" using True b by (simp add: mod_if le_mod_geq)
    then have "unat ((?s AND 0xFFFF) + 1) = unat ?s - 65536 + 1"
      using m b unat_add_lem [of "?s AND 0xFFFF" 1] by auto
    then have "unat ((?s AND 0xFFFF) + 1) = unat ?s - 65535" using True by linarith
    with True s carry_bit [OF b] show ?thesis by (simp add: csum_add_def Let_def del: push_bit_of_1)
  next
    case False
    with s carry_bit [OF b] show ?thesis by (simp add: csum_add_def Let_def del: push_bit_of_1)
  qed
qed

lemma unat_not16:
  assumes "unat (r :: u32) \<le> 65535"
  shows "unat (ucast (NOT r) :: u16) = 65535 - unat r"
proof -
  have "ucast (NOT r) = NOT (ucast r :: u16)"
    by (rule bit_word_eqI) (simp add: bit_ucast_iff bit_not_iff)
  also have "\<dots> = - 1 - ucast r" by (simp add: not_eq_complement)
  finally have "unat (ucast (NOT r) :: u16) = unat (- 1 :: u16) - unat (ucast r :: u16)"
    using unat_sub [of "ucast r :: u16" "- 1"] by simp
  moreover have "unat (ucast r :: u16) = unat r"
    using assms by (simp add: unsigned_ucast_eq take_bit_nat_eq_self_iff)
  ultimately show ?thesis by (simp add: unsigned_minus_1_eq_mask mask_eq_exp_minus_1)
qed

lemma csum_fold:
  "unat (fold (\<lambda>i r. csum_add r (f i)) xs 0) = oc (\<Sum>i\<leftarrow>xs. unat (ntohs (f i)))"
proof (induction xs rule: rev_induct)
  case (snoc x xs)
  then show ?case using oc_le oc_add [OF unat_less_pow(2)] by (simp add: csum_add_unat Let_def)
qed (simp add: oc_def)

section \<open>Words of the header\<close>

lemma unat_ntohs: "unat (ntohs x) = 256 * (unat x mod 256) + unat x div 256"
proof -
  have d: "push_bit 8 x AND drop_bit 8 x = 0"
    by (rule bit_word_eqI) (auto simp: bit_and_iff bit_push_bit_iff bit_drop_bit_eq dest: bit_imp_le_length)
  have p: "unat (push_bit 8 x) = 256 * (unat x mod 256)"
  proof -
    have "unat (push_bit 8 x) = take_bit 16 (push_bit 8 (unat x))" by (simp only: unsigned_push_bit_eq) simp
    then show ?thesis by (simp add: push_bit_eq_mult take_bit_eq_mod mult_mod_right mult.commute)
  qed
  have q: "unat (drop_bit 8 x) = unat x div 256" by (simp only: unat_drop_bit_eq) (simp add: drop_bit_eq_div)
  have "unat x div 256 < 256" using unat_less_pow(2) [of x] by simp
  then have "unat (push_bit 8 x) + unat (drop_bit 8 x) < 65536" unfolding p q by linarith
  then have "unat (push_bit 8 x + drop_bit 8 x) = unat (push_bit 8 x) + unat (drop_bit 8 x)"
    using unat_add_lem [of "push_bit 8 x" "drop_bit 8 x"] by simp
  then show ?thesis using p q disjunctive_add_eq_or [OF d] by (simp add: ntohs_def htons_def)
qed

lemma unat_rd16: "unat (rd16 m a) = unat (m a) + 256 * unat (m (a + 1))"
proof -
  have d: "(ucast (m a) :: u16) AND push_bit 8 (ucast (m (a + 1))) = 0"
    by (rule bit_word_eqI) (auto simp: bit_and_iff bit_push_bit_iff dest: bit_imp_le_length)
  have p: "unat (ucast (b :: u8) :: u16) = unat b" for b
    using unat_less_pow(1) [of b] by (simp add: unsigned_ucast_eq take_bit_nat_eq_self_iff)
  have q: "unat (push_bit 8 (ucast (b :: u8)) :: u16) = 256 * unat b" for b
  proof -
    have "unat (push_bit 8 (ucast b) :: u16) = take_bit 16 (push_bit 8 (unat (ucast b :: u16)))"
      by (simp only: unsigned_push_bit_eq) simp
    then show ?thesis using unat_less_pow(1) [of b] unfolding p by (simp add: push_bit_eq_mult take_bit_eq_mod)
  qed
  have "unat (ucast (m a) :: u16) + unat (push_bit 8 (ucast (m (a + 1))) :: u16) < 65536"
    unfolding p q using unat_less_pow(1) [of "m a"] unat_less_pow(1) [of "m (a + 1)"] by linarith
  then have "unat ((ucast (m a) :: u16) + push_bit 8 (ucast (m (a + 1)))) = unat (m a) + 256 * unat (m (a + 1))"
    using unat_add_lem [of "ucast (m a) :: u16" "push_bit 8 (ucast (m (a + 1)))"] unfolding p q by simp
  then show ?thesis using disjunctive_add_eq_or [OF d] by (simp add: rd16_def)
qed

lemma ntohs_rd16: "unat (ntohs (rd16 m a)) = 256 * unat (m a) + unat (m (a + 1))"
  unfolding unat_ntohs unat_rd16 using unat_less_pow(1) [of "m a"] by simp

text \<open>Assignments to the two fields the worker touches are writes of the bytes they occupy.\<close>

lemma store_fields:
  "store_ipv4 p ((load_ipv4 m p)\<lparr>checksum := c\<rparr>) m = wr16 (p + 10) c m"
  "store_ipv4 p ((load_ipv4 m p)\<lparr>ttl := t, checksum := c\<rparr>) m = wr8 (p + 8) t (wr16 (p + 10) c m)"
  by (simp_all add: store_ipv4_def load_ipv4_def scalar_simps scalar_redundant)

lemma load_fields:
  "load_ipv4 (wr16 (p + 10) c m) p = (load_ipv4 m p)\<lparr>checksum := c\<rparr>"
  "load_ipv4 (wr8 (p + 8) t (wr16 (p + 10) c m)) p = (load_ipv4 m p)\<lparr>ttl := t, checksum := c\<rparr>"
  by (metis ip.load_store store_fields(1)) (metis ip.load_store store_fields(2))

lemma rd16_words:
  "rd16 (wr16 (p + 10) c m) (p + 2 * i) = (if i = 5 then c else rd16 m (p + 2 * i))"
  "i \<noteq> 4 \<Longrightarrow> rd16 (wr8 (p + 8) t m) (p + 2 * i) = rd16 m (p + 2 * i)"
proof -
  show "rd16 (wr16 (p + 10) c m) (p + 2 * i) = (if i = 5 then c else rd16 m (p + 2 * i))"
  proof (cases "i = 5")
    case False
    then have "p + 2 * i + 2 \<le> p + 10 \<or> p + 10 + 2 \<le> p + 2 * i" by linarith
    with False show ?thesis by (simp add: p16_16.load_disjoint)
  qed (simp add: f16.load_store)
  assume "i \<noteq> 4"
  then have "p + 8 + 1 \<le> p + 2 * i \<or> p + 2 * i + 2 \<le> p + 8" by linarith
  then show "rd16 (wr8 (p + 8) t m) (p + 2 * i) = rd16 m (p + 2 * i)" by (rule p8_16.load_disjoint')
qed

lemma ihl_fields [simp]: "ihl (h\<lparr>checksum := c\<rparr>) = ihl h" "ihl (h\<lparr>ttl := t\<rparr>) = ihl h"
  by (simp_all add: ihl_def)

text \<open>
  The value computed is the complement of the ones'-complement sum of all words but the checksum
  itself, and memory is as before.
\<close>

lemma checksum_value:
  "unat (ntohs (fst (IPv4HdrChecksum m p))) = 65535 - oc (hdr_sum m p)" "snd (IPv4HdrChecksum m p) = m"
proof -
  define n where "n = unat (ihl (load_ipv4 m p)) * 2"
  let ?r = "fold (\<lambda>i r. csum_add r (rd16 (wr16 (p + 10) 0 m) (p + 2 * i))) [0..<n] 0"
  have r: "unat ?r = oc (hdr_sum m p)"
    unfolding csum_fold hdr_sum_def n_def [symmetric] rd16_words
    by (rule arg_cong [of _ _ oc], rule arg_cong [of _ _ sum_list]) (simp add: ntohs_def htons_def)
  have "unat (ucast (NOT ?r) :: u16) = 65535 - unat ?r" using oc_le r by (intro unat_not16) simp
  then show "unat (ntohs (fst (IPv4HdrChecksum m p))) = 65535 - oc (hdr_sum m p)"
    by (simp add: IPv4HdrChecksum_def Let_def store_fields load_fields n_def r [unfolded n_def])
  show "snd (IPv4HdrChecksum m p) = m"
    by (simp add: IPv4HdrChecksum_def Let_def ip.store_store ip.load_store ip.store_load)
qed

section \<open>Decrementing the time to live\<close>

text \<open>What the worker does to a header it forwards.\<close>

abbreviation ttl_step :: "ipv4 \<Rightarrow> ipv4" where
  "ttl_step h \<equiv> h\<lparr>ttl := ttl h - 1, checksum := checksum h + 1\<rparr>"

abbreviation header_words :: "mem \<Rightarrow> addr \<Rightarrow> nat" where
  "header_words m p \<equiv> unat (ihl (load_ipv4 m p)) * 2"

lemma hdr_sum_split:
  assumes "5 \<le> header_words m p"
  shows "hdr_sum m p = 256 * unat (ttl (load_ipv4 m p)) + unat (proto (load_ipv4 m p)) +
    (\<Sum>i\<in>{0..<header_words m p} - {4, 5}. unat (ntohs (rd16 m (p + 2 * i))))"
proof -
  let ?n = "header_words m p"
  let ?f = "\<lambda>i. unat (ntohs (rd16 m (p + 2 * i)))"
  have "hdr_sum m p = (\<Sum>i\<in>{0..<?n}. if i = 5 then 0 else ?f i)"
    by (simp add: hdr_sum_def interv_sum_list_conv_sum_set_nat)
  also have "\<dots> = ?f 4 + (\<Sum>i\<in>{0..<?n} - {4}. if i = 5 then 0 else ?f i)"
    using assms by (subst sum.remove [of _ 4]) auto
  also have "(\<Sum>i\<in>{0..<?n} - {4}. if i = 5 then 0 else ?f i) = sum ?f ({0..<?n} - {4, 5})"
    by (rule sum.mono_neutral_cong_right) auto
  also have "?f 4 = 256 * unat (ttl (load_ipv4 m p)) + unat (proto (load_ipv4 m p))"
    by (simp add: ntohs_rd16 load_ipv4_def rd8_def add.commute)
  finally show ?thesis .
qed

lemma hdr_sum_ttl_step:
  assumes "5 \<le> header_words m p" "ttl (load_ipv4 m p) \<noteq> 0"
  shows "hdr_sum (store_ipv4 p (ttl_step (load_ipv4 m p)) m) p + 256 = hdr_sum m p"
proof -
  let ?m = "store_ipv4 p (ttl_step (load_ipv4 m p)) m"
  have l: "load_ipv4 ?m p = ttl_step (load_ipv4 m p)" by (rule ip.load_store)
  have "rd16 ?m (p + 2 * i) = rd16 m (p + 2 * i)" if "i \<noteq> 4" "i \<noteq> 5" for i
    using that by (simp add: store_fields rd16_words)
  then have rest: "(\<Sum>i\<in>{0..<header_words m p} - {4, 5}. unat (ntohs (rd16 ?m (p + 2 * i)))) =
      (\<Sum>i\<in>{0..<header_words m p} - {4, 5}. unat (ntohs (rd16 m (p + 2 * i))))"
    by (intro sum.cong) auto
  have "1 \<le> unat (ttl (load_ipv4 m p))" using assms(2) by (simp add: Suc_le_eq unat_gt_0)
  moreover have "unat (ttl (load_ipv4 m p) - 1) = unat (ttl (load_ipv4 m p)) - 1"
    using assms(2) by (rule unat_minus_one)
  moreover have "header_words ?m p = header_words m p" unfolding l by simp
  ultimately show ?thesis using hdr_sum_split [of m p] hdr_sum_split [of ?m p] assms(1) rest
    by (simp add: l)
qed

lemma hdr_sum_pos:
  assumes "5 \<le> header_words m p"
  shows "256 * unat (ttl (load_ipv4 m p)) < hdr_sum m p"
proof -
  let ?f = "\<lambda>i. unat (ntohs (rd16 m (p + 2 * i)))"
  have z: "0 \<in> {0..<header_words m p} - {4, 5}" using assms by auto
  have "0 < ihl (load_ipv4 m p)" using assms by (metis mult_zero_left not_numeral_le_zero unat_0 word_gt_0)
  then have "version_ihl (load_ipv4 m p) \<noteq> 0" by (auto simp: ihl_def)
  then have "0 < unat (m p)" by (simp add: load_ipv4_def rd8_def unat_gt_0)
  then have "0 < ?f 0" using ntohs_rd16 [of m p] by simp
  also have "?f 0 \<le> sum ?f ({0..<header_words m p} - {4, 5})" using z by (intro member_le_sum) auto
  finally show ?thesis using hdr_sum_split [OF assms] by linarith
qed

lemma ntohs_Suc:
  assumes "c \<noteq> 0xFFFF"
  shows "unat (ntohs (c + 1)) = (if 65280 \<le> unat (ntohs c) then unat (ntohs c) - 65279 else unat (ntohs c) + 256)"
proof -
  let ?c = "unat c"
  have "?c \<noteq> 65535" using assms by (simp add: word_unat_eq_iff)
  then have b: "?c < 65535" using unat_less_pow(2) [of c] by simp
  then have s: "unat (c + 1) = ?c + 1" using unat_add_lem [of c 1] by simp
  have d: "?c div 256 < 256" using unat_less_pow(2) [of c] by simp
  show ?thesis
  proof (cases "?c mod 256 = 255")
    case True
    then have "(?c + 1) mod 256 = 0" "(?c + 1) div 256 = ?c div 256 + 1" by (simp_all add: mod_Suc div_Suc)
    then show ?thesis unfolding unat_ntohs s True by simp
  next
    case False
    then have "(?c + 1) mod 256 = ?c mod 256 + 1" "(?c + 1) div 256 = ?c div 256" by (simp_all add: mod_Suc div_Suc)
    moreover have "?c mod 256 < 255" using False mod_less_divisor [of 256 ?c] by linarith
    ultimately show ?thesis unfolding unat_ntohs s using d by simp
  qed
qed

lemma oc_minus_256:
  assumes "s = s' + 256" "0 < s'"
  shows "oc s' = (if 256 < oc s then oc s - 256 else oc s + 65279)"
proof (rule oc_unique)
  have le: "oc s \<le> 65535" "0 < oc s" using oc_le [of s] assms by (simp_all add: oc_def)
  then show "(if 256 < oc s then oc s - 256 else oc s + 65279) \<le> 65535" by auto
  have "oc s = oc s' + 256 \<or> oc s + 65535 = oc s' + 256"
    using oc_add [of 256 s'] assms(1) by auto
  then show "(if 256 < oc s then oc s - 256 else oc s + 65279) mod 65535 = s' mod 65535"
  proof
    assume "oc s = oc s' + 256"
    then show ?thesis using oc_mod [of s'] assms(2) by (auto simp: oc_def)
  next
    assume e: "oc s + 65535 = oc s' + 256"
    then have "oc s \<le> 256" using oc_le [of s'] by linarith
    moreover have "oc s + 65279 = oc s'" using e by simp
    ultimately show ?thesis using oc_mod [of s'] by simp
  qed
  show "(if 256 < oc s then oc s - 256 else oc s + 65279) = 0 \<longleftrightarrow> s' = 0" using assms(2) by auto
qed

lemma ttl_step_sum:
  assumes "fst (IPv4HdrChecksum m p) = checksum (load_ipv4 m p)" "5 \<le> unat (ihl (load_ipv4 m p))"
    and "ttl (load_ipv4 m p) \<noteq> 0"
  shows "oc (hdr_sum (store_ipv4 p (ttl_step (load_ipv4 m p)) m) p +
      unat (ntohs (checksum (load_ipv4 (store_ipv4 p (ttl_step (load_ipv4 m p)) m) p)))) = 65535"
    and "fst (IPv4HdrChecksum (store_ipv4 p (ttl_step (load_ipv4 m p)) m) p) =
      checksum (load_ipv4 (store_ipv4 p (ttl_step (load_ipv4 m p)) m) p) \<longleftrightarrow> checksum (load_ipv4 m p) \<noteq> 0xFFFE"
proof -
  let ?m = "store_ipv4 p (ttl_step (load_ipv4 m p)) m"
  let ?c = "checksum (load_ipv4 m p)" and ?r = "oc (hdr_sum m p)"
  have hw: "5 \<le> header_words m p" using assms(2) by simp
  have l: "load_ipv4 ?m p = ttl_step (load_ipv4 m p)" by (rule ip.load_store)
  have s: "hdr_sum m p = hdr_sum ?m p + 256" using hdr_sum_ttl_step [OF hw assms(3)] by simp
  have s': "0 < hdr_sum ?m p"
    using hdr_sum_pos [of ?m p] hw unfolding l by simp
  have r: "oc (hdr_sum ?m p) = (if 256 < ?r then ?r - 256 else ?r + 65279)" using oc_minus_256 [OF s s'] .
  have r0: "0 < ?r" "?r \<le> 65535" using s oc_le by (simp_all add: oc_def)
  have c: "unat (ntohs ?c) = 65535 - ?r" using checksum_value(1) [of m p] assms(1) by simp
  have "ntohs ?c \<noteq> ntohs 0xFFFF" using c r0(1) unat_ntohs [of "0xFFFF"] by auto
  then have cf: "?c \<noteq> 0xFFFF" by metis
  note c' = ntohs_Suc [OF cf, unfolded c]
  have fe: "?c = 0xFFFE \<longleftrightarrow> ?r = 256"
  proof -
    have "?c = 0xFFFE \<longleftrightarrow> unat (ntohs ?c) = unat (ntohs 0xFFFE)"
      by (metis ntohs_htons(2) word_unat_eq_iff)
    then show ?thesis using c r0 by (simp add: unat_ntohs) linarith
  qed
  have "fst (IPv4HdrChecksum ?m p) = ?c + 1 \<longleftrightarrow> unat (ntohs (fst (IPv4HdrChecksum ?m p))) = unat (ntohs (?c + 1))"
    by (metis ntohs_htons(2) word_unat_eq_iff)
  also have "\<dots> \<longleftrightarrow> ?c \<noteq> 0xFFFE" unfolding checksum_value(1) r c' fe using r0 by auto
  finally show "fst (IPv4HdrChecksum ?m p) = checksum (load_ipv4 ?m p) \<longleftrightarrow> ?c \<noteq> 0xFFFE"
    unfolding l by simp
  have "oc (hdr_sum ?m p + unat (ntohs (?c + 1))) = 65535"
    using oc_add [OF unat_less_pow(2), of "hdr_sum ?m p" "ntohs (?c + 1)"] r0 unfolding r c'
    by (auto split: if_splits)
  then show "oc (hdr_sum ?m p + unat (ntohs (checksum (load_ipv4 ?m p)))) = 65535" unfolding l by simp
qed

section \<open>Properties\<close>

text \<open>
  An ICMP packet from 10.0.1.2 to 16.0.0.64 with time to live 64, as it arrives in a buffer at
  address 0, for the concrete instances.
\<close>

definition mem_of :: "u8 list \<Rightarrow> mem" where
  "mem_of xs a = (if a < length xs then xs ! a else 0)"

definition test_packet :: mem where
  "test_packet = mem_of
     [0x02, 0, 0, 0, 0, 0x01, 0x02, 0, 0, 0, 0, 0x02, 0x08, 0x00,
      0x45, 0, 0, 0x54, 0, 0, 0x40, 0, 0x40, 0x01, 0x1F, 0x68, 0x0A, 0, 0x01, 0x02, 0x10, 0, 0, 0x40]"

text \<open>
  C26: the checksum routine leaves memory as it was, and its result, together with the words of the
  header other than the checksum field, sums up to 0xFFFF in ones'-complement arithmetic: it is
  the checksum of RFC 1071, for every header length.
\<close>

theorem IPv4HdrChecksum_rfc1071:
  "snd (IPv4HdrChecksum m p) = m \<and>
   unat (ntohs (fst (IPv4HdrChecksum m p))) = 65535 - oc (hdr_sum m p) \<and>
   oc (hdr_sum m p + unat (ntohs (fst (IPv4HdrChecksum m p)))) = 65535"
proof -
  have "oc (hdr_sum m p + unat (ntohs (fst (IPv4HdrChecksum m p)))) = 65535"
    unfolding checksum_value using oc_add [of "65535 - oc (hdr_sum m p)" "hdr_sum m p"] oc_le [of "hdr_sum m p"]
    by simp
  then show ?thesis using checksum_value by blast
qed

text \<open>
  C13: for a header that passes the worker's checksum test, decrementing the time to live and
  incrementing the stored checksum as a little-endian number gives a header whose sum is again
  0xFFFF, and which passes the worker's own test again exactly when the stored checksum was not
  0xFFFE: then the increment writes 0xFFFF where the routine computes zero.
\<close>

theorem ttl_step_checksum:
  assumes "fst (IPv4HdrChecksum m p) = checksum (load_ipv4 m p)" "5 \<le> unat (ihl (load_ipv4 m p))"
    and "ttl (load_ipv4 m p) \<noteq> 0"
  shows "let m' = store_ipv4 p (ttl_step (load_ipv4 m p)) m in
    oc (hdr_sum m' p + unat (ntohs (checksum (load_ipv4 m' p)))) = 65535 \<and>
    (fst (IPv4HdrChecksum m' p) = checksum (load_ipv4 m' p) \<longleftrightarrow> checksum (load_ipv4 m p) \<noteq> 0xFFFE)"
  unfolding Let_def using ttl_step_sum [OF assms] by simp

theorem ttl_step_checksum_witness:
  "let m' = store_ipv4 14 (ttl_step (load_ipv4 test_packet 14)) test_packet in
     fst (IPv4HdrChecksum m' 14) = checksum (load_ipv4 m' 14) \<and> ttl (load_ipv4 m' 14) = 63"
proof -
  have 1: "fst (IPv4HdrChecksum test_packet 14) = checksum (load_ipv4 test_packet 14)"
    and 2: "5 \<le> unat (ihl (load_ipv4 test_packet 14))" and 3: "ttl (load_ipv4 test_packet 14) \<noteq> 0"
    and 4: "checksum (load_ipv4 test_packet 14) \<noteq> 0xFFFE"
    and 5: "ttl (load_ipv4 (store_ipv4 14 (ttl_step (load_ipv4 test_packet 14)) test_packet) 14) = 63"
    by code_simp+
  show ?thesis using ttl_step_checksum [OF 1 2 3] 4 5 by (simp add: Let_def)
qed

end
