(* ===== verification/ArpTable.thy ===== *)
theory ArpTable
  imports Frame SampleTable
begin

text \<open>
  \<^verbatim>\<open>include/arpTable.hpp\<close> and \<^verbatim>\<open>src/arpTable.cpp\<close>: the mapping from IPv4 to MAC addresses and the
  ARP protocol. The workers keep the \<^verbatim>\<open>shared_ptr<table>\<close> they were started with while the manager
  writes learned addresses through its own, so tables are objects: \<open>tables\<close> holds every table ever
  made and a pointer is a position in it. The routing table is shared in the same way: operations
  take the heap of routing tables as an argument.
\<close>

section \<open>State\<close>

record nextHop =
  nh_mac :: mac
  netmapInterface :: u16

definition new_nextHop :: nextHop where
  "new_nextHop = \<lparr>nh_mac = zero_mac, netmapInterface = uint16_t_max\<rparr>"

definition invalidMac :: mac where
  "invalidMac = zero_mac"

definition nextHop_valid :: "nextHop \<Rightarrow> bool" where
  "nextHop_valid nh = (if nh_mac nh = invalidMac \<or> netmapInterface nh = uint16_t_max then False else True)"

type_synonym rtheap = "nat \<Rightarrow> routing_table"

record ARPTable =
  routingTable :: "nat option"
  tables :: "nextHop list list"
  currentTable :: nat
  directlyConnected :: "u32 \<rightharpoonup> nextHop"
  mapping :: "u32 \<rightharpoonup> nextHop"
  arp_interfaces :: "iptr list"

definition new_ARPTable :: "iptr list \<Rightarrow> ARPTable" where
  "new_ARPTable ifs = \<lparr>routingTable = None, tables = [[]], currentTable = 0,
     directlyConnected = (\<lambda>_. None), mapping = (\<lambda>_. None), arp_interfaces = ifs\<rparr>"

definition getCurrentTable :: "ARPTable \<Rightarrow> nat" where
  "getCurrentTable a = currentTable a"

text \<open>The table object a pointer refers to.\<close>

definition hops_of :: "ARPTable \<Rightarrow> nat \<Rightarrow> nextHop list" where
  "hops_of a t = tables a ! t"

section \<open>Operations\<close>

text \<open>\<^verbatim>\<open>unordered_map::insert\<close> leaves an entry alone that is there already.\<close>

definition map_insert :: "'k \<Rightarrow> 'v \<Rightarrow> ('k \<rightharpoonup> 'v) \<Rightarrow> ('k \<rightharpoonup> 'v)" where
  "map_insert k v m = (case m k of None \<Rightarrow> m(k \<mapsto> v) | Some _ \<Rightarrow> m)"

text \<open>A pointer that is followed has to point somewhere.\<close>

definition deref :: "'a option \<Rightarrow> 'a result" where
  "deref p = (case p of None \<Rightarrow> Inl NullDeref | Some x \<Rightarrow> Inr x)"

text \<open>An indexed assignment to a vector; outside of it the program writes elsewhere.\<close>

definition vec_update :: "nat \<Rightarrow> ('a \<Rightarrow> 'a) \<Rightarrow> 'a list \<Rightarrow> 'a list result" where
  "vec_update i f xs = (if i < length xs then Inr (xs[i := f (xs ! i)]) else Inl OutOfBounds)"

definition fill_hop :: "iheap \<Rightarrow> (u32 \<rightharpoonup> nextHop) \<Rightarrow> nh_abstract \<Rightarrow> nextHop list \<Rightarrow> nextHop list result" where
  "fill_hop h known nh hops =
     bindE (deref (nh_interface nh)) (\<lambda>p.
     if netmapIndex (h p) = ucast uint16_t_max then Inl Abort
     else bindE (vec_update (unat (nh_idx nh)) (\<lambda>e. e\<lparr>netmapInterface := ucast (netmapIndex (h p))\<rparr>) hops) (\<lambda>hops.
       bindE (vec_update (unat (nh_idx nh)) (\<lambda>e. e\<lparr>nh_mac := zero_mac\<rparr>) hops) (\<lambda>hops.
       case known (nh_ip nh) of
         Some k \<Rightarrow> vec_update (unat (nh_idx nh)) (\<lambda>e. e\<lparr>nh_mac := nh_mac k\<rparr>) hops
       | None \<Rightarrow> Inr hops)))"

definition createCurrentTable :: "iheap \<Rightarrow> rtheap \<Rightarrow> nat \<Rightarrow> ARPTable \<Rightarrow> ARPTable result" where
  "createCurrentTable h th rt a =
     (let next_hop_addresses = nextHopMapping (th rt)
      in bindE (foldE (fill_hop h (mapping a)) next_hop_addresses
                  (replicate (length next_hop_addresses) new_nextHop)) (\<lambda>hops.
         Inr (a\<lparr>routingTable := Some rt, tables := tables a @ [hops], currentTable := length (tables a)\<rparr>)))"

definition prepareRequest :: "iheap \<Rightarrow> ARPTable \<Rightarrow> u32 \<Rightarrow> u16 \<Rightarrow> mem \<times> frame \<Rightarrow> (mem \<times> frame) result" where
  "prepareRequest h a ip ifc mf =
     (let (m, f) = mf; ether_hdr = buf_ptr f; arp_hdr = buf_ptr f + sizeof_ether in
      case find_iface h (arp_interfaces a) (ucast ifc) of
        None \<Rightarrow> Inl Abort
      | Some iface_ptr \<Rightarrow>
          let m = store_ether ether_hdr ((load_ether m ether_hdr)\<lparr>s_mac := if_mac (h iface_ptr),
                    d_mac := broadcast_mac, ethertype := htons 0x0806\<rparr>) m;
              m = store_arp arp_hdr ((load_arp m arp_hdr)\<lparr>hw_type := htons 1, proto_type := htons 0x0800,
                    hw_len := 6, proto_len := 4, op := htons (ucast OP_REQUEST),
                    s_hw_addr := if_mac (h iface_ptr)\<rparr>) m in
          case IPs (h iface_ptr) of
            [] \<Rightarrow> Inl (Fatal ''Cannot send ARP request without an IP address on interface'')
          | front # _ \<Rightarrow>
              let m = store_arp arp_hdr ((load_arp m arp_hdr)\<lparr>s_proto_addr := htonl front,
                        t_hw_addr := zero_mac, t_proto_addr := ip\<rparr>) m
              in Inr (m, f\<lparr>frame_len := of_nat (sizeof_ether + sizeof_arp)\<rparr>))"

text \<open>The search for a registered next hop behind the port a frame came from.\<close>

fun find_hop :: "iheap \<Rightarrow> u32 \<Rightarrow> u16 \<Rightarrow> nh_abstract list \<Rightarrow> nh_abstract option result" where
  "find_hop h ip ifc [] = Inr None"
| "find_hop h ip ifc (nh # nhs) =
     (if nh_ip nh = ip
      then bindE (deref (nh_interface nh)) (\<lambda>p.
           if netmapIndex (h p) = ucast ifc then Inr (Some nh) else find_hop h ip ifc nhs)
      else find_hop h ip ifc nhs)"

text \<open>
  The part that the handlers of requests and replies share: the sender of the frame is entered as
  next hop or as directly connected station. The flag says whether it was a registered next hop.
\<close>

definition learn :: "iheap \<Rightarrow> rtheap \<Rightarrow> u32 \<Rightarrow> mac \<Rightarrow> u16 \<Rightarrow> ARPTable \<Rightarrow> (bool \<times> ARPTable) result" where
  "learn h th ip mc ifc a =
     (let nextHop = new_nextHop\<lparr>nh_mac := mc, netmapInterface := ifc\<rparr> in
      bindE (deref (routingTable a)) (\<lambda>rt.
      bindE (find_hop h ip ifc (nextHopMapping (th rt))) (\<lambda>hit.
      case hit of
        Some nh \<Rightarrow>
          bindE (vec_update (unat (nh_idx nh)) (\<lambda>e. e\<lparr>nh_mac := mc\<rparr>) (hops_of a (currentTable a))) (\<lambda>hops.
          Inr (True, a\<lparr>mapping := map_insert ip nextHop (mapping a),
                       tables := (tables a)[currentTable a := hops]\<rparr>))
      | None \<Rightarrow> Inr (False, a\<lparr>directlyConnected := map_insert ip nextHop (directlyConnected a)\<rparr>))))"

definition handleReply :: "iheap \<Rightarrow> rtheap \<Rightarrow> mem \<Rightarrow> frame \<Rightarrow> ARPTable \<Rightarrow> ARPTable result" where
  "handleReply h th m f a =
     (let ether_hdr = load_ether m (buf_ptr f); arp_hdr = load_arp m (buf_ptr f + sizeof_ether) in
      if ethertype ether_hdr \<noteq> htons 0x0806 then Inr a
      else if ntohs (op arp_hdr) \<noteq> ucast OP_REPLY then Inr a
      else bindE (learn h th (ntohl (s_proto_addr arp_hdr)) (s_hw_addr arp_hdr) (iface f AND IFACE_ID) a)
             (\<lambda>(_, a). Inr a))"

definition handleRequest ::
    "iheap \<Rightarrow> rtheap \<Rightarrow> mem \<times> frame \<times> ARPTable \<Rightarrow> (mem \<times> frame \<times> ARPTable) result" where
  "handleRequest h th s =
     (let (m, f, a) = s; ether_hdr = buf_ptr f; arp_hdr = buf_ptr f + sizeof_ether;
          req = load_arp m arp_hdr in
      if ethertype (load_ether m ether_hdr) \<noteq> htons 0x0806 then Inr (m, f, a)
      else if ntohs (op req) \<noteq> ucast OP_REQUEST then Inr (m, f, a)
      else case find_iface h (arp_interfaces a) (ucast (iface f AND IFACE_ID)) of
        None \<Rightarrow> Inl Abort
      | Some iface_ptr \<Rightarrow>
          if count_list (IPs (h iface_ptr)) (ntohl (t_proto_addr req)) = 0
          then Inr (m, f\<lparr>iface := IFACE_DISCARD\<rparr>, a)
          else bindE (learn h th (ntohl (s_proto_addr req)) (s_hw_addr req) (iface f AND IFACE_ID) a) (\<lambda>(registered, a).
            if registered then Inr (m, f, a)
            else
              let m = store_arp arp_hdr (req\<lparr>op := htons (ucast OP_REPLY), t_hw_addr := s_hw_addr req,
                        t_proto_addr := s_proto_addr req, s_hw_addr := if_mac (h iface_ptr),
                        s_proto_addr := t_proto_addr req\<rparr>) m;
                  m = store_ether ether_hdr ((load_ether m ether_hdr)\<lparr>s_mac := if_mac (h iface_ptr),
                        d_mac := broadcast_mac\<rparr>) m
              in Inr (m, f, a)))"

definition handleFrame ::
    "iheap \<Rightarrow> rtheap \<Rightarrow> mem \<times> frame \<times> ARPTable \<Rightarrow> (mem \<times> frame \<times> ARPTable) result" where
  "handleFrame h th s =
     (let (m, f, a) = s; arp_hdr = load_arp m (buf_ptr f + sizeof_ether) in
      if ethertype (load_ether m (buf_ptr f)) \<noteq> htons 0x0806 then Inr (m, f, a)
      else if ntohs (op arp_hdr) = ucast OP_REQUEST then handleRequest h th (m, f, a)
      else if ntohs (op arp_hdr) = ucast OP_REPLY then bindE (handleReply h th m f a) (\<lambda>a. Inr (m, f, a))
      else Inr (m, f, a))"

end
