(* ===== verification/Worker.thy ===== *)
theory Worker
  imports BasicTrie Checksum ArpTable
begin

text \<open>
  \<^verbatim>\<open>include/worker.hpp\<close> and \<^verbatim>\<open>src/worker.cpp\<close>: the packet path. A worker takes frames from its
  ingress queue, verifies the IPv4 header, decrements the time to live, looks up the next hop and
  rewrites the ethernet header, and puts the frame into its egress queue. The queues are
  \<^verbatim>\<open>moodycamel::ConcurrentQueue\<close> objects, a library: their operations are arguments here. Output
  that exists in debug builds only is left out.
\<close>

section \<open>Header verification\<close>

definition IPv4HdrVerification :: "mem \<Rightarrow> addr \<Rightarrow> u16 \<Rightarrow> bool \<times> mem" where
  "IPv4HdrVerification m ipv4_hdr f_len =
     (if f_len < 20 then (False, m)
      else let (c, m) = IPv4HdrChecksum m ipv4_hdr; hdr = load_ipv4 m ipv4_hdr in
        if c \<noteq> checksum hdr then (False, m)
        else if version hdr \<noteq> 4 then (False, m)
        else if ihl hdr < 5 then (False, m)
        else if unat (ntohs (total_length hdr)) < unat (ihl hdr) * 4 then (False, m)
        else if ttl hdr \<le> 1 then (False, m)
        else (True, m))"

section \<open>One frame\<close>

datatype worker_state = RUN | STOP

record Worker =
  cur_lpm :: trie
  cur_arp_table :: nat
  new_lpm :: trie
  new_arp_table :: nat
  w_interfaces :: "iptr list"
  w_state :: worker_state
  workerId :: u32
  statsNumBatches :: u32
  statsNumFrames :: u32
  statsNumBytes :: u32

definition new_Worker :: "trie \<Rightarrow> nat \<Rightarrow> iptr list \<Rightarrow> u32 \<Rightarrow> Worker" where
  "new_Worker lpm arp ifs wid = \<lparr>cur_lpm = lpm, cur_arp_table = arp, new_lpm = lpm, new_arp_table = arp,
     w_interfaces = ifs, w_state = RUN, workerId = wid, statsNumBatches = 0, statsNumFrames = 0, statsNumBytes = 0\<rparr>"

text \<open>The next hop for an index: an entry of the ARP table, or a directly connected station.\<close>

definition lookup_hop :: "ARPTable \<Rightarrow> nat \<Rightarrow> nh_index \<Rightarrow> u32 \<Rightarrow> nextHop result" where
  "lookup_hop a t ix dst =
     (if ix AND NH_DIRECTLY_CONNECTED = 0
      then if unat ix < length (hops_of a t) then Inr (hops_of a t ! unat ix) else Inl OutOfBounds
      else case directlyConnected a dst of
             Some nh \<Rightarrow> Inr nh
           | None \<Rightarrow> Inr (new_nextHop\<lparr>nh_mac := invalidMac, netmapInterface := ix XOR NH_DIRECTLY_CONNECTED\<rparr>))"

text \<open>The part of the loop body for a verified packet that is not for the router itself.\<close>

definition forward ::
    "(u32 \<Rightarrow> nat \<Rightarrow> u32) \<Rightarrow> iheap \<Rightarrow> ARPTable \<Rightarrow> Worker \<Rightarrow> iptr \<Rightarrow> mem \<Rightarrow> frame \<Rightarrow> (mem \<times> frame) result" where
  "forward ub h a w iface_ptr m f =
     (let ether_hdr = buf_ptr f; ipv4_hdr = buf_ptr f + sizeof_ether;
          m = store_ipv4 ipv4_hdr ((load_ipv4 m ipv4_hdr)\<lparr>ttl := ttl (load_ipv4 m ipv4_hdr) - 1\<rparr>) m;
          m = store_ipv4 ipv4_hdr ((load_ipv4 m ipv4_hdr)\<lparr>checksum := checksum (load_ipv4 m ipv4_hdr) + 1\<rparr>) m;
          dst = ntohl (d_ip (load_ipv4 m ipv4_hdr));
          ix = trie_route ub (cur_lpm w) dst in
      if ix = NH_INVALID then Inl (Fatal ''Worker::process next hop is invalid'')
      else bindE (lookup_hop a (cur_arp_table w) ix dst) (\<lambda>nh.
        if \<not> nextHop_valid nh
        then if netmapInterface nh = uint16_t_max then Inl Abort
             else let f = f\<lparr>iface := netmapInterface nh\<rparr> in Inr (m, f\<lparr>iface := iface f OR IFACE_NOMAC\<rparr>)
        else let m = store_ether ether_hdr ((load_ether m ether_hdr)\<lparr>d_mac := nh_mac nh, s_mac := if_mac (h iface_ptr)\<rparr>) m
             in Inr (m, f\<lparr>iface := netmapInterface nh\<rparr>)))"

text \<open>
  The body of the loop over a batch. The flag says whether the frame is put into the egress queue:
  the branches for a failed verification and for a packet to the router itself leave it out.
\<close>

definition process_frame ::
    "(u32 \<Rightarrow> nat \<Rightarrow> u32) \<Rightarrow> iheap \<Rightarrow> ARPTable \<Rightarrow> Worker \<Rightarrow> mem \<Rightarrow> frame \<Rightarrow> (mem \<times> frame \<times> bool) result" where
  "process_frame ub h a w m f =
     (let ether_hdr = buf_ptr f; ipv4_hdr = buf_ptr f + sizeof_ether in
      case find_iface h (w_interfaces w) (ucast (iface f AND IFACE_ID)) of
        None \<Rightarrow> Inl (Fatal ''Worker::process something went wrong: netmap interface not found in netlink context'')
      | Some iface_ptr \<Rightarrow>
          if ethertype (load_ether m ether_hdr) = htons 0x0800 then
            let (ok, m) = IPv4HdrVerification m ipv4_hdr (frame_len f) in
            if \<not> ok then Inr (m, f\<lparr>iface := IFACE_DISCARD\<rparr>, False)
            else if count_list (IPs (h iface_ptr)) (d_ip (load_ipv4 m ipv4_hdr)) \<noteq> 0
            then Inr (m, f\<lparr>iface := iface f OR IFACE_HOST\<rparr>, False)
            else bindE (forward ub h a w iface_ptr m f) (\<lambda>(m, f). Inr (m, f, True))
          else if ethertype (load_ether m ether_hdr) = htons 0x0806 then
            Inr (m, f\<lparr>iface := iface f OR IFACE_ARP\<rparr>, True)
          else Inr (m, f\<lparr>iface := IFACE_DISCARD\<rparr>, True))"

section \<open>Batches\<close>

definition WORKER_BULK_SIZE :: nat where "WORKER_BULK_SIZE = 512"

text \<open>\<open>enq f q\<close> is \<^verbatim>\<open>try_enqueue\<close>: whether there was room, and the queue afterwards.\<close>

definition process_one ::
    "(u32 \<Rightarrow> nat \<Rightarrow> u32) \<Rightarrow> (frame \<Rightarrow> 'q \<Rightarrow> bool \<times> 'q) \<Rightarrow> iheap \<Rightarrow> ARPTable \<Rightarrow> frame \<Rightarrow>
     Worker \<times> mem \<times> 'q \<Rightarrow> (Worker \<times> mem \<times> 'q) result" where
  "process_one ub enq h a f s =
     (let (w, m, egressQ) = s; w = w\<lparr>statsNumBytes := statsNumBytes w + ucast (frame_len f)\<rparr> in
      bindE (process_frame ub h a w m f) (\<lambda>(m, f, out).
      Inr (w, m, if out then snd (enq f egressQ) else egressQ)))"

text \<open>
  \<open>deq n q\<close> is \<^verbatim>\<open>try_dequeue_bulk\<close>. The loop of \<^verbatim>\<open>process\<close> runs until the ingress queue is empty;
  with \<open>fuel\<close> rounds it gives \<open>None\<close> if the queue still delivers frames then.
\<close>

fun process ::
    "nat \<Rightarrow> (u32 \<Rightarrow> nat \<Rightarrow> u32) \<Rightarrow> (nat \<Rightarrow> 'p \<Rightarrow> frame list \<times> 'p) \<Rightarrow> (frame \<Rightarrow> 'q \<Rightarrow> bool \<times> 'q) \<Rightarrow> iheap \<Rightarrow> ARPTable \<Rightarrow>
     Worker \<times> mem \<times> 'p \<times> 'q \<Rightarrow> (Worker \<times> mem \<times> 'p \<times> 'q) result option" where
  "process 0 ub deq enq h a s = None"
| "process (Suc fuel) ub deq enq h a (w, m, ingressQ, egressQ) =
     (let (fs, ingressQ) = deq WORKER_BULK_SIZE ingressQ in
      if fs = [] then Some (Inr (w, m, ingressQ, egressQ))
      else let w = w\<lparr>statsNumBatches := statsNumBatches w + 1, statsNumFrames := statsNumFrames w + of_nat (length fs)\<rparr> in
        case foldE (process_one ub enq h a) fs (w, m, egressQ) of
          Inl e \<Rightarrow> Some (Inl e)
        | Inr (w, m, egressQ) \<Rightarrow> process fuel ub deq enq h a (w, m, ingressQ, egressQ))"

section \<open>Control\<close>

definition worker_update :: "trie \<Rightarrow> nat \<Rightarrow> Worker \<Rightarrow> Worker" where
  "worker_update lpm arp_table w = w\<lparr>new_lpm := lpm, new_arp_table := arp_table\<rparr>"

definition worker_stop :: "Worker \<Rightarrow> Worker" where
  "worker_stop w = w\<lparr>w_state := STOP\<rparr>"

definition worker_stats :: "Worker \<Rightarrow> string" where
  "worker_stats w = ''Worker '' @ string_of_nat (unat (workerId w)) @ '': '' @
     (if statsNumFrames w > 0 \<and> statsNumBatches w > 0
      then ''Avg. batch size: '' @ string_of_nat (unat (statsNumFrames w div statsNumBatches w)) @ '', ''
      else ''Avg. batch size: -, '') @
     ''#Frames: '' @ string_of_nat (unat (statsNumFrames w)) @ '', '' @
     ''#Batches: '' @ string_of_nat (unat (statsNumBatches w)) @ '', '' @
     ''#Bytes: '' @ string_of_nat (unat (statsNumBytes w))"

definition printAndClearStats :: "Worker \<Rightarrow> string \<times> Worker" where
  "printAndClearStats w = (worker_stats w @ endl, w\<lparr>statsNumFrames := 0, statsNumBatches := 0, statsNumBytes := 0\<rparr>)"

text \<open>
  \<^verbatim>\<open>run\<close>: the state is set to \<^verbatim>\<open>RUN\<close>, then \<^verbatim>\<open>process\<close> is called until another thread has stored
  \<^verbatim>\<open>STOP\<close>. What the other threads do between two rounds, to the state and to the queues, is the
  list of functions \<open>env\<close>; the run is observed for as many rounds as it has.
\<close>

fun run_loop ::
    "(Worker \<times> 's \<Rightarrow> (Worker \<times> 's) result option) \<Rightarrow> (Worker \<times> 's \<Rightarrow> Worker \<times> 's) list \<Rightarrow>
     Worker \<times> 's \<Rightarrow> (Worker \<times> 's) result option" where
  "run_loop body [] s = None"
| "run_loop body (env # envs) s =
     (if w_state (fst s) = RUN
      then case body s of
             None \<Rightarrow> None
           | Some (Inl e) \<Rightarrow> Some (Inl e)
           | Some (Inr s) \<Rightarrow> run_loop body envs (env s)
      else Some (Inr s))"

definition worker_run ::
    "nat \<Rightarrow> (u32 \<Rightarrow> nat \<Rightarrow> u32) \<Rightarrow> (nat \<Rightarrow> 'p \<Rightarrow> frame list \<times> 'p) \<Rightarrow> (frame \<Rightarrow> 'q \<Rightarrow> bool \<times> 'q) \<Rightarrow> iheap \<Rightarrow> ARPTable \<Rightarrow>
     (Worker \<times> mem \<times> 'p \<times> 'q \<Rightarrow> Worker \<times> mem \<times> 'p \<times> 'q) list \<Rightarrow>
     Worker \<times> mem \<times> 'p \<times> 'q \<Rightarrow> (Worker \<times> mem \<times> 'p \<times> 'q) result option" where
  "worker_run fuel ub deq enq h a envs s =
     (case s of (w, rest) \<Rightarrow> run_loop (process fuel ub deq enq h a) envs (w\<lparr>w_state := RUN\<rparr>, rest))"

end
