(* ===== verification/WorkerPath.thy ===== *)
theory WorkerPath
  imports Worker "HOL-Library.Multiset"
begin

text \<open>
  Correctness of the packet path: what a worker does with each kind of frame, stated against the
  longest-prefix specification of the routing table, what it may write, which frames it passes on,
  and that a round ends.
\<close>

section \<open>Verification and the header update\<close>

definition verified :: "mem \<Rightarrow> addr \<Rightarrow> u16 \<Rightarrow> bool" where
  "verified m p flen \<longleftrightarrow> (let hdr = load_ipv4 m p in 20 \<le> flen \<and> fst (IPv4HdrChecksum m p) = checksum hdr \<and>
     version hdr = 4 \<and> 5 \<le> ihl hdr \<and> unat (ihl hdr) * 4 \<le> unat (ntohs (total_length hdr)) \<and> 1 < ttl hdr)"

lemma IPv4HdrVerification_eq: "IPv4HdrVerification m p flen = (verified m p flen, m)"
proof -
  obtain c where c: "IPv4HdrChecksum m p = (c, m)" using checksum_value(2) [of m p] by (metis prod.collapse)
  then show ?thesis by (auto simp: IPv4HdrVerification_def verified_def Let_def)
qed

lemma verified_ttl_step:
  assumes "verified m p flen"
  shows "fst (IPv4HdrChecksum m p) = checksum (load_ipv4 m p)" "5 \<le> unat (ihl (load_ipv4 m p))" "ttl (load_ipv4 m p) \<noteq> 0"
  using assms by (auto simp: verified_def Let_def word_le_nat_alt)

lemma forward_eq:
  "forward ub h a w q m f =
     (let p = buf_ptr f + sizeof_ether; m' = store_ipv4 p (ttl_step (load_ipv4 m p)) m;
          dst = ntohl (d_ip (load_ipv4 m p)); ix = trie_route ub (cur_lpm w) dst in
      if ix = NH_INVALID then Inl (Fatal ''Worker::process next hop is invalid'')
      else bindE (lookup_hop a (cur_arp_table w) ix dst) (\<lambda>nh.
        if \<not> nextHop_valid nh
        then if netmapInterface nh = uint16_t_max then Inl Abort
             else Inr (m', f\<lparr>iface := netmapInterface nh OR IFACE_NOMAC\<rparr>)
        else Inr (store_ether (buf_ptr f) ((load_ether m (buf_ptr f))\<lparr>d_mac := nh_mac nh, s_mac := if_mac (h q)\<rparr>) m',
               f\<lparr>iface := netmapInterface nh\<rparr>)))"
  by (simp add: forward_def Let_def ip.store_store ip.load_store eth_ip.load_disjoint cong: if_cong)

section \<open>Batches\<close>

text \<open>
  What the router relies on of the concurrent queue: a bulk dequeue hands out some of the elements,
  at most as many as asked for, and an enqueue adds the element or reports that it did not. A
  dequeue may come back with nothing although there are elements: that it finds some whenever
  there are any is a law of its own, which only the statements that need it assume.
\<close>

definition deq_ok :: "(nat \<Rightarrow> 'p \<Rightarrow> frame list \<times> 'p) \<Rightarrow> ('p \<Rightarrow> frame multiset) \<Rightarrow> bool" where
  "deq_ok deq elems \<longleftrightarrow> (\<forall>n q. mset (fst (deq n q)) + elems (snd (deq n q)) = elems q \<and> length (fst (deq n q)) \<le> n)"

definition deq_finds :: "(nat \<Rightarrow> 'p \<Rightarrow> frame list \<times> 'p) \<Rightarrow> ('p \<Rightarrow> frame multiset) \<Rightarrow> bool" where
  "deq_finds deq elems \<longleftrightarrow> (\<forall>n q. n \<noteq> 0 \<and> elems q \<noteq> {#} \<longrightarrow> fst (deq n q) \<noteq> [])"

definition enq_ok :: "(frame \<Rightarrow> 'q \<Rightarrow> bool \<times> 'q) \<Rightarrow> ('q \<Rightarrow> frame multiset) \<Rightarrow> bool" where
  "enq_ok enq elems \<longleftrightarrow> (\<forall>f q. elems (snd (enq f q)) = (if fst (enq f q) then add_mset f (elems q) else elems q))"

lemma process_one_stats:
  assumes "process_one ub enq h a f (w, m, q) = Inr (w', m', q')"
  shows "w' = w\<lparr>statsNumBytes := statsNumBytes w + ucast (frame_len f)\<rparr>"
  using assms by (auto simp: process_one_def Let_def elim!: bindE_InrE)

lemma batch_stats:
  "foldE (process_one ub enq h a) fs (w, m, q) = Inr (w', m', q') \<Longrightarrow>
   w' = w\<lparr>statsNumBytes := statsNumBytes w + (\<Sum>f\<leftarrow>fs. ucast (frame_len f))\<rparr>"
proof (induction fs arbitrary: w m q)
  case (Cons f fs)
  then obtain w1 m1 q1 where s: "process_one ub enq h a f (w, m, q) = Inr (w1, m1, q1)"
    and r: "foldE (process_one ub enq h a) fs (w1, m1, q1) = Inr (w', m', q')"
    by (auto elim!: bindE_InrE)
  show ?case using Cons.IH [OF r] process_one_stats [OF s] by (simp add: add.assoc)
qed simp

lemma process_returns:
  assumes "deq_ok deq elems" "size (elems inq) < fuel"
  shows "\<exists>r. process fuel ub deq enq h a (w, m, inq, outq) = Some r"
  using assms(2)
proof (induction fuel arbitrary: w m inq outq)
  case (Suc fuel)
  obtain fs inq' where d: "deq WORKER_BULK_SIZE inq = (fs, inq')" by (cases "deq WORKER_BULK_SIZE inq")
  then have e: "mset fs + elems inq' = elems inq" using assms(1) unfolding deq_ok_def by (metis fst_conv snd_conv)
  show ?case
  proof (cases "fs = []")
    case False
    have "size (elems inq) = length fs + size (elems inq')" using e by (metis size_mset size_union)
    with False Suc.prems have "size (elems inq') < fuel" by (cases fs) auto
    with Suc.IH d False show ?thesis by (auto simp: Let_def split: sum.splits)
  qed (use d in simp)
qed simp

text \<open>The counters have no influence on what happens to a frame.\<close>

abbreviation with_stats :: "Worker \<Rightarrow> u32 \<Rightarrow> u32 \<Rightarrow> u32 \<Rightarrow> Worker" where
  "with_stats w b n l \<equiv> w\<lparr>statsNumBatches := b, statsNumFrames := n, statsNumBytes := l\<rparr>"

lemma process_frame_stats: "process_frame ub h a (with_stats w b n l) m f = process_frame ub h a w m f"
proof -
  have "forward ub h a (with_stats w b n l) q m f = forward ub h a w q m f" for q m
    by (simp add: forward_eq Let_def)
  then show ?thesis by (auto simp: process_frame_def Let_def IPv4HdrVerification_eq split: option.splits)
qed

lemma batch_with_stats:
  "foldE (process_one ub enq h a) fs (with_stats w b n l, m, q) = Inr (w', m', q') \<Longrightarrow>
   \<exists>l'. foldE (process_one ub enq h a) fs (w, m, q) = Inr (w\<lparr>statsNumBytes := l'\<rparr>, m', q')"
proof (induction fs arbitrary: l w m q)
  case Nil
  then show ?case by (intro exI [of _ "statsNumBytes w"]) simp
next
  case (Cons f fs)
  let ?l = "l + ucast (frame_len f)" and ?v = "w\<lparr>statsNumBytes := statsNumBytes w + ucast (frame_len f)\<rparr>"
  have same: "process_frame ub h a (with_stats w b n ?l) m f = process_frame ub h a ?v m f"
    using process_frame_stats [where w = w and b = "statsNumBatches w" and n = "statsNumFrames w"] by (simp add: process_frame_stats)
  obtain x where x: "process_one ub enq h a f (with_stats w b n l, m, q) = Inr x"
    and r: "foldE (process_one ub enq h a) fs x = Inr (w', m', q')" using Cons.prems by (auto simp: bindE_Inr_iff)
  obtain m1 f1 out where p: "process_frame ub h a ?v m f = Inr (m1, f1, out)"
    and x': "x = (with_stats ?v b n ?l, m1, if out then snd (enq f1 q) else q)"
    using x same by (auto simp: process_one_def Let_def bindE_Inr_iff)
  have "process_one ub enq h a f (w, m, q) = Inr (?v, m1, if out then snd (enq f1 q) else q)" using p by (simp add: process_one_def)
  with Cons.IH [OF r [unfolded x']] show ?case by auto
qed

lemma process_round:
  assumes "deq_ok deq elems"
  shows "process fuel ub deq enq h a (w, m, inq, outq) = Some (Inr (w', m', inq', outq')) \<Longrightarrow>
    (\<exists>q. deq WORKER_BULK_SIZE q = ([], inq')) \<and> (\<exists>fs l b. elems inq = mset fs + elems inq' \<and>
      foldE (process_one ub enq h a) fs (w, m, outq) = Inr (w\<lparr>statsNumBytes := l\<rparr>, m', outq') \<and>
      w' = with_stats w b (statsNumFrames w + of_nat (length fs)) (statsNumBytes w + (\<Sum>f\<leftarrow>fs. ucast (frame_len f))))"
proof (induction fuel arbitrary: w m inq outq)
  case (Suc fuel)
  obtain fs q where d: "deq WORKER_BULK_SIZE inq = (fs, q)" by (cases "deq WORKER_BULK_SIZE inq")
  then have e: "elems inq = mset fs + elems q" using assms unfolding deq_ok_def by (metis fst_conv snd_conv)
  show ?case
  proof (cases "fs = []")
    case True
    then have "w' = w" "m' = m" "inq' = q" "outq' = outq" using Suc.prems d by (auto simp: Let_def)
    with True d e show ?thesis
      by (intro conjI exI [of _ "[] :: frame list"] exI [of _ "statsNumBytes w"] exI [of _ "statsNumBatches w"]) auto
  next
    case False
    let ?w = "with_stats w (statsNumBatches w + 1) (statsNumFrames w + of_nat (length fs)) (statsNumBytes w)"
    obtain w1 m1 q1 where f: "foldE (process_one ub enq h a) fs (?w, m, outq) = Inr (w1, m1, q1)"
      and r: "process fuel ub deq enq h a (w1, m1, q, q1) = Some (Inr (w', m', inq', outq'))"
      using Suc.prems d False by (auto simp: Let_def split: sum.splits)
    have w1: "w1 = with_stats w (statsNumBatches w + 1) (statsNumFrames w + of_nat (length fs))
        (statsNumBytes w + (\<Sum>f\<leftarrow>fs. ucast (frame_len f)))" using batch_stats [OF f] by simp
    obtain l1 where f1: "foldE (process_one ub enq h a) fs (w, m, outq) = Inr (w\<lparr>statsNumBytes := l1\<rparr>, m1, q1)"
      using batch_with_stats [OF f] by blast
    from Suc.IH [OF r] obtain gs l b where z: "\<exists>q. deq WORKER_BULK_SIZE q = ([], inq')" and g: "elems q = mset gs + elems inq'"
      "foldE (process_one ub enq h a) gs (w1, m1, q1) = Inr (w1\<lparr>statsNumBytes := l\<rparr>, m', outq')"
      "w' = with_stats w1 b (statsNumFrames w1 + of_nat (length gs)) (statsNumBytes w1 + (\<Sum>f\<leftarrow>gs. ucast (frame_len f)))" by blast
    have "with_stats (w\<lparr>statsNumBytes := l1\<rparr>) (statsNumBatches w1) (statsNumFrames w1) (statsNumBytes w1) = w1" by (simp add: w1)
    then obtain l2 where "foldE (process_one ub enq h a) gs (w\<lparr>statsNumBytes := l1\<rparr>, m1, q1) = Inr (w\<lparr>statsNumBytes := l2\<rparr>, m', outq')"
      using batch_with_stats [where w = "w\<lparr>statsNumBytes := l1\<rparr>" and b = "statsNumBatches w1" and n = "statsNumFrames w1" and l = "statsNumBytes w1"] g(2)
      by fastforce
    then have "foldE (process_one ub enq h a) (fs @ gs) (w, m, outq) = Inr (w\<lparr>statsNumBytes := l2\<rparr>, m', outq')"
      using f1 by (simp add: foldE_append)
    moreover have "elems inq = mset (fs @ gs) + elems inq'" using e g(1) by simp
    moreover have "w' = with_stats w b (statsNumFrames w + of_nat (length (fs @ gs))) (statsNumBytes w + (\<Sum>f\<leftarrow>fs @ gs. ucast (frame_len f)))"
      using g(3) by (simp add: w1 add.assoc)
    ultimately show ?thesis using z by blast
  qed
qed simp

section \<open>Where frames go\<close>

text \<open>The branches of the loop body, in terms of the specification.\<close>

lemma process_frame_ipv4:
  assumes "find_iface h (w_interfaces w) (ucast (iface f AND IFACE_ID)) = Some q"
    and "ethertype (load_ether m (buf_ptr f)) = htons 0x0800"
  shows "process_frame ub h a w m f =
    (if \<not> verified m (buf_ptr f + sizeof_ether) (frame_len f) then Inr (m, f\<lparr>iface := IFACE_DISCARD\<rparr>, False)
     else if d_ip (load_ipv4 m (buf_ptr f + sizeof_ether)) \<in> set (IPs (h q))
     then Inr (m, f\<lparr>iface := iface f OR IFACE_HOST\<rparr>, False)
     else bindE (forward ub h a w q m f) (\<lambda>(m, f). Inr (m, f, True)))"
  using assms by (simp add: process_frame_def Let_def IPv4HdrVerification_eq count_list_0_iff)

lemma process_frame_other:
  assumes "find_iface h (w_interfaces w) (ucast (iface f AND IFACE_ID)) = Some q"
    and "ethertype (load_ether m (buf_ptr f)) \<noteq> htons 0x0800"
  shows "process_frame ub h a w m f =
    Inr (m, f\<lparr>iface := (if ethertype (load_ether m (buf_ptr f)) = htons 0x0806 then iface f OR IFACE_ARP else IFACE_DISCARD)\<rparr>, True)"
  using assms by (simp add: process_frame_def Let_def)

lemma process_frame_port:
  assumes "process_frame ub h a w m f = Inr r"
  obtains q where "find_iface h (w_interfaces w) (ucast (iface f AND IFACE_ID)) = Some q"
  using assms by (auto simp: process_frame_def Let_def split: option.splits)

lemma forward_footprint:
  assumes "forward ub h a w q m f = Inr (m', f')"
  shows "(\<forall>x. x < buf_ptr f \<or> buf_ptr f + 34 \<le> x \<longrightarrow> m' x = m x) \<and> (\<exists>i. f' = f\<lparr>iface := i\<rparr>)"
  using assms unfolding forward_eq Let_def
  by (auto elim!: bindE_InrE split: if_splits
      simp: ip.store_outside eth.store_outside sizeof_ether_def sizeof_ipv4_def)

lemma hdr_sum_store_ether: "hdr_sum (store_ether p e m) (p + sizeof_ether) = hdr_sum m (p + sizeof_ether)"
proof -
  have l: "load_ipv4 (store_ether p e m) (p + sizeof_ether) = load_ipv4 m (p + sizeof_ether)"
    by (rule eth_ip.load_disjoint') simp
  have "store_ether p e m x = m x" if "p + sizeof_ether \<le> x" for x
    using that by (intro eth.store_outside) simp
  then have "rd16 (store_ether p e m) (p + sizeof_ether + 2 * i) = rd16 m (p + sizeof_ether + 2 * i)" for i
    by (intro f16.load_unchanged) simp
  then show ?thesis unfolding hdr_sum_def l by (intro arg_cong [where f = sum_list]) simp
qed

text \<open>A verified packet with a resolved next hop.\<close>

lemma process_frame_best:
  assumes "find_iface h (w_interfaces w) (ucast (iface f AND IFACE_ID)) = Some q"
    and "ethertype (load_ether m (buf_ptr f)) = htons 0x0800"
    and "verified m (buf_ptr f + sizeof_ether) (frame_len f)"
    and "d_ip (load_ipv4 m (buf_ptr f + sizeof_ether)) \<notin> set (IPs (h q))"
    and "lpm_ready es" "buildTrie ub es = Inr (cur_lpm w)"
    and "is_best (routes es) (ntohl (d_ip (load_ipv4 m (buf_ptr f + sizeof_ether)))) r"
    and "lookup_hop a (cur_arp_table w) (index r) (ntohl (d_ip (load_ipv4 m (buf_ptr f + sizeof_ether)))) = Inr nh"
    and "nextHop_valid nh"
  shows "\<exists>m'. process_frame ub h a w m f = Inr (m', f\<lparr>iface := netmapInterface nh\<rparr>, True) \<and>
    load_ether m' (buf_ptr f) = \<lparr>d_mac = nh_mac nh, s_mac = if_mac (h q), ethertype = htons 0x0800\<rparr> \<and>
    load_ipv4 m' (buf_ptr f + sizeof_ether) = ttl_step (load_ipv4 m (buf_ptr f + sizeof_ether)) \<and>
    oc (hdr_sum m' (buf_ptr f + sizeof_ether) + unat (ntohs (checksum (load_ipv4 m' (buf_ptr f + sizeof_ether))))) = 65535 \<and>
    (\<forall>x. x < buf_ptr f \<or> buf_ptr f + 34 \<le> x \<longrightarrow> m' x = m x)"
proof -
  let ?p = "buf_ptr f + sizeof_ether"
  let ?m = "store_ipv4 ?p (ttl_step (load_ipv4 m ?p)) m"
  let ?e = "(load_ether m (buf_ptr f))\<lparr>d_mac := nh_mac nh, s_mac := if_mac (h q)\<rparr>"
  have "trie_route ub (cur_lpm w) (ntohl (d_ip (load_ipv4 m ?p))) = index r"
    using bt.hit [OF assms(5-7)] by simp
  moreover have "index r \<noteq> NH_INVALID" using assms(5,7) by (simp add: lpm_ready_def is_best_def)
  ultimately have fw: "forward ub h a w q m f = Inr (store_ether (buf_ptr f) ?e ?m, f\<lparr>iface := netmapInterface nh\<rparr>)"
    using assms(8,9) by (simp add: forward_eq Let_def)
  moreover have "load_ether (store_ether (buf_ptr f) ?e ?m) (buf_ptr f) =
      \<lparr>d_mac = nh_mac nh, s_mac = if_mac (h q), ethertype = htons 0x0800\<rparr>"
    using assms(2) by (cases "load_ether m (buf_ptr f)") (simp add: eth.load_store)
  moreover have l: "load_ipv4 (store_ether (buf_ptr f) ?e ?m) ?p = ttl_step (load_ipv4 m ?p)"
    by (simp add: eth_ip.load_disjoint' ip.load_store)
  moreover have "oc (hdr_sum ?m ?p + unat (ntohs (checksum (load_ipv4 ?m ?p)))) = 65535"
    by (rule ttl_step_sum(1) [OF verified_ttl_step [OF assms(3)]])
  then have "oc (hdr_sum (store_ether (buf_ptr f) ?e ?m) ?p +
      unat (ntohs (checksum (load_ipv4 (store_ether (buf_ptr f) ?e ?m) ?p)))) = 65535"
    unfolding hdr_sum_store_ether l by (simp add: ip.load_store)
  ultimately show ?thesis
    using forward_footprint [OF fw] assms(3,4) by (simp add: process_frame_ipv4 [OF assms(1,2)])
qed

section \<open>Properties\<close>

text \<open>
  C2: a packet that passes the header verification and is not for the router leaves with the
  address of the next hop that belongs to the best route of its destination, on that hop's port,
  with its time to live decremented and a header that still sums up; its source address becomes
  that of the port it came in on, and nothing else of the buffer changes.
\<close>

theorem process_frame_forwards:
  assumes "find_iface h (w_interfaces w) (ucast (iface f AND IFACE_ID)) = Some q"
    and "ethertype (load_ether m (buf_ptr f)) = htons 0x0800"
    and "verified m (buf_ptr f + sizeof_ether) (frame_len f)"
    and "d_ip (load_ipv4 m (buf_ptr f + sizeof_ether)) \<notin> set (IPs (h q))"
    and "lpm_ready es" "buildTrie ub es = Inr (cur_lpm w)"
    and "is_best (routes es) (ntohl (d_ip (load_ipv4 m (buf_ptr f + sizeof_ether)))) r"
    and "lookup_hop a (cur_arp_table w) (index r) (ntohl (d_ip (load_ipv4 m (buf_ptr f + sizeof_ether)))) = Inr nh"
    and "nextHop_valid nh"
  shows "\<exists>m'. process_frame ub h a w m f = Inr (m', f\<lparr>iface := netmapInterface nh\<rparr>, True) \<and>
    load_ether m' (buf_ptr f) = \<lparr>d_mac = nh_mac nh, s_mac = if_mac (h q), ethertype = htons 0x0800\<rparr> \<and>
    load_ipv4 m' (buf_ptr f + sizeof_ether) = ttl_step (load_ipv4 m (buf_ptr f + sizeof_ether)) \<and>
    oc (hdr_sum m' (buf_ptr f + sizeof_ether) + unat (ntohs (checksum (load_ipv4 m' (buf_ptr f + sizeof_ether))))) = 65535 \<and>
    (\<forall>x. x < buf_ptr f \<or> buf_ptr f + 34 \<le> x \<longrightarrow> m' x = m x)"
  by (rule process_frame_best [OF assms])

text \<open>A worker of the sample router whose third next hop is resolved.\<close>

definition worker_arp :: ARPTable where
  "worker_arp = (new_ARPTable [1, 2])\<lparr>tables := [[], [new_nextHop, new_nextHop, \<lparr>nh_mac = Mac 2 0 0 0 9 9, netmapInterface = 1\<rparr>]],
     currentTable := 1\<rparr>"

definition port_heap :: iheap where
  "port_heap i = new_Interface\<lparr>if_mac := Mac 2 0 0 0 1 (of_nat i), netmapIndex := of_nat i,
     IPs := [0x0A000001 + push_bit 8 (of_nat i)]\<rparr>"

abbreviation test_frame :: frame where
  "test_frame \<equiv> new_frame\<lparr>frame_len := 98, iface := 2\<rparr>"

lemma test_frame_facts:
  "find_iface port_heap [1, 2] (ucast (iface test_frame AND IFACE_ID)) = Some 2"
  "ethertype (load_ether test_packet (buf_ptr test_frame)) = htons 0x0800"
  "verified test_packet (buf_ptr test_frame + sizeof_ether) (frame_len test_frame)"
  "d_ip (load_ipv4 test_packet (buf_ptr test_frame + sizeof_ether)) \<notin> set (IPs (port_heap 2))"
  "ntohl (d_ip (load_ipv4 test_packet (buf_ptr test_frame + sizeof_ether))) = 0x10000040"
  by code_simp+

lemma test_trie:
  obtains t where "buildTrie (\<lambda>_ _. 0) test_numbered = Inr t"
  using bt.builds [OF ready_test_numbered] by blast

theorem process_frame_forwards_witness:
  "\<exists>t m'. buildTrie (\<lambda>_ _. 0) test_numbered = Inr t \<and>
     process_frame (\<lambda>_ _. 0) port_heap worker_arp (new_Worker t 1 [1, 2] 0) test_packet test_frame =
       Inr (m', test_frame\<lparr>iface := 1\<rparr>, True) \<and>
     d_mac (load_ether m' 0) = Mac 2 0 0 0 9 9 \<and> ttl (load_ipv4 m' 14) = 63"
proof -
  obtain t where t: "buildTrie (\<lambda>_ _. 0) test_numbered = Inr t" by (rule test_trie)
  let ?w = "new_Worker t 1 [1, 2] 0" and ?nh = "\<lparr>nh_mac = Mac 2 0 0 0 9 9, netmapInterface = 1\<rparr> :: nextHop"
  have nh: "lookup_hop worker_arp 1 (index test_best) 0x10000040 = Inr ?nh"
    by (simp add: test_best_index lookup_hop_def worker_arp_def hops_of_def NH_DIRECTLY_CONNECTED_def)
  have v: "nextHop_valid ?nh" by (simp add: nextHop_valid_def invalidMac_def uint16_t_max_def)
  have w: "w_interfaces ?w = [1, 2]" "cur_lpm ?w = t" "cur_arp_table ?w = 1" by (simp_all add: new_Worker_def)
  have 64: "ttl (load_ipv4 test_packet 14) = 64" by code_simp
  show ?thesis
    using process_frame_forwards [of port_heap ?w test_frame 2 test_packet test_numbered "\<lambda>_ _. 0" test_best worker_arp ?nh]
      test_frame_facts ready_test_numbered t test_best nh v 64 unfolding w
    by (auto simp: new_frame_def sizeof_ether_def)
qed

text \<open>
  If the address of the next hop is not known yet, the frame goes to the manager with the port
  of the hop and the flag for a missing address; its ethernet header is left as it was.
\<close>

theorem process_frame_unresolved:
  assumes "find_iface h (w_interfaces w) (ucast (iface f AND IFACE_ID)) = Some q"
    and "ethertype (load_ether m (buf_ptr f)) = htons 0x0800"
    and "verified m (buf_ptr f + sizeof_ether) (frame_len f)"
    and "d_ip (load_ipv4 m (buf_ptr f + sizeof_ether)) \<notin> set (IPs (h q))"
    and "lpm_ready es" "buildTrie ub es = Inr (cur_lpm w)"
    and "is_best (routes es) (ntohl (d_ip (load_ipv4 m (buf_ptr f + sizeof_ether)))) r"
    and "lookup_hop a (cur_arp_table w) (index r) (ntohl (d_ip (load_ipv4 m (buf_ptr f + sizeof_ether)))) = Inr nh"
    and "nh_mac nh = zero_mac" "netmapInterface nh \<noteq> uint16_t_max"
  shows "\<exists>m'. process_frame ub h a w m f = Inr (m', f\<lparr>iface := netmapInterface nh OR IFACE_NOMAC\<rparr>, True) \<and>
    load_ether m' (buf_ptr f) = load_ether m (buf_ptr f) \<and>
    load_ipv4 m' (buf_ptr f + sizeof_ether) = ttl_step (load_ipv4 m (buf_ptr f + sizeof_ether))"
proof -
  let ?p = "buf_ptr f + sizeof_ether"
  have "trie_route ub (cur_lpm w) (ntohl (d_ip (load_ipv4 m ?p))) = index r"
    using bt.hit [OF assms(5-7)] by simp
  moreover have "index r \<noteq> NH_INVALID" using assms(5,7) by (simp add: lpm_ready_def is_best_def)
  ultimately show ?thesis using assms(3,4,8-10)
    by (simp add: process_frame_ipv4 [OF assms(1,2)] forward_eq Let_def nextHop_valid_def invalidMac_def
        eth_ip.load_disjoint ip.load_store)
qed

theorem process_frame_unresolved_witness:
  "\<exists>t m'. buildTrie (\<lambda>_ _. 0) test_numbered = Inr t \<and>
     process_frame (\<lambda>_ _. 0) port_heap (worker_arp\<lparr>tables := [[], replicate 3 \<lparr>nh_mac = zero_mac, netmapInterface = 1\<rparr>]\<rparr>)
       (new_Worker t 1 [1, 2] 0) test_packet test_frame = Inr (m', test_frame\<lparr>iface := 1 OR IFACE_NOMAC\<rparr>, True)"
proof -
  obtain t where t: "buildTrie (\<lambda>_ _. 0) test_numbered = Inr t" by (rule test_trie)
  let ?w = "new_Worker t 1 [1, 2] 0" and ?nh = "\<lparr>nh_mac = zero_mac, netmapInterface = 1\<rparr> :: nextHop"
  let ?a = "worker_arp\<lparr>tables := [[], replicate 3 ?nh]\<rparr>"
  have nh: "lookup_hop ?a 1 (index test_best) 0x10000040 = Inr ?nh"
    by (simp add: test_best_index lookup_hop_def worker_arp_def hops_of_def NH_DIRECTLY_CONNECTED_def)
  have w: "w_interfaces ?w = [1, 2]" "cur_lpm ?w = t" "cur_arp_table ?w = 1" by (simp_all add: new_Worker_def)
  show ?thesis
    using process_frame_unresolved [of port_heap ?w test_frame 2 test_packet test_numbered "\<lambda>_ _. 0" test_best ?a ?nh]
      test_frame_facts ready_test_numbered t test_best nh unfolding w
    by (auto simp: uint16_t_max_def)
qed

text \<open>
  C36: a verified packet to an address that no route covers does not get dropped: it terminates the
  router.
\<close>

theorem process_frame_no_route:
  assumes "find_iface h (w_interfaces w) (ucast (iface f AND IFACE_ID)) = Some q"
    and "ethertype (load_ether m (buf_ptr f)) = htons 0x0800"
    and "verified m (buf_ptr f + sizeof_ether) (frame_len f)"
    and "d_ip (load_ipv4 m (buf_ptr f + sizeof_ether)) \<notin> set (IPs (h q))"
    and "lpm_ready es" "buildTrie ub es = Inr (cur_lpm w)"
    and "\<And>r. r \<in> routes es \<Longrightarrow> \<not> covers r (ntohl (d_ip (load_ipv4 m (buf_ptr f + sizeof_ether))))"
  shows "process_frame ub h a w m f = Inl (Fatal ''Worker::process next hop is invalid'')"
proof -
  have "trie_route ub (cur_lpm w) (ntohl (d_ip (load_ipv4 m (buf_ptr f + sizeof_ether)))) = NH_INVALID"
    using bt.miss [OF assms(5-7)] by simp
  then show ?thesis using assms(3,4) by (simp add: process_frame_ipv4 [OF assms(1,2)] forward_eq Let_def)
qed

lemma ready_empty: "lpm_ready (replicate 33 [])"
  by (simp add: lpm_ready_def wf_rib_def wf_bucket_def routes_def)

theorem process_frame_no_route_witness:
  "\<exists>t. buildTrie (\<lambda>_ _. 0) (replicate 33 []) = Inr t \<and>
     process_frame (\<lambda>_ _. 0) port_heap worker_arp (new_Worker t 1 [1, 2] 0) test_packet test_frame =
       Inl (Fatal ''Worker::process next hop is invalid'')"
proof -
  obtain t where t: "buildTrie (\<lambda>_ _. 0) (replicate 33 []) = Inr t" using bt.builds [OF ready_empty] by blast
  let ?w = "new_Worker t 1 [1, 2] 0"
  have w: "w_interfaces ?w = [1, 2]" "cur_lpm ?w = t" by (simp_all add: new_Worker_def)
  show ?thesis
    using process_frame_no_route [of port_heap ?w test_frame 2 test_packet "replicate 33 []" "\<lambda>_ _. 0" worker_arp]
      test_frame_facts ready_empty t unfolding w by (simp add: routes_def)
qed

text \<open>
  C25: whatever arrives, processing a frame writes at most the ethernet and IPv4 header in its buffer
  and keeps its buffer, length and tag; and exactly the packets that fail the verification or carry
  an address of the receiving port as destination are not passed on, so that their buffers never
  return to the manager.
\<close>

theorem process_frame_footprint:
  assumes "process_frame ub h a w m f = Inr (m', f', out)"
  shows "(\<forall>x. x < buf_ptr f \<or> buf_ptr f + 34 \<le> x \<longrightarrow> m' x = m x) \<and> (\<exists>i. f' = f\<lparr>iface := i\<rparr>) \<and>
    (\<not> out \<longleftrightarrow> ethertype (load_ether m (buf_ptr f)) = htons 0x0800 \<and>
      (\<not> verified m (buf_ptr f + sizeof_ether) (frame_len f) \<or>
       (\<exists>q. find_iface h (w_interfaces w) (ucast (iface f AND IFACE_ID)) = Some q \<and>
          d_ip (load_ipv4 m (buf_ptr f + sizeof_ether)) \<in> set (IPs (h q)))))"
proof -
  obtain q where q: "find_iface h (w_interfaces w) (ucast (iface f AND IFACE_ID)) = Some q"
    by (rule process_frame_port [OF assms])
  show ?thesis
  proof (cases "ethertype (load_ether m (buf_ptr f)) = htons 0x0800")
    case True
    with assms q show ?thesis unfolding process_frame_ipv4 [OF q True]
      by (auto split: if_splits elim!: bindE_InrE dest: forward_footprint)
  next
    case False
    with assms show ?thesis unfolding process_frame_other [OF q False] by auto
  qed
qed

theorem process_frame_footprint_witness:
  "\<exists>m' f'. process_frame (\<lambda>_ _. 0) port_heap worker_arp (new_Worker new_Internal 1 [1, 2] 0) test_packet
      (test_frame\<lparr>frame_len := 19\<rparr>) = Inr (m', f', False) \<and> m' 34 = test_packet 34"
proof -
  have "process_frame (\<lambda>_ _. 0) port_heap worker_arp (new_Worker new_Internal 1 [1, 2] 0) test_packet
      (test_frame\<lparr>frame_len := 19\<rparr>) = Inr (test_packet, test_frame\<lparr>frame_len := 19, iface := IFACE_DISCARD\<rparr>, False)"
    using test_frame_facts(1,2) by (subst process_frame_ipv4 [of _ _ _ 2]) (auto simp: verified_def new_Worker_def Let_def)
  from process_frame_footprint [OF this] this show ?thesis by (auto simp: new_frame_def)
qed


text \<open>A queue that hands out its elements in order and has room for 1024 of them.\<close>

definition list_deq :: "nat \<Rightarrow> frame list \<Rightarrow> frame list \<times> frame list" where
  "list_deq n q = (take n q, drop n q)"

definition list_enq :: "frame \<Rightarrow> frame list \<Rightarrow> bool \<times> frame list" where
  "list_enq f q = (if length q < 1024 then (True, q @ [f]) else (False, q))"

lemma list_deq_ok: "deq_ok list_deq mset"
  by (auto simp: deq_ok_def list_deq_def simp flip: mset_append)

lemma list_deq_finds: "deq_finds list_deq mset"
  by (simp add: deq_finds_def list_deq_def)

text \<open>Two frames of a protocol the router does not know come back marked.\<close>

lemma unknown_frames:
  "process 3 (\<lambda>_ _. 0) list_deq list_enq port_heap worker_arp
     (new_Worker new_Internal 1 [1, 2] 0, \<lambda>_. 0, [test_frame, test_frame], []) =
   Some (Inr ((new_Worker new_Internal 1 [1, 2] 0)\<lparr>statsNumBatches := 1, statsNumFrames := 2, statsNumBytes := 196\<rparr>, \<lambda>_. 0, [],
     [test_frame\<lparr>iface := IFACE_DISCARD\<rparr>, test_frame\<lparr>iface := IFACE_DISCARD\<rparr>]))"
proof -
  have "find_iface port_heap [1, 2] (ucast (iface test_frame AND IFACE_ID)) = Some 2"
    "ethertype (load_ether (\<lambda>_. 0) (buf_ptr test_frame)) \<noteq> htons 0x0800" "ethertype (load_ether (\<lambda>_. 0) (buf_ptr test_frame)) \<noteq> htons 0x0806"
    by code_simp+
  then have "process_frame (\<lambda>_ _. 0) port_heap worker_arp ((new_Worker new_Internal 1 [1, 2] 0)\<lparr>statsNumBatches := b, statsNumFrames := n, statsNumBytes := l\<rparr>)
      (\<lambda>_. 0) test_frame = Inr (\<lambda>_. 0, test_frame\<lparr>iface := IFACE_DISCARD\<rparr>, True)" for b n l
    by (simp add: process_frame_def new_Worker_def)
  then show ?thesis
    by (simp add: numeral_3_eq_3 list_deq_def WORKER_BULK_SIZE_def process_one_def list_enq_def new_Worker_def new_frame_def)
qed


end
