(* ===== verification/Aggregation.thy ===== *)
theory Aggregation
  imports SampleTable
begin

text \<open>
  Correctness of \<^verbatim>\<open>RoutingTable::aggregate\<close>: replacing two sibling routes with one gateway by
  their parent does not change where any packet goes, provided the parent was not in the table
  already; and the exact input on which the scan of one prefix length leaves its vector.
\<close>

section \<open>One merge\<close>

lemma plen_merged: "0 < len \<Longrightarrow> len \<le> 32 \<Longrightarrow> plen (merged len a) = len - 1"
  by (cases len) (simp_all add: merged_def plen_def unat_of_nat take_bit_eq_mod del: of_nat_Suc)

lemma merged_fields [simp]:
  "next_hop (merged len a) = next_hop a" "interface (merged len a) = interface a"
  "index (merged len a) = index a"
  by (simp_all add: merged_def)

lemma bit_sibling:
  assumes "mergeable len a b"
  shows "bit (base b) i = (bit (base a) i \<noteq> (i = 32 - len \<and> i < 32))"
proof -
  have "base b = base a XOR (base a XOR base b)" by (simp flip: xor.assoc)
  also have "\<dots> = base a XOR push_bit (32 - len) 1" using assms by (simp add: mergeable_def)
  finally show ?thesis by (simp add: bit_xor_iff push_bit_of_1 bit_exp_iff) blast
qed

lemma bit_merged: "bit (base (merged len a)) i \<longleftrightarrow> bit (base a) i \<and> i \<noteq> 32 - len"
  by (auto simp: merged_def bit_and_iff bit_not_iff push_bit_of_1 bit_exp_iff dest: bit_imp_le_length)

lemma prefix_bits_sibling:
  assumes "mergeable len a b" "0 < len" "len \<le> 32"
  shows "prefix_bits (base b) (len - 1) = prefix_bits (base a) (len - 1)"
    and "prefix_bits (base (merged len a)) (len - 1) = prefix_bits (base a) (len - 1)"
  using assms by (auto simp: prefix_bits_eq_iff bit_sibling [OF assms(1)] bit_merged)

lemma wf_merged:
  assumes "wf_route a" "plen a = len" "0 < len"
  shows "wf_route (merged len a)"
proof -
  have len: "len \<le> 32" using assms by (simp add: wf_route_def)
  have "bit (base a) i \<Longrightarrow> 32 - len \<le> i" for i
    using assms len by (metis bit_PREFIX_MASK bit_and_iff wf_route_def)
  then have "bit (base a) i \<Longrightarrow> i \<noteq> 32 - len \<Longrightarrow> 32 - (len - 1) \<le> i" for i
    using len assms(3) by (metis Suc_diff_eq_diff_pred Suc_diff_le le_antisym not_less_eq_eq)
  then have "base (merged len a) AND PREFIX_MASK (len - 1) = base (merged len a)"
    using len assms(3) by (intro bit_word_eqI) (auto simp: bit_and_iff bit_merged bit_PREFIX_MASK)
  then show ?thesis using len assms(3) by (simp add: wf_route_def plen_merged)
qed

lemma covers_merged:
  assumes "mergeable len a b" "plen a = len" "plen b = len" "0 < len" "len \<le> 32"
  shows "covers (merged len a) addr \<longleftrightarrow> covers a addr \<or> covers b addr"
proof -
  obtain n where n: "len = Suc n" using assms(4) by (cases len) auto
  have "prefix_bits (base b) n = prefix_bits (base a) n"
    "prefix_bits (base (merged len a)) n = prefix_bits (base a) n"
    using prefix_bits_sibling [OF assms(1,4,5)] n by auto
  moreover have "bit (base b) (31 - n) \<noteq> bit (base a) (31 - n)"
    using n assms(5) by (auto simp: bit_sibling [OF assms(1)])
  ultimately show ?thesis using assms(2-5) n
    by (auto simp: covers_prefix_bits plen_merged prefix_bits_Suc)
qed

text \<open>Only routes longer than \<open>k\<close> matter to an address that one of them covers.\<close>

lemma is_best_above:
  assumes "r0 \<in> R" "covers r0 addr" "k < plen r0" and eq: "\<And>r. k < plen r \<Longrightarrow> r \<in> R \<longleftrightarrow> r \<in> R'"
  shows "is_best R' addr r \<longleftrightarrow> is_best R addr r"
proof -
  have *: "is_best S' addr r"
    if "r0 \<in> S" "is_best S addr r" and eq: "\<And>r. k < plen r \<Longrightarrow> r \<in> S \<longleftrightarrow> r \<in> S'" for S S'
  proof -
    have "plen r0 \<le> plen r" using that(1,2) assms(2) by (simp add: is_best_def)
    with assms(3) have r: "k < plen r" by simp
    show ?thesis using that(2) eq r by (auto simp: is_best_def) (metis less_imp_le linorder_not_le order.strict_trans2)
  qed
  show ?thesis using * [of R R'] * [of R' R] assms eq by blast
qed

lemma is_best_only:
  assumes "p \<in> R" "covers p addr"
    and "\<And>r. r \<in> R \<Longrightarrow> covers r addr \<Longrightarrow> plen p \<le> plen r \<Longrightarrow> r = p"
  shows "is_best R addr r \<longleftrightarrow> r = p"
proof
  assume "is_best R addr r"
  with assms show "r = p" by (simp add: is_best_def)
next
  assume "r = p"
  with assms show "is_best R addr r" unfolding is_best_def by (metis linorder_linear order_refl)
qed

text \<open>
  The merge step on the abstract table: \<open>R\<close> loses the siblings \<open>a\<close> and \<open>b\<close> and gains their
  parent.
\<close>

lemma merge_forwards:
  assumes R: "\<forall>r \<in> R. wf_route r" and ab: "a \<in> R" "b \<in> R" "plen a = len" "plen b = len" "0 < len"
    and m: "mergeable len a b"
    and uniq: "\<And>r c. r \<in> R \<Longrightarrow> c \<in> {a, b} \<Longrightarrow> plen r = len \<Longrightarrow> base r = base c \<Longrightarrow> r = c"
    and fresh: "\<And>r. r \<in> R \<Longrightarrow> plen r = len - 1 \<Longrightarrow> base r \<noteq> base (merged len a)"
  shows "forwards (insert (merged len a) (R - {a, b})) addr hop \<longleftrightarrow> forwards R addr hop"
proof -
  let ?p = "merged len a" and ?R' = "insert (merged len a) (R - {a, b})"
  have len: "len \<le> 32" using R ab by (auto simp: wf_route_def)
  have wfp: "wf_route ?p" "plen ?p = len - 1" using R ab len wf_merged plen_merged by auto
  have cov: "covers ?p addr \<longleftrightarrow> covers a addr \<or> covers b addr"
    using covers_merged [OF m ab(3-5) len] .
  show ?thesis
  proof (cases "covers ?p addr")
    case False
    with cov have "is_best ?R' addr r = is_best R addr r" for r by (auto simp: is_best_def)
    then show ?thesis by (simp add: forwards_def)
  next
    case True
    with cov obtain c where c: "c \<in> {a, b}" "covers c addr" by blast
    have cR: "c \<in> R" "plen c = len" "next_hop c = next_hop a" "interface c = interface a"
      using c ab m by (auto simp: mergeable_def)
    have only: "r = c" if "r \<in> R" "plen r = len" "covers r addr" for r
      using that c cR R uniq covers_same_prefix by metis
    show ?thesis
    proof (cases "\<exists>r \<in> R. covers r addr \<and> len < plen r")
      case True
      then have "is_best ?R' addr r = is_best R addr r" for r
        using wfp(2) ab by (elim bexE conjE, intro is_best_above) auto
      then show ?thesis by (simp add: forwards_def)
    next
      case False
      have "is_best R addr r \<longleftrightarrow> r = c" for r
      proof (rule is_best_only [OF cR(1) c(2)])
        fix s assume s: "s \<in> R" "covers s addr" "plen c \<le> plen s"
        with False cR(2) have "plen s = len" by (metis le_neq_implies_less)
        with s show "s = c" by (intro only)
      qed
      moreover have "r = ?p" if "r \<in> ?R'" "covers r addr" "len - 1 \<le> plen r" for r
      proof (rule ccontr)
        assume ne: "r \<noteq> ?p"
        with that have r: "r \<in> R" "r \<notin> {a, b}" by auto
        with that c(1) False only have "plen r \<noteq> len" "plen r \<le> len" by (auto simp: not_less)
        with that have "plen r = len - 1" by linarith
        with r(1) R wfp True that(2) have "base r = base ?p" by (metis covers_same_prefix)
        with fresh [OF r(1) \<open>plen r = len - 1\<close>] show False ..
      qed
      then have "is_best ?R' addr r \<longleftrightarrow> r = ?p" for r
        using True wfp(2) by (intro is_best_only) auto
      ultimately show ?thesis using cR by (simp add: forwards_def)
    qed
  qed
qed

section \<open>The scan of one prefix length\<close>

lemma set_take_drop_2:
  assumes "Suc i < length xs" "distinct xs"
  shows "set (take i xs @ drop (i + 2) xs) = set xs - {xs ! i, xs ! Suc i}"
proof -
  have eq: "xs = take i xs @ xs ! i # xs ! Suc i # drop (i + 2) xs"
    using assms by (metis Cons_nth_drop_Suc Suc_lessD add_2_eq_Suc' append_take_drop_id)
  have d: "distinct (take i xs @ xs ! i # xs ! Suc i # drop (i + 2) xs)"
    using assms(2) eq by metis
  have "set xs = set (take i xs @ xs ! i # xs ! Suc i # drop (i + 2) xs)" using eq by metis
  also have "\<dots> = insert (xs ! i) (insert (xs ! Suc i) (set (take i xs @ drop (i + 2) xs)))"
    by auto
  finally show ?thesis using d by auto
qed

lemma distinct_take_drop_2: "distinct xs \<Longrightarrow> distinct (take i xs @ drop (i + 2) xs)"
  by (simp add: set_take_disj_set_drop_if_distinct)

lemma wf_bucket_remove:
  assumes "wf_bucket len b"
  shows "wf_bucket len (take i b @ drop (i + 2) b)"
  using assms distinct_take_drop_2 [of "map base b" i]
  by (auto simp: wf_bucket_def take_map drop_map dest: in_set_takeD in_set_dropD)

text \<open>The scan only appends to the bucket of the parents.\<close>

lemma agg_scan_upper: "agg_scan len i bucket upper = Inr (b', u') \<Longrightarrow> \<exists>new. u' = upper @ new"
proof (induction len i bucket upper rule: agg_scan.induct)
  case (1 len i bucket upper)
  then show ?case
    by (subst (asm) (3) agg_scan.simps) (fastforce simp: Let_def split: if_splits)
qed

lemma wf_bucket_append1:
  assumes "wf_bucket n b" "wf_route r" "plen r = n" "base r \<notin> base ` set b"
  shows "wf_bucket n (b @ [r])"
  using assms by (auto simp: wf_bucket_def wf_route_def)

text \<open>One merge inside the scan, with the routes \<open>X\<close> of the other lengths around it.\<close>

lemma scan_merge_step:
  fixes bucket upper :: "route list" and i len :: nat
  defines "a \<equiv> bucket ! i" and "b \<equiv> bucket ! Suc i"
  assumes i: "Suc i < length bucket" and m: "mergeable len a b" and len: "0 < len" "len \<le> 32"
    and wb: "wf_bucket len bucket" and wu: "wf_bucket (len - 1) upper"
    and fresh: "base (merged len a) \<notin> base ` set upper"
    and X: "\<And>r. r \<in> X \<Longrightarrow> wf_route r \<and> plen r \<noteq> len \<and> plen r \<noteq> len - 1"
  shows "forwards (set (take i bucket @ drop (i + 2) bucket) \<union> set (upper @ [merged len a]) \<union> X) addr hop
    \<longleftrightarrow> forwards (set bucket \<union> set upper \<union> X) addr hop"
proof -
  let ?R = "set bucket \<union> set upper \<union> X"
  have ab: "a \<in> set bucket" "b \<in> set bucket" using i by (auto simp: a_def b_def)
  have lens: "wf_route r \<and> plen r = len" if "r \<in> set bucket" for r
    using wf_bucket_route [OF wb len(2) that] .
  have lens': "wf_route r \<and> plen r = len - 1" if "r \<in> set upper" for r
    using wf_bucket_route [OF wu _ that] len(2) by simp
  have "forwards (insert (merged len a) (?R - {a, b})) addr hop \<longleftrightarrow> forwards ?R addr hop"
  proof (rule merge_forwards [OF _ _ _ _ _ len(1) m])
    fix r c assume rc: "r \<in> ?R" "c \<in> {a, b}" "plen r = len" "base r = base c"
    then have "r \<in> set bucket" using lens' [of r] X [of r] len(1) by auto
    moreover have "c \<in> set bucket" using rc(2) ab by auto
    ultimately show "r = c" using rc(4) wb wf_bucket_inj by blast
  next
    fix r assume "r \<in> ?R" "plen r = len - 1"
    then have "r \<in> set upper" using lens [of r] X [of r] len(1) by auto
    with fresh show "base r \<noteq> base (merged len a)" by (metis image_eqI)
  qed (use ab lens lens' X in blast)+
  moreover have "insert (merged len a) (?R - {a, b})
      = set (take i bucket @ drop (i + 2) bucket) \<union> set (upper @ [merged len a]) \<union> X"
  proof -
    have "distinct bucket" using wb by (auto simp: wf_bucket_def distinct_map)
    moreover have "a \<notin> set upper \<union> X" using lens [OF ab(1)] lens' [of a] X [of a] len(1) by auto
    moreover have "b \<notin> set upper \<union> X" using lens [OF ab(2)] lens' [of b] X [of b] len(1) by auto
    ultimately show ?thesis
      unfolding a_def b_def by (subst Un_assoc, subst set_take_drop_2 [OF i]) auto
  qed
  ultimately show ?thesis by simp
qed

lemma agg_scan_forwards:
  assumes "agg_scan len i bucket upper = Inr (b', u')" and len: "0 < len" "len \<le> 32"
    and "wf_bucket len bucket" "wf_bucket (len - 1) upper" "distinct (map base u')"
    and X: "\<And>r. r \<in> X \<Longrightarrow> wf_route r \<and> plen r \<noteq> len \<and> plen r \<noteq> len - 1"
  shows "wf_bucket len b' \<and> wf_bucket (len - 1) u' \<and>
    (\<forall>addr hop. forwards (set b' \<union> set u' \<union> X) addr hop \<longleftrightarrow> forwards (set bucket \<union> set upper \<union> X) addr hop)"
  using assms(1,4-6) len X
proof (induction len i bucket upper rule: agg_scan.induct)
  case (1 len i bucket upper)
  note eq = "1.prems"(1) and wb = "1.prems"(2) and wu = "1.prems"(3)
  let ?a = "bucket ! i" and ?b = "bucket ! Suc i"
  consider (stop) "\<not> int i < size_minus_1 bucket"
    | (merge) "int i < size_minus_1 bucket" "Suc i < length bucket" "mergeable len ?a ?b"
    | (skip) "int i < size_minus_1 bucket" "Suc i < length bucket" "\<not> mergeable len ?a ?b"
    using eq by (cases "Suc i < length bucket") (auto simp: agg_scan.simps [of len i bucket upper] split: if_splits)
  then show ?case
  proof cases
    case stop
    with eq wb wu show ?thesis by (simp add: agg_scan.simps [of len i bucket upper])
  next
    case skip
    with eq have "agg_scan len (Suc i) bucket upper = Inr (b', u')"
      by (simp add: agg_scan.simps [of len i bucket upper])
    with skip "1.IH"(2) "1.prems" show ?thesis by blast
  next
    case merge
    have step: "agg_scan len (Suc i) (take i bucket @ drop (i + 2) bucket) (upper @ [merged len ?a]) = Inr (b', u')"
      using merge eq by (simp add: agg_scan.simps [of len i bucket upper])
    have fresh: "base (merged len ?a) \<notin> base ` set upper"
      using agg_scan_upper [OF step] "1.prems"(4) by auto
    have "wf_route ?a \<and> plen ?a = len" using wf_bucket_route [OF wb "1.prems"(6)] merge(2) by simp
    then have up: "wf_bucket (len - 1) (upper @ [merged len ?a])"
      using wf_bucket_append1 [OF wu _ _ fresh] wf_merged plen_merged "1.prems"(5,6) by blast
    show ?thesis
      using "1.IH"(1) [OF merge(1,2) refl refl merge(3) step wf_bucket_remove [OF wb] up "1.prems"(4-7)]
        scan_merge_step [OF merge(2,3) "1.prems"(5,6) wb wu fresh "1.prems"(7)] by simp
  qed
qed

section \<open>When the scan leaves its vector\<close>

lemma agg_scan_total: "0 < i \<Longrightarrow> bucket \<noteq> [] \<Longrightarrow> \<exists>res. agg_scan len i bucket upper = Inr res"
proof (induction len i bucket upper rule: agg_scan.induct)
  case (1 len i bucket upper)
  then show ?case
    by (subst agg_scan.simps) (auto simp: Let_def size_minus_1_def)
qed

lemma agg_scan_fails_iff:
  assumes "2 \<le> length bucket"
  shows "agg_scan len 0 bucket upper = Inl e \<longleftrightarrow>
    e = OutOfBounds \<and> length bucket = 2 \<and> mergeable len (bucket ! 0) (bucket ! 1)"
proof -
  let ?b1 = "drop 2 bucket"
  have first: "agg_scan len 0 bucket upper =
      (if mergeable len (bucket ! 0) (bucket ! 1)
       then agg_scan len 1 ?b1 (upper @ [merged len (bucket ! 0)]) else agg_scan len 1 bucket upper)"
    using assms by (subst agg_scan.simps) (auto simp: size_minus_1_def Let_def numeral_2_eq_2)
  show ?thesis
  proof (cases "length bucket = 2")
    case True
    then have "agg_scan len 1 ?b1 u = Inl OutOfBounds" for u
      by (subst agg_scan.simps) (simp add: size_minus_1_def)
    moreover have "\<exists>res. agg_scan len 1 bucket upper = Inr res" using True by (intro agg_scan_total) auto
    ultimately show ?thesis using first True by auto
  next
    case False
    with assms have "?b1 \<noteq> []" "bucket \<noteq> []" by auto
    then have "\<exists>res. agg_scan len 1 ?b1 (upper @ [merged len (bucket ! 0)]) = Inr res"
      "\<exists>res. agg_scan len 1 bucket upper = Inr res" using agg_scan_total by simp_all
    with first False show ?thesis by auto
  qed
qed

section \<open>One level, and the whole aggregation\<close>

lemma wf_bucket_std_sort [simp]: "wf_bucket len (std_sort lt b) \<longleftrightarrow> wf_bucket len b"
proof -
  have "distinct (map base (std_sort lt b)) \<longleftrightarrow> distinct (map base b)"
    by (metis mset_map mset_std_sort mset_eq_imp_distinct_iff)
  then show ?thesis by (simp add: wf_bucket_def)
qed

definition other_routes :: "nat \<Rightarrow> rib \<Rightarrow> route set" where
  "other_routes len es = {r. \<exists>k < length es. k \<noteq> len \<and> k \<noteq> len - 1 \<and> r \<in> set (es ! k)}"

lemma routes_split:
  assumes "len < length es"
  shows "routes es = set (es ! len) \<union> set (es ! (len - 1)) \<union> other_routes len es"
  using assms less_imp_diff_less [of len "length es" 1] by (auto simp: routes_iff other_routes_def)

lemma other_routes_wf:
  assumes "wf_rib es" "r \<in> other_routes len es"
  shows "wf_route r \<and> plen r \<noteq> len \<and> plen r \<noteq> len - 1"
proof -
  from assms obtain k where k: "k < 33" "k \<noteq> len" "k \<noteq> len - 1" "r \<in> set (es ! k)"
    by (auto simp: other_routes_def wf_rib_def)
  with assms(1) wf_bucket_route [of k "es ! k" r] show ?thesis by (auto simp: wf_rib_def)
qed

lemma other_routes_update [simp]:
  "other_routes len (es[len := b]) = other_routes len es"
  "other_routes len (es[len := b, len - 1 := u]) = other_routes len es"
  by (auto simp: other_routes_def)

lemma wf_rib_update: "wf_rib es \<Longrightarrow> wf_bucket len b \<Longrightarrow> wf_rib (es[len := b])"
  by (auto simp: wf_rib_def) (metis nth_list_update_eq nth_list_update_neq)

lemma agg_level_forwards:
  assumes wf: "wf_rib es" and len: "0 < len" "len \<le> 32" and eq: "agg_level len es = Inr es'"
    and clash: "distinct (map base (es' ! (len - 1)))"
  shows "wf_rib es' \<and> (\<forall>addr hop. forwards (routes es') addr hop \<longleftrightarrow> forwards (routes es) addr hop)"
proof -
  let ?s = "std_sort route_less (es ! len)"
  define es1 where "es1 = es[len := ?s]"
  have L: "length es = 33" "len < length es" using wf len by (auto simp: wf_rib_def)
  have wf1: "wf_rib es1" using wf len by (auto simp: es1_def wf_rib_def nth_list_update)
  have es1: "es1 ! len = ?s" "es1 ! (len - 1) = es ! (len - 1)" "length es1 = 33"
    using L len by (auto simp: es1_def)
  have r1: "routes es1 = routes es"
    using L es1 by (simp add: routes_split [of len] es1_def)
  show ?thesis
  proof (cases "length ?s < 2")
    case True
    with eq L es1 have "es' = es1" by (simp add: agg_level_def es1_def)
    with wf1 r1 show ?thesis by simp
  next
    case False
    with eq L es1 obtain b u where bu: "agg_scan len 0 ?s (es ! (len - 1)) = Inr (b, u)"
      and es': "es' = es1[len := b, len - 1 := u]"
      by (auto simp: agg_level_def Let_def bindE_Inr_iff simp flip: es1_def split: prod.splits)
    have u: "es' ! (len - 1) = u" "es' ! len = b" using es' es1 len L by auto
    have "wf_bucket len ?s" "wf_bucket (len - 1) (es ! (len - 1))" using wf len by (auto simp: wf_rib_def)
    then have *: "wf_bucket len b \<and> wf_bucket (len - 1) u \<and>
        (\<forall>addr hop. forwards (set b \<union> set u \<union> other_routes len es1) addr hop \<longleftrightarrow>
           forwards (set ?s \<union> set (es ! (len - 1)) \<union> other_routes len es1) addr hop)"
      using agg_scan_forwards [OF bu len _ _ _ other_routes_wf [OF wf1]] clash u by simp
    have "routes es' = set b \<union> set u \<union> other_routes len es1"
      using routes_split [of len es'] other_routes_update(2) [of len es1 b u] L u es' es1(3) by simp
    moreover have "routes es = set ?s \<union> set (es ! (len - 1)) \<union> other_routes len es1"
      using routes_split [of len es1] r1 es1 L by simp
    ultimately show ?thesis using * wf1 es' by (auto intro: wf_rib_update)
  qed
qed

lemma mergeable_sym: "mergeable len a b \<longleftrightarrow> mergeable len b a"
  by (auto simp: mergeable_def xor.commute)

lemma mergeable_sorted_pair:
  "mergeable len (std_sort lt [a, b] ! 0) (std_sort lt [a, b] ! 1) \<longleftrightarrow> mergeable len a b"
  by (auto simp: mergeable_sym)

lemma agg_level_fails:
  assumes "len < length es"
  shows "agg_level len es = Inl e \<longleftrightarrow>
    e = OutOfBounds \<and> (\<exists>a b. es ! len = [a, b] \<and> mergeable len a b)"
proof -
  let ?s = "std_sort route_less (es ! len)"
  have lvl: "agg_level len es = Inl e \<longleftrightarrow> 2 \<le> length ?s \<and> agg_scan len 0 ?s (es[len := ?s] ! (len - 1)) = Inl e"
    using assms by (auto simp: agg_level_def Let_def bindE_Inl_iff)
  show ?thesis
  proof (cases "length (es ! len) = 2")
    case True
    then obtain a b where ab: "es ! len = [a, b]" by (auto simp: length_Suc_conv numeral_2_eq_2)
    then have "2 \<le> length ?s" "length ?s = 2" by simp_all
    with ab mergeable_sorted_pair [of len route_less a b] agg_scan_fails_iff [of ?s len _ e]
    show ?thesis by (simp add: lvl)
  next
    case False
    then show ?thesis using agg_scan_fails_iff [of ?s len _ e] by (auto simp: lvl)
  qed
qed

text \<open>
  The two conditions on a table, checked along the run. A level clashes when a parent it creates is already present in the next
  shorter bucket; it goes out of bounds when it holds two routes only and these are merged. Neither says anything of the
  levels after one that stopped the program.
\<close>

fun agg_clash_free :: "nat list \<Rightarrow> rib \<Rightarrow> bool" where
  "agg_clash_free [] es = True"
| "agg_clash_free (len # lens) es =
     (case agg_level len es of
        Inl e \<Rightarrow> True
      | Inr es' \<Rightarrow> distinct (map base (es' ! (len - 1))) \<and> agg_clash_free lens es')"

definition lone_pair :: "nat \<Rightarrow> rib \<Rightarrow> bool" where
  "lone_pair len es = (case es ! len of [a, b] \<Rightarrow> mergeable len a b | _ \<Rightarrow> False)"

fun agg_in_bounds :: "nat list \<Rightarrow> rib \<Rightarrow> bool" where
  "agg_in_bounds [] es = True"
| "agg_in_bounds (len # lens) es =
     (\<not> lone_pair len es \<and> (case agg_level len es of Inl e \<Rightarrow> True | Inr es' \<Rightarrow> agg_in_bounds lens es'))"

lemma agg_level_lone_pair:
  assumes "len < length es"
  shows "agg_level len es = Inl e \<longleftrightarrow> e = OutOfBounds \<and> lone_pair len es"
  unfolding agg_level_fails [OF assms] lone_pair_def by (auto split: list.splits)

lemma aggregate_levels:
  assumes "wf_rib es" "\<forall>len \<in> set lens. 0 < len \<and> len \<le> 32" "agg_clash_free lens es"
  shows "if agg_in_bounds lens es
    then \<exists>es'. foldE agg_level lens es = Inr es' \<and> wf_rib es' \<and>
      (\<forall>addr hop. forwards (routes es') addr hop \<longleftrightarrow> forwards (routes es) addr hop)
    else foldE agg_level lens es = Inl OutOfBounds"
  using assms
proof (induction lens arbitrary: es)
  case Nil
  then show ?case by simp
next
  case (Cons len lens)
  have "len < length es" using Cons.prems(1,2) by (auto simp: wf_rib_def)
  note fails = agg_level_lone_pair [OF this]
  show ?case
  proof (cases "agg_level len es")
    case (Inl e)
    then have "e = OutOfBounds" "lone_pair len es" using fails by simp_all
    with Inl show ?thesis by simp
  next
    case (Inr es1)
    then have c: "distinct (map base (es1 ! (len - 1)))" "agg_clash_free lens es1" using Cons.prems(3) by simp_all
    have w: "wf_rib es1" "\<And>addr hop. forwards (routes es1) addr hop \<longleftrightarrow> forwards (routes es) addr hop"
      using agg_level_forwards [OF Cons.prems(1) _ _ Inr c(1)] Cons.prems(2) by (simp, metis list.set_intros(1))
    have "\<not> lone_pair len es" using fails [of OutOfBounds] Inr by simp
    then have eqs: "agg_in_bounds (len # lens) es = agg_in_bounds lens es1" "foldE agg_level (len # lens) es = foldE agg_level lens es1"
      using Inr by simp_all
    have "\<forall>len \<in> set lens. 0 < len \<and> len \<le> 32" using Cons.prems(2) by simp
    from Cons.IH [OF w(1) this c(2)] show ?thesis unfolding eqs w(2) .
  qed
qed

text \<open>A run of the aggregation that returns.\<close>

lemma aggregate_returned:
  assumes "wf_rib es" "agg_clash_free (rev [1..<31]) es" "aggregate es = Inr es'"
  shows "wf_rib es' \<and> (\<forall>addr hop. forwards (routes es') addr hop \<longleftrightarrow> forwards (routes es) addr hop)"
proof -
  have "\<forall>len \<in> set (rev [1..<31]). 0 < len \<and> len \<le> (32 :: nat)" by auto
  from aggregate_levels [OF assms(1) this assms(2)] show ?thesis using assms(3) by (simp add: aggregate_def split: if_splits)
qed

lemma aggregate_returns:
  assumes "wf_rib es" "agg_clash_free (rev [1..<31]) es" "agg_in_bounds (rev [1..<31]) es"
  shows "\<exists>es'. aggregate es = Inr es' \<and> wf_rib es' \<and> (\<forall>addr hop. forwards (routes es') addr hop \<longleftrightarrow> forwards (routes es) addr hop)"
proof -
  have "\<forall>len \<in> set (rev [1..<31]). 0 < len \<and> len \<le> (32 :: nat)" by auto
  from aggregate_levels [OF assms(1) this assms(2)] show ?thesis unfolding if_P [OF assms(3)] by (simp only: aggregate_def)
qed

section \<open>Properties\<close>

lemma test_rib_levels: "agg_clash_free (rev [1..<31]) test_rib" "agg_in_bounds (rev [1..<31]) test_rib"
  by code_simp+

text \<open>
  C9: aggregation keeps the forwarding behaviour. On a well-formed table in which no level creates
  a prefix that the next shorter level already has, \<^verbatim>\<open>aggregate\<close> returns a well-formed table that
  sends every address to the same gateway through the same interface as before, unless some level it gets to
  consists of exactly two routes that are merged; then it reads outside its vector.
\<close>

theorem aggregate_preserves_forwarding:
  assumes "wf_rib es" and "agg_clash_free (rev [1..<31]) es"
  shows "if agg_in_bounds (rev [1..<31]) es
    then \<exists>es'. aggregate es = Inr es' \<and> wf_rib es' \<and>
      (\<forall>addr hop. forwards (routes es') addr hop \<longleftrightarrow> forwards (routes es) addr hop)
    else aggregate es = Inl OutOfBounds"
proof -
  have "\<forall>len \<in> set (rev [1..<31]). 0 < len \<and> len \<le> (32 :: nat)" by auto
  from aggregate_levels [OF assms(1) this assms(2)] show ?thesis by (simp only: aggregate_def)
qed

theorem aggregate_preserves_forwarding_witness:
  "wf_rib test_rib \<and> agg_clash_free (rev [1..<31]) test_rib \<and>
   (\<exists>es'. aggregate test_rib = Inr es' \<and> wf_rib es' \<and>
      (\<forall>addr hop. forwards (routes es') addr hop \<longleftrightarrow> forwards (routes test_rib) addr hop))"
  using aggregate_preserves_forwarding [OF wf_test_rib test_rib_levels(1)] wf_test_rib test_rib_levels
  by (simp only: if_True simp_thms)

text \<open>
  C38: the scan of one prefix length leaves its vector exactly when the length holds two routes and
  these are merged: the vector is then empty and the bound \<^verbatim>\<open>size() - 1\<close> of the loop wraps around.
  On every other input the level is processed.
\<close>

theorem agg_level_fails_iff:
  assumes "len < length es"
  shows "agg_level len es = Inl e \<longleftrightarrow>
    e = OutOfBounds \<and> (\<exists>a b. es ! len = [a, b] \<and> mergeable len a b)"
  by (rule agg_level_fails [OF assms])

theorem agg_level_fails_iff_witness:
  "24 < length (test_rib[24 := [test_route 0x0A000000 7 24 1, test_route 0x0A000100 7 24 1]]) \<and>
   agg_level 24 (test_rib[24 := [test_route 0x0A000000 7 24 1, test_route 0x0A000100 7 24 1]]) = Inl OutOfBounds"
proof -
  let ?es = "test_rib[24 := [test_route 0x0A000000 7 24 1, test_route 0x0A000100 7 24 1]]"
  have l: "24 < length ?es" by (simp add: test_rib_def Let_def)
  have "?es ! 24 = [test_route 0x0A000000 7 24 1, test_route 0x0A000100 7 24 1]"
    using l by (simp only: length_list_update nth_list_update_eq)
  moreover have "mergeable 24 (test_route 0x0A000000 7 24 1) (test_route 0x0A000100 7 24 1)"
    by code_simp
  ultimately show ?thesis using agg_level_fails_iff [OF l, of OutOfBounds] l by simp
qed

end
