(* ===== verification/Buckets.thy ===== *)
theory Buckets
  imports RoutingTable
begin

text \<open>
  The step with which both constructors fill a routing table: a route is appended to the vector of its
  prefix length, with an unchecked \<^verbatim>\<open>operator[]\<close>. A sequence of such steps distributes the routes over the buckets and
  keeps their order.
\<close>

definition push_route :: "int \<Rightarrow> route \<Rightarrow> rib \<Rightarrow> rib result" where
  "push_route len r es =
     (if 0 \<le> len \<and> len < int (length es) then Inr (es[nat len := es ! nat len @ [r]]) else Inl OutOfBounds)"

abbreviation push_all :: "(int \<times> route) list \<Rightarrow> rib \<Rightarrow> rib result" where
  "push_all \<equiv> foldE (\<lambda>x. push_route (fst x) (snd x))"

definition in_range :: "nat \<Rightarrow> int \<times> route \<Rightarrow> bool" where
  "in_range n x \<longleftrightarrow> 0 \<le> fst x \<and> fst x < int n"

definition bucket_of :: "(int \<times> route) list \<Rightarrow> nat \<Rightarrow> route list" where
  "bucket_of xs l = map snd (filter (\<lambda>x. fst x = int l) xs)"

text \<open>Pushing routes succeeds exactly when every length is that of a bucket, and fills the buckets in order.\<close>

lemma push_all_eq:
  "push_all xs es = (if list_all (in_range (length es)) xs
     then Inr (map (\<lambda>l. es ! l @ bucket_of xs l) [0..<length es]) else Inl OutOfBounds)"
proof (induction xs arbitrary: es)
  case Nil
  then show ?case by (simp add: bucket_of_def map_nth)
next
  case (Cons x xs)
  show ?case
  proof (cases "in_range (length es) x")
    case True
    let ?es = "es[nat (fst x) := es ! nat (fst x) @ [snd x]]"
    have "push_all (x # xs) es = push_all xs ?es"
      using True by (simp add: case_prod_beta push_route_def in_range_def)
    moreover have "map (\<lambda>l. ?es ! l @ bucket_of xs l) [0..<length es] = map (\<lambda>l. es ! l @ bucket_of (x # xs) l) [0..<length es]"
      using True by (auto simp: bucket_of_def in_range_def nth_list_update)
    ultimately show ?thesis using Cons.IH [of ?es] True by simp
  next
    case False
    then show ?thesis by (auto simp: case_prod_beta push_route_def in_range_def)
  qed
qed

lemma bucket_sizes:
  "list_all (in_range n) xs \<Longrightarrow> sum_list (map (\<lambda>l. length (bucket_of xs l)) [0..<n]) = length xs"
proof (induction xs)
  case Nil
  then show ?case by (simp add: bucket_of_def sum_list_triv)
next
  case (Cons x xs)
  have "length (bucket_of (x # xs) l) = length (bucket_of xs l) + of_bool (l = nat (fst x))" for l
    using Cons.prems by (auto simp: bucket_of_def in_range_def)
  moreover have "sum_list (map (\<lambda>l. of_bool (l = nat (fst x))) [0..<n]) = (1 :: nat)"
    using Cons.prems by (auto simp: in_range_def interv_sum_list_conv_sum_set_nat sum.delta of_bool_def)
  ultimately show ?case using Cons by (simp add: sum_list_addf)
qed

end
