(* ===== verification/Printing.thy ===== *)
theory Printing
  imports Interface
begin

text \<open>
  The conversions between numbers, addresses and text of \<^verbatim>\<open>include/util.hpp\<close> and
  \<^verbatim>\<open>include/interface.hpp\<close>, with the parts of the C and C++ libraries they call: \<^verbatim>\<open>sprintf\<close> with
  \<^verbatim>\<open>%02x\<close>, \<^verbatim>\<open>sscanf\<close> with \<^verbatim>\<open>%x\<close>, stream output in decimal and hexadecimal, \<^verbatim>\<open>inet_aton\<close> and \<^verbatim>\<open>atoi\<close>.
  Printing and parsing are inverse to each other on MAC and IPv4 addresses.
\<close>

section \<open>Digits\<close>

definition digit_value :: "char \<Rightarrow> nat" where
  "digit_value c = (let n = of_char c in
     if 48 \<le> n \<and> n \<le> 57 then n - 48
     else if 97 \<le> n \<and> n \<le> 102 then n - 87
     else if 65 \<le> n \<and> n \<le> 70 then n - 55
     else 255)"

definition is_digit :: "nat \<Rightarrow> char \<Rightarrow> bool" where
  "is_digit b c \<longleftrightarrow> digit_value c < b"

definition digits_value :: "nat \<Rightarrow> string \<Rightarrow> nat" where
  "digits_value b s = foldl (\<lambda>v c. b * v + digit_value c) 0 s"

definition hex_digit :: "nat \<Rightarrow> char" where
  "hex_digit n = (if n < 10 then char_of (48 + n) else char_of (87 + n))"

fun hex_of_nat :: "nat \<Rightarrow> string" where
  "hex_of_nat n = (if n < 16 then [hex_digit n] else hex_of_nat (n div 16) @ [hex_digit (n mod 16)])"

declare hex_of_nat.simps [simp del]

text \<open>The class of blanks, as \<^verbatim>\<open>isspace\<close> in the C locale has it.\<close>

definition is_space :: "char \<Rightarrow> bool" where
  "is_space c \<longleftrightarrow> (let n = (of_char c :: nat) in n = 32 \<or> 9 \<le> n \<and> n \<le> 13)"

section \<open>Printing\<close>

text \<open>\<^verbatim>\<open>"%02x"\<close> of a byte\<close>

definition hex2 :: "u8 \<Rightarrow> string" where
  "hex2 b = (let s = hex_of_nat (unat b) in replicate (2 - length s) (CHR ''0'') @ s)"

fun mac_to_str :: "mac \<Rightarrow> string" where
  "mac_to_str (Mac a b c d e f) =
     hex2 a @ '':'' @ hex2 b @ '':'' @ hex2 c @ '':'' @ hex2 d @ '':'' @ hex2 e @ '':'' @ hex2 f"

text \<open>
  \<^verbatim>\<open>int2str\<close> and \<^verbatim>\<open>int2strHex\<close> are overloaded for \<^verbatim>\<open>int\<close> and for three unsigned widths. In hexadecimal a
  stream shows an \<^verbatim>\<open>int\<close> as the unsigned number with the same bits.
\<close>

definition int2str_int :: "32 word \<Rightarrow> string" where
  "int2str_int i = (if sint i < 0 then ''-'' @ string_of_nat (nat (- sint i)) else string_of_nat (nat (sint i)))"

definition int2str :: "'a::len word \<Rightarrow> string" where
  "int2str i = string_of_nat (unat i)"

definition int2strHex :: "'a::len word \<Rightarrow> string" where
  "int2strHex i = hex_of_nat (unat i)"

definition Interface_toString :: "Interface \<Rightarrow> string" where
  "Interface_toString i =
     (let tab = [char_of (9 :: nat)] in
      tab @ ''Name: '' @ if_name i @ endl @
      tab @ ''MAC address: '' @ mac_to_str (if_mac i) @ endl @
      tab @ ''Netlink Index: '' @ string_of_nat (unat (netlinkIndex i)) @ endl @
      tab @ ''Netmap Index: '' @ string_of_nat (unat (netmapIndex i)) @ endl @
      tab @ ''IP addresses: '' @
      concat (map (\<lambda>ip. ip_to_str ip @ endl @ tab @ ''              '') (IPs i)))"

text \<open>\<^verbatim>\<open>fatal\<close> writes its message and aborts.\<close>

definition fatal :: "string \<Rightarrow> 'a result" where
  "fatal str = Inl (Fatal str)"

section \<open>Parsing\<close>

text \<open>
  One \<^verbatim>\<open>%x\<close> of \<^verbatim>\<open>sscanf\<close>: blanks are skipped, then an optional sign, an optional \<^verbatim>\<open>0x\<close> and at least one
  hexadecimal digit. A number that an \<^verbatim>\<open>unsigned int\<close> cannot hold leaves the result open, which \<open>ub\<close>
  stands for.
\<close>

definition scan_sign :: "string \<Rightarrow> bool \<times> string" where
  "scan_sign s = (case s of [] \<Rightarrow> (False, s)
     | c # t \<Rightarrow> if c = CHR ''-'' then (True, t) else if c = CHR ''+'' then (False, t) else (False, s))"

definition scan_0x :: "string \<Rightarrow> string" where
  "scan_0x s = (if take 2 s = ''0x'' \<or> take 2 s = ''0X'' then drop 2 s else s)"

definition scan_x :: "(string \<Rightarrow> u32) \<Rightarrow> string \<Rightarrow> (u32 \<times> string) option" where
  "scan_x ub s =
     (let (neg, s1) = scan_sign (dropWhile is_space s); s2 = scan_0x s1;
          ds = takeWhile (is_digit 16) s2; v = digits_value 16 ds;
          w = (if v < 2 ^ 32 then of_nat v else ub ds)
      in if ds = [] then None else Some (if neg then - w else w, dropWhile (is_digit 16) s2))"

text \<open>\<open>n\<close> such fields with colons between them; the scan ends at the first mismatch.\<close>

fun scan_fields :: "(string \<Rightarrow> u32) \<Rightarrow> nat \<Rightarrow> string \<Rightarrow> u32 list" where
  "scan_fields ub 0 s = []"
| "scan_fields ub (Suc n) s =
     (case scan_x ub s of
        None \<Rightarrow> []
      | Some (v, rest) \<Rightarrow>
          v # (if n = 0 then [] else
               case rest of [] \<Rightarrow> [] | c # t \<Rightarrow> if c = CHR '':'' then scan_fields ub n t else []))"

definition parseMac :: "(string \<Rightarrow> u32) \<Rightarrow> string \<Rightarrow> mac" where
  "parseMac ub str =
     (let fields = scan_fields ub 6 str; copy = fields @ replicate (6 - length fields) 0
      in Mac (ucast (copy ! 0)) (ucast (copy ! 1)) (ucast (copy ! 2))
             (ucast (copy ! 3)) (ucast (copy ! 4)) (ucast (copy ! 5)))"

text \<open>
  \<^verbatim>\<open>inet_aton\<close> on text made of digits and dots, which is all the callers can pass: one to four
  numbers, octal when they begin with a zero; every number but the last is one byte, the last one
  fills the rest. The result is in network byte order; \<open>None\<close> is the return value 0, in which case
  the library leaves the caller's structure as it was.
\<close>

fun split_on :: "char \<Rightarrow> string \<Rightarrow> string list" where
  "split_on d [] = [[]]"
| "split_on d (c # s) =
     (if c = d then [] # split_on d s
      else case split_on d s of [] \<Rightarrow> [[c]] | p # ps \<Rightarrow> (c # p) # ps)"

definition aton_part :: "string \<Rightarrow> nat option" where
  "aton_part s =
     (case s of [] \<Rightarrow> None
      | c # t \<Rightarrow> let b = (if c = CHR ''0'' then 8 else 10) in
          if list_all (is_digit b) s then Some (digits_value b s) else None)"

fun aton_parts :: "nat \<Rightarrow> string list \<Rightarrow> nat option" where
  "aton_parts k [] = None"
| "aton_parts k [p] = (case aton_part p of None \<Rightarrow> None
     | Some v \<Rightarrow> if k \<le> 4 \<and> v < 256 ^ k then Some v else None)"
| "aton_parts k (p # ps) = (case aton_part p of None \<Rightarrow> None
     | Some v \<Rightarrow> if v < 256 \<and> 1 < k
         then map_option (\<lambda>r. v * 256 ^ (k - 1) + r) (aton_parts (k - 1) ps) else None)"

definition inet_aton :: "string \<Rightarrow> u32 option" where
  "inet_aton s = map_option (\<lambda>v. htonl (of_nat v)) (aton_parts 4 (split_on (CHR ''.'') s))"

text \<open>\<^verbatim>\<open>atoi\<close> on a string of decimal digits; a number beyond \<^verbatim>\<open>INT_MAX\<close> is left open.\<close>

definition atoi :: "(string \<Rightarrow> int) \<Rightarrow> string \<Rightarrow> int" where
  "atoi ub s =
     (let (neg, s1) = scan_sign (dropWhile is_space s);
          v = int (digits_value 10 (takeWhile (is_digit 10) s1)); i = (if neg then - v else v)
      in if - (2 ^ 31) \<le> i \<and> i < 2 ^ 31 then i else ub s)"

section \<open>Digits and their values\<close>

lemma digit_value_hex_digit [simp]: "n < 16 \<Longrightarrow> digit_value (hex_digit n) = n"
  by (simp add: digit_value_def hex_digit_def Let_def)

lemma digit_value_dec [simp]: "n < 10 \<Longrightarrow> digit_value (char_of (48 + n)) = n"
  by (simp add: digit_value_def Let_def)

lemma digits_value_Nil [simp]: "digits_value b [] = 0"
  by (simp add: digits_value_def)

lemma digits_value_snoc [simp]: "digits_value b (s @ [c]) = b * digits_value b s + digit_value c"
  by (simp add: digits_value_def)

lemma hex_of_nat_value: "digits_value 16 (hex_of_nat n) = n \<and> list_all (is_digit 16) (hex_of_nat n) \<and> hex_of_nat n \<noteq> []"
proof (induction n rule: hex_of_nat.induct)
  case (1 n)
  then show ?case
    using digits_value_snoc [of 16 "[]" "hex_digit n"]
    by (subst (1 2 3) hex_of_nat.simps) (auto simp: is_digit_def [abs_def])
qed

lemma string_of_nat_value:
  "digits_value 10 (string_of_nat n) = n \<and> list_all (is_digit 10) (string_of_nat n) \<and> string_of_nat n \<noteq> []"
proof (induction n rule: string_of_nat.induct)
  case (1 n)
  then show ?case
    using digits_value_snoc [of 10 "[]" "char_of (48 + n)"]
    by (subst (1 2 3) string_of_nat.simps) (auto simp: is_digit_def [abs_def])
qed

text \<open>No leading zero, except for the number zero itself.\<close>

lemma string_of_nat_hd: "0 < n \<Longrightarrow> 0 < digit_value (hd (string_of_nat n))"
proof (induction n rule: string_of_nat.induct)
  case (1 n)
  show ?case
  proof (cases "n < 10")
    case True
    then have "string_of_nat n = [char_of (48 + n)]" by (subst string_of_nat.simps) (rule if_P)
    then have "hd (string_of_nat n) = char_of (48 + n)" by (simp only: list.sel)
    with digit_value_dec [OF True] 1(2) show ?thesis by (simp only:)
  next
    case False
    then have eq: "string_of_nat n = string_of_nat (n div 10) @ [char_of (48 + n mod 10)]"
      by (subst string_of_nat.simps) (rule if_not_P)
    have "0 < digit_value (hd (string_of_nat (n div 10)))" using 1(1) False by simp
    with string_of_nat_value [of "n div 10"] show ?thesis by (simp add: eq)
  qed
qed

lemma digit_value_0 [simp]: "digit_value (CHR ''0'') = 0"
  by code_simp

lemma is_digit_mono: "is_digit b c \<Longrightarrow> b \<le> b' \<Longrightarrow> is_digit b' c"
  by (simp add: is_digit_def)

lemma not_digit_sep [simp]:
  "\<not> is_digit 16 (CHR '':'')" "\<not> is_digit 10 (CHR ''.'')" "\<not> is_digit 16 (CHR ''x'')" "\<not> is_digit 16 (CHR ''X'')"
  "\<not> is_digit 16 (CHR ''-'')" "\<not> is_digit 16 (CHR ''+'')" "\<not> is_digit 10 (CHR ''/'')"
  by (code_simp)+

lemma is_space_not_digit: "is_space c \<Longrightarrow> \<not> is_digit 16 c"
  by (auto simp: is_space_def is_digit_def digit_value_def Let_def)

section \<open>MAC addresses\<close>

lemma hex_of_nat_byte: "n < 256 \<Longrightarrow> length (hex_of_nat n) \<le> 2"
  by (subst hex_of_nat.simps) (auto simp: hex_of_nat.simps [of "n div 16"])

lemma hex2_length [simp]: "length (hex2 b) = 2"
proof -
  have "length (hex_of_nat (unat b)) \<le> 2" using unat_less_pow(1) [of b] by (intro hex_of_nat_byte) simp
  then show ?thesis by (simp add: hex2_def Let_def)
qed

lemma digits_value_zeros: "digits_value b (replicate k (CHR ''0'') @ s) = digits_value b s"
proof -
  have "foldl (\<lambda>v c. b * v + digit_value c) 0 (replicate k (CHR ''0'')) = 0"
    by (induction k) simp_all
  then show ?thesis by (simp add: digits_value_def)
qed

lemma hex2_value: "digits_value 16 (hex2 b) = unat b" "list_all (is_digit 16) (hex2 b)"
proof -
  have 0: "is_digit 16 (CHR ''0'')" by code_simp
  show "digits_value 16 (hex2 b) = unat b"
    by (simp add: hex2_def Let_def digits_value_zeros hex_of_nat_value)
  show "list_all (is_digit 16) (hex2 b)"
    by (simp add: hex2_def Let_def hex_of_nat_value list_all_iff [of _ "replicate _ _"] 0)
qed

lemma scan_x_hex2:
  assumes "rest = [] \<or> \<not> is_digit 16 (hd rest)"
  shows "scan_x ub (hex2 b @ rest) = Some (ucast b, rest)"
proof -
  obtain c d where cd: "hex2 b = [c, d]"
    using hex2_length [of b] by (metis length_0_conv length_Suc_conv numeral_2_eq_2)
  have dig: "is_digit 16 c" "is_digit 16 d" using hex2_value(2) [of b] by (simp_all add: cd)
  have c: "\<not> is_space c" "c \<noteq> CHR ''-''" "c \<noteq> CHR ''+''" "d \<noteq> CHR ''x''" "d \<noteq> CHR ''X''"
    using dig is_space_not_digit by auto
  have tw: "takeWhile (is_digit 16) ([c, d] @ rest) = [c, d]" "dropWhile (is_digit 16) ([c, d] @ rest) = rest"
    using dig assms by (cases rest; simp)+
  have v: "digits_value 16 [c, d] = unat b" using hex2_value(1) [of b] by (simp add: cd)
  have lt: "unat b < 2 ^ 32" using unat_less_pow(1) [of b] by simp
  have uc: "of_nat (unat b) = (ucast b :: u32)" by simp
  show ?thesis
    using c tw v lt uc by (simp add: scan_x_def cd scan_sign_def scan_0x_def)
qed

text \<open>The text of a MAC address fits the 18 characters of \<^verbatim>\<open>mac_cstr\<close>, terminator included.\<close>

lemma mac_to_str_length: "length (mac_to_str m) = 17"
  by (cases m) simp

lemma ucast_ucast_u8 [simp]: "(ucast (ucast (b :: u8) :: u32) :: u8) = b"
  by (simp add: ucast_down_ucast_id is_down)

lemma scan_fields_numeral:
  "scan_fields ub (numeral k) s =
     (case scan_x ub s of
        None \<Rightarrow> []
      | Some (v, rest) \<Rightarrow>
          v # (if pred_numeral k = 0 then [] else
               case rest of [] \<Rightarrow> [] | c # t \<Rightarrow> if c = CHR '':'' then scan_fields ub (pred_numeral k) t else []))"
  by (simp add: numeral_eq_Suc)

text \<open>
  C29: A MAC address survives printing and parsing: \<^verbatim>\<open>parseMac\<close> reads back every address that
  \<^verbatim>\<open>mac_to_str\<close> has written, whatever an overflowing number would give, and the text with its
  terminator is exactly as long as the buffer it is written to.
\<close>

theorem mac_text_round_trip: "parseMac ub (mac_to_str m) = m \<and> length (mac_to_str m) + 1 = 18"
proof (cases m)
  case (Mac a b c d e f)
  have "scan_fields ub 6 (mac_to_str m) = [ucast a, ucast b, ucast c, ucast d, ucast e, ucast f]"
    using scan_x_hex2 [of "[]" ub f] by (simp add: Mac scan_fields_numeral scan_x_hex2 del: numeral_eq_Suc)
  then show ?thesis by (simp add: parseMac_def mac_to_str_length) (simp add: Mac)
qed

section \<open>IPv4 addresses\<close>

lemma split_on_append: "d \<notin> set p \<Longrightarrow> split_on d (p @ d # s) = p # split_on d s"
  by (induction p) (auto split: list.splits)

lemma split_on_last: "d \<notin> set p \<Longrightarrow> split_on d p = [p]"
  by (induction p) (auto split: list.splits)

lemma aton_part_string_of_nat [simp]: "aton_part (string_of_nat n) = Some n"
proof (cases "n = 0")
  case True
  then show ?thesis by (simp add: string_of_nat.simps [of 0]) code_simp
next
  case False
  obtain c t where ct: "string_of_nat n = c # t" using string_of_nat_value [of n] by (cases "string_of_nat n") auto
  then have "0 < digit_value c" using string_of_nat_hd [of n] False by simp
  then have "c \<noteq> CHR ''0''" by auto
  with string_of_nat_value [of n] ct show ?thesis by (simp add: aton_part_def)
qed

lemma octet_less: "octet ip i < 256"
proof -
  have "unat (drop_bit (24 - 8 * i) ip AND 0xFF) \<le> unat (0xFF :: u32)"
    unfolding word_le_nat_alt [symmetric] by (rule word_and_le1)
  then show ?thesis by (simp add: octet_def)
qed

lemma string_of_nat_no_dot: "CHR ''.'' \<notin> set (string_of_nat n)"
  using string_of_nat_value [of n] not_digit_sep(2) by (metis in_set_conv_decomp list_all_iff)

lemma split_ip_to_str:
  "split_on (CHR ''.'') (ip_to_str ip) = map (\<lambda>i. string_of_nat (octet ip i)) [0, 1, 2, 3]"
  by (simp add: ip_to_str_def split_on_append split_on_last string_of_nat_no_dot)

lemma octets_value:
  "octet ip 0 * 256 ^ 3 + (octet ip 1 * 256 ^ 2 + (octet ip 2 * 256 + octet ip 3)) = unat ip"
proof -
  have o: "octet ip i = unat ip div 2 ^ (24 - 8 * i) mod 256" for i
  proof -
    have "drop_bit (24 - 8 * i) ip AND 0xFF = take_bit 8 (drop_bit (24 - 8 * i) ip)"
      by (simp add: take_bit_eq_mask mask_eq_exp_minus_1)
    then have "octet ip i = take_bit 8 (drop_bit (24 - 8 * i) (unat ip))"
      by (simp only: octet_def unsigned_take_bit_eq unat_drop_bit_eq)
    then show ?thesis by (simp add: take_bit_eq_mod drop_bit_eq_div)
  qed
  let ?n = "unat ip"
  have d: "?n div 65536 = ?n div 256 div 256" "?n div 16777216 = ?n div 256 div 256 div 256"
    by (simp_all flip: div_mult2_eq)
  have "?n div 256 div 256 div 256 < 256" using unat_less_pow(3) [of ip] by (simp flip: div_mult2_eq)
  moreover have "?n div 256 div 256 div 256 * 16777216 + (?n div 256 div 256 mod 256 * 65536 +
      (?n div 256 mod 256 * 256 + ?n mod 256)) = ?n"
    using div_mult_mod_eq [of ?n 256] div_mult_mod_eq [of "?n div 256" 256]
      div_mult_mod_eq [of "?n div 256 div 256" 256] by linarith
  ultimately show ?thesis unfolding o by (simp add: d)
qed

text \<open>
  An IPv4 address survives printing and parsing: \<^verbatim>\<open>inet_aton\<close> accepts what \<^verbatim>\<open>ip_to_str\<close> has written
  and gives back the address in network byte order.
\<close>

lemma inet_aton_ip_to_str: "inet_aton (ip_to_str ip) = Some (htonl ip)"
proof -
  have "aton_parts 4 (map (\<lambda>i. string_of_nat (octet ip i)) [0, 1, 2, 3]) = Some (unat ip)"
    using octets_value [of ip] by (simp add: octet_less)
  then show ?thesis by (simp add: inet_aton_def split_ip_to_str)
qed

end
