(* ===== verification/Mnl.thy ===== *)
theory Mnl
  imports Headers Printing
begin

text \<open>
  The interface of \<^verbatim>\<open>libmnl\<close> and of the kernel's rtnetlink as \<^verbatim>\<open>src/netlink.cpp\<close> and \<^verbatim>\<open>src/linuxTable.cpp\<close>
  use it. The library is not part of the repository, so its functions are fields of two records
  that the callers take as arguments: the accessors of messages and attributes, and the socket
  with \<^verbatim>\<open>mnl_cb_run\<close>. The receive loop, which both files contain in the same words, is modelled here, with the
  lemma that it hands every message of a dump to the callback.
\<close>

section \<open>The library\<close>

datatype mnl_type = MNL_TYPE_U32 | MNL_TYPE_STRING | MNL_TYPE_BINARY | MNL_TYPE_NESTED

definition MNL_CB_ERROR :: int where "MNL_CB_ERROR = -1"
definition MNL_CB_STOP :: int where "MNL_CB_STOP = 0"
definition MNL_CB_OK :: int where "MNL_CB_OK = 1"

lemmas mnl_cb_defs = MNL_CB_ERROR_def MNL_CB_STOP_def MNL_CB_OK_def

text \<open>
  Messages \<open>'m\<close> and attributes \<open>'a\<close>. \<open>msg_attrs\<close> lists the attributes behind the family header, in the order in which
  the \<^verbatim>\<open>for_each\<close> macro visits them; \<open>attr_payload\<close> is the memory from the payload of an attribute on. The
  last fields read the family headers \<^verbatim>\<open>ifaddrmsg\<close>, \<^verbatim>\<open>ifinfomsg\<close> and \<^verbatim>\<open>rtmsg\<close>, and the two constants are those of
  the kernel headers the program is compiled with.
\<close>

record ('m, 'a) mnl_api =
  attr_get_type :: "'a \<Rightarrow> nat"
  attr_type_valid :: "'a \<Rightarrow> nat \<Rightarrow> int"
  attr_validate :: "'a \<Rightarrow> mnl_type \<Rightarrow> int"
  attr_get_u32 :: "'a \<Rightarrow> u32"
  attr_get_str :: "'a \<Rightarrow> string"
  attr_payload :: "'a \<Rightarrow> mem"
  msg_attrs :: "'m \<Rightarrow> 'a list"
  attr_parse :: "'m \<Rightarrow> ('a \<Rightarrow> (nat \<rightharpoonup> 'a) \<Rightarrow> (int \<times> (nat \<rightharpoonup> 'a)) result) \<Rightarrow> (nat \<rightharpoonup> 'a) \<Rightarrow> (int \<times> (nat \<rightharpoonup> 'a)) result"
  ifa_index :: "'m \<Rightarrow> u32"
  ifi_index :: "'m \<Rightarrow> u32"
  rtm_type :: "'m \<Rightarrow> u8"
  rtm_dst_len :: "'m \<Rightarrow> u8"
  IFLA_MAX :: nat
  RTA_MAX :: nat

record nl_request =
  nlmsg_type :: u16
  nlmsg_flags :: u16
  nlmsg_seq :: u32
  nl_family :: u8

text \<open>
  The socket, in a state \<open>'w\<close> of the kernel; \<open>'b\<close> is the receive buffer and \<open>'d\<close> the user data of the callback. A
  callback may stop the program.
\<close>

record ('w, 'b, 'm, 'd) mnl_socket =
  socket_open :: "'w \<Rightarrow> bool \<times> 'w"
  socket_bind :: "'w \<Rightarrow> int \<times> 'w"
  socket_get_portid :: "'w \<Rightarrow> u32"
  time_now :: "'w \<Rightarrow> u32 \<times> 'w"
  socket_sendto :: "nl_request \<Rightarrow> 'w \<Rightarrow> int \<times> 'w"
  socket_recvfrom :: "'w \<Rightarrow> int \<times> 'b \<times> 'w"
  cb_run :: "'b \<Rightarrow> int \<Rightarrow> u32 \<Rightarrow> u32 \<Rightarrow> ('m \<Rightarrow> 'd \<Rightarrow> (int \<times> 'd) result) \<Rightarrow> 'd \<Rightarrow> (int \<times> 'd) result"
  socket_close :: "'w \<Rightarrow> 'w"

section \<open>The receive loop\<close>

fun recv_loop ::
    "nat \<Rightarrow> ('w, 'b, 'm, 'd) mnl_socket \<Rightarrow> u32 \<Rightarrow> u32 \<Rightarrow> ('m \<Rightarrow> 'd \<Rightarrow> (int \<times> 'd) result) \<Rightarrow>
     int \<times> 'b \<times> 'w \<Rightarrow> 'd \<Rightarrow> (int \<times> 'w \<times> 'd) result option" where
  "recv_loop 0 sk sn portid cb s d = None"
| "recv_loop (Suc fuel) sk sn portid cb (ret, buf, w) d =
     (if ret > 0 then
        case cb_run sk buf ret sn portid cb d of
          Inl e \<Rightarrow> Some (Inl e)
        | Inr (ret, d) \<Rightarrow>
            if ret \<le> MNL_CB_STOP then Some (Inr (ret, w, d))
            else recv_loop fuel sk sn portid cb (socket_recvfrom sk w) d
      else Some (Inr (ret, w, d)))"

definition nl_query ::
    "nat \<Rightarrow> ('w, 'b, 'm, 'd) mnl_socket \<Rightarrow> nl_request \<Rightarrow> u32 \<Rightarrow> string \<Rightarrow> ('m \<Rightarrow> 'd \<Rightarrow> (int \<times> 'd) result) \<Rightarrow>
     'w \<Rightarrow> 'd \<Rightarrow> ('w \<times> 'd) result option" where
  "nl_query fuel sk nlh portid send_err cb w d =
     (let (sent, w) = socket_sendto sk nlh w in
      if sent < 0 then Some (fatal send_err)
      else bindO (recv_loop fuel sk (nlmsg_seq nlh) portid cb (socket_recvfrom sk w) d) (\<lambda>(ret, w, d).
        if ret = -1 then Some (fatal ''mnl_socket_recvfrom() failed'') else Some (Inr (w, d))))"

section \<open>Documented behaviour\<close>

text \<open>
  A datagram is a sequence of messages; a multipart dump ends with \<^verbatim>\<open>NLMSG_DONE\<close>. \<^verbatim>\<open>mnl_cb_run\<close> calls the
  callback on each message until one returns \<^verbatim>\<open>MNL_CB_STOP\<close> or less, and returns \<^verbatim>\<open>MNL_CB_STOP\<close> at the
  end of a dump.
\<close>

datatype 'm nl_item = Msg 'm | Done

fun run_items :: "int \<Rightarrow> ('m \<Rightarrow> 'd \<Rightarrow> (int \<times> 'd) result) \<Rightarrow> 'm nl_item list \<Rightarrow> 'd \<Rightarrow> (int \<times> 'd) result" where
  "run_items ret cb [] d = Inr (ret, d)"
| "run_items ret cb (Done # xs) d = Inr (MNL_CB_STOP, d)"
| "run_items ret cb (Msg m # xs) d =
     bindE (cb m d) (\<lambda>(r, d'). if r \<le> MNL_CB_STOP then Inr (r, d') else run_items r cb xs d')"

definition cb_run_ok :: "('w, 'b, 'm, 'd) mnl_socket \<Rightarrow> ('b \<Rightarrow> 'm nl_item list) \<Rightarrow> bool" where
  "cb_run_ok sk items \<longleftrightarrow>
     (\<forall>buf n sn portid cb d. 0 < n \<longrightarrow> cb_run sk buf n sn portid cb d = run_items MNL_CB_OK cb (items buf) d)"

text \<open>The socket delivers these datagrams next.\<close>

fun delivers :: "('w, 'b, 'm, 'd) mnl_socket \<Rightarrow> 'b list \<Rightarrow> 'w \<Rightarrow> bool" where
  "delivers sk [] w \<longleftrightarrow> True"
| "delivers sk (b # bs) w \<longleftrightarrow> (case socket_recvfrom sk w of (ret, buf, w') \<Rightarrow> 0 < ret \<and> buf = b \<and> delivers sk bs w')"

text \<open>The messages of the datagrams \<open>bs\<close> are the dump \<open>ms\<close>.\<close>

definition dump_of :: "('b \<Rightarrow> 'm nl_item list) \<Rightarrow> 'b list \<Rightarrow> 'm list \<Rightarrow> bool" where
  "dump_of items bs ms \<longleftrightarrow> concat (map items bs) = map Msg ms @ [Done]"

text \<open>What the callback does with a whole dump.\<close>

definition run_all :: "('m \<Rightarrow> 'd \<Rightarrow> (int \<times> 'd) result) \<Rightarrow> 'm list \<Rightarrow> 'd \<Rightarrow> (int \<times> 'd) result" where
  "run_all cb ms d = run_items MNL_CB_OK cb (map Msg ms @ [Done]) d"

lemma run_all_simps [simp]:
  "run_all cb [] d = Inr (MNL_CB_STOP, d)"
  "run_all cb (m # ms) d = bindE (cb m d) (\<lambda>(r, d'). if r \<le> MNL_CB_STOP then Inr (r, d') else run_all cb ms d')"
proof -
  have ret: "run_items r cb (map Msg ms @ [Done]) d' = run_all cb ms d'" for r d'
    unfolding run_all_def by (cases ms) simp_all
  show "run_all cb [] d = Inr (MNL_CB_STOP, d)" by (simp add: run_all_def)
  show "run_all cb (m # ms) d = bindE (cb m d) (\<lambda>(r, d'). if r \<le> MNL_CB_STOP then Inr (r, d') else run_all cb ms d')"
    unfolding run_all_def [of cb "m # ms"] by (simp add: ret cong: if_cong)
qed

text \<open>
  A datagram of a dump: either the callback ends the dump in it or it ends the dump itself, or the rest of the dump is
  left for the datagrams that follow.
\<close>

lemma run_items_dump:
  assumes "xs @ ys = map Msg ms @ [Done]" "run_items ret cb xs d = Inr (r, d')" "0 < ret"
  shows "if r \<le> MNL_CB_STOP then run_all cb ms d = Inr (r, d')
         else \<exists>ms'. ys = map Msg ms' @ [Done] \<and> run_all cb ms d = run_all cb ms' d'"
  using assms
proof (induction xs arbitrary: ms ret d)
  case Nil
  then show ?case by (auto simp: mnl_cb_defs)
next
  case (Cons x xs)
  show ?case
  proof (cases ms)
    case Nil
    then show ?thesis using Cons.prems by (auto simp: mnl_cb_defs)
  next
    case ms: (Cons m ms1)
    then have x: "x = Msg m" "xs @ ys = map Msg ms1 @ [Done]" using Cons.prems(1) by auto
    then obtain r1 d1 where 1: "cb m d = Inr (r1, d1)"
      "(if r1 \<le> MNL_CB_STOP then Inr (r1, d1) else run_items r1 cb xs d1) = Inr (r, d')"
      using Cons.prems(2) by (auto simp: bindE_Inr_iff)
    show ?thesis using 1 Cons.IH [OF x(2), of r1 d1] by (auto simp: ms mnl_cb_defs split: if_splits)
  qed
qed

lemma run_items_dump_fails:
  "xs @ ys = map Msg ms @ [Done] \<Longrightarrow> run_items ret cb xs d = Inl e \<Longrightarrow> run_all cb ms d = Inl e"
proof (induction xs arbitrary: ms ret d)
  case (Cons x xs)
  then show ?case by (cases ms) (auto simp: bindE_Inl_iff split: if_splits)
qed simp

text \<open>The loop ends with a dump and has run the callback on all of it.\<close>

lemma recv_loop_dump:
  assumes ok: "cb_run_ok sk items"
  shows "delivers sk bs w \<Longrightarrow> dump_of items bs ms \<Longrightarrow> length bs < fuel \<Longrightarrow>
    \<exists>w'. recv_loop fuel sk sn portid cb (socket_recvfrom sk w) d =
      Some (bindE (run_all cb ms d) (\<lambda>(r, d'). Inr (r, w', d')))"
proof (induction bs arbitrary: w ms d fuel)
  case Nil
  then show ?case by (simp add: dump_of_def)
next
  case (Cons b bs)
  obtain ret w1 where rec: "socket_recvfrom sk w = (ret, b, w1)" "0 < ret" and del: "delivers sk bs w1"
    using Cons.prems(1) by (auto split: prod.splits)
  obtain f where fuel: "fuel = Suc f" "length bs < f" using Cons.prems(3) by (cases fuel) auto
  have run: "cb_run sk b ret sn portid cb d = run_items MNL_CB_OK cb (items b) d"
    using ok rec(2) by (simp add: cb_run_ok_def)
  have split: "items b @ concat (map items bs) = map Msg ms @ [Done]"
    using Cons.prems(2) by (simp add: dump_of_def)
  show ?case
  proof (cases "run_items MNL_CB_OK cb (items b) d")
    case (Inl e)
    then show ?thesis using run_items_dump_fails [OF split Inl] by (simp add: fuel rec run)
  next
    case (Inr x)
    obtain r d' where x: "x = (r, d')" by (cases x)
    note step = run_items_dump [OF split Inr [unfolded x]]
    show ?thesis
    proof (cases "r \<le> MNL_CB_STOP")
      case True
      moreover from this step have "run_all cb ms d = Inr (r, d')" by (simp add: mnl_cb_defs)
      ultimately show ?thesis by (simp add: fuel rec run Inr x)
    next
      case False
      with step obtain ms' where ms': "concat (map items bs) = map Msg ms' @ [Done]" "run_all cb ms d = run_all cb ms' d'"
        by (auto simp: mnl_cb_defs)
      from Cons.IH [OF del, of ms' f d'] ms' fuel(2) False show ?thesis
        by (simp add: fuel rec run Inr x dump_of_def)
    qed
  qed
qed

text \<open>
  A kernel that answers every request with a dump of the requested kind, in fewer than \<open>n\<close> datagrams.
\<close>

definition answers :: "('w, 'b, 'm, 'd) mnl_socket \<Rightarrow> ('b \<Rightarrow> 'm nl_item list) \<Rightarrow> (u16 \<Rightarrow> 'm list) \<Rightarrow> nat \<Rightarrow> bool" where
  "answers sk items dumps n \<longleftrightarrow>
     (\<forall>nlh w. case socket_sendto sk nlh w of (sent, w') \<Rightarrow>
        0 \<le> sent \<and> (\<exists>bs. length bs < n \<and> delivers sk bs w' \<and> dump_of items bs (dumps (nlmsg_type nlh))))"

definition opens :: "('w, 'b, 'm, 'd) mnl_socket \<Rightarrow> bool" where
  "opens sk \<longleftrightarrow> (\<forall>w. fst (socket_open sk w)) \<and> (\<forall>w. 0 \<le> fst (socket_bind sk w))"

lemma nl_query_dump:
  assumes "cb_run_ok sk items" "answers sk items dumps fuel"
  shows "\<exists>w'. nl_query fuel sk nlh portid err cb w d = Some (bindE (run_all cb (dumps (nlmsg_type nlh)) d) (\<lambda>(r, d').
    if r = -1 then fatal ''mnl_socket_recvfrom() failed'' else Inr (w', d')))"
proof -
  obtain sent w1 where snd: "socket_sendto sk nlh w = (sent, w1)" by (cases "socket_sendto sk nlh w")
  then obtain bs where bs: "0 \<le> sent" "length bs < fuel" "delivers sk bs w1" "dump_of items bs (dumps (nlmsg_type nlh))"
    using assms(2) [unfolded answers_def, rule_format, of nlh w] by auto
  obtain w' where "recv_loop fuel sk (nlmsg_seq nlh) portid cb (socket_recvfrom sk w1) d =
      Some (bindE (run_all cb (dumps (nlmsg_type nlh)) d) (\<lambda>(r, d'). Inr (r, w', d')))"
    using recv_loop_dump [OF assms(1) bs(3,4,2)] by blast
  with snd bs(1) show ?thesis
    by (intro exI [of _ w']) (auto simp: nl_query_def bindE_def split: sum.splits)
qed

lemma nl_query_ends:
  assumes "cb_run_ok sk items" "answers sk items dumps fuel" "run_all cb (dumps (nlmsg_type nlh)) d = Inr (r, d')"
  obtains w' where "nl_query fuel sk nlh portid err cb w d =
    Some (if r = -1 then fatal ''mnl_socket_recvfrom() failed'' else Inr (w', d'))"
  using nl_query_dump [OF assms(1,2), of nlh portid err cb w d] assms(3) by auto

text \<open>
  The contract of a callback that updates a collection: from a state that satisfies the invariant it returns, keeps
  the invariant and does to the abstract state what its specification says. A whole dump then refines
  the specification of all its messages.
\<close>

fun run_spec :: "('m \<Rightarrow> 'x \<Rightarrow> int \<times> 'x) \<Rightarrow> 'm list \<Rightarrow> 'x \<Rightarrow> int \<times> 'x" where
  "run_spec spec [] x = (MNL_CB_STOP, x)"
| "run_spec spec (m # ms) x = (let (r, x') = spec m x in if r \<le> MNL_CB_STOP then (r, x') else run_spec spec ms x')"

locale refined_callback =
  fixes cb :: "'m \<Rightarrow> 'd \<Rightarrow> (int \<times> 'd) result"
    and spec :: "'m \<Rightarrow> 'x \<Rightarrow> int \<times> 'x"
    and abs :: "'d \<Rightarrow> 'x" and inv :: "'d \<Rightarrow> bool"
  assumes refines: "inv d \<Longrightarrow> \<exists>r d'. cb m d = Inr (r, d') \<and> inv d' \<and> spec m (abs d) = (r, abs d')"
begin

lemma run_all_refines:
  "inv d \<Longrightarrow> \<exists>r d'. run_all cb ms d = Inr (r, d') \<and> inv d' \<and> run_spec spec ms (abs d) = (r, abs d')"
proof (induction ms arbitrary: d)
  case (Cons m ms)
  obtain r d' where 1: "cb m d = Inr (r, d')" "inv d'" "spec m (abs d) = (r, abs d')"
    using refines [OF Cons.prems] by blast
  then show ?case using Cons.IH [OF 1(2)] by simp
qed simp

end

section \<open>A concrete library and kernel\<close>

text \<open>
  Messages and attributes as the kernel lays them out, and a socket that answers a request with the requested
  dump in two datagrams. It shows that the documented behaviour assumed of the library can be had.
\<close>

datatype nl_attr = Attr nat "u8 list"

record nl_msg =
  m_index :: u32
  m_type :: u8
  m_dst_len :: u8
  m_attrs :: "nl_attr list"

fun attr_len :: "nl_attr \<Rightarrow> nat" where
  "attr_len (Attr t bs) = length bs"

fun attr_mem :: "nl_attr \<Rightarrow> mem" where
  "attr_mem (Attr t bs) i = (if i < length bs then bs ! i else 0)"

fun attr_str :: "nl_attr \<Rightarrow> string" where
  "attr_str (Attr t bs) = map (\<lambda>b. char_of (unat b)) (takeWhile (\<lambda>b. b \<noteq> 0) bs)"

fun attr_type :: "nl_attr \<Rightarrow> nat" where
  "attr_type (Attr t bs) = t"

fun attr_valid :: "nl_attr \<Rightarrow> mnl_type \<Rightarrow> int" where
  "attr_valid a MNL_TYPE_U32 = (if attr_len a = 4 then 0 else -1)"
| "attr_valid a MNL_TYPE_STRING = (if attr_len a = 0 then -1 else 0)"
| "attr_valid a t = 0"

fun parse_attrs :: "('a \<Rightarrow> 't \<Rightarrow> (int \<times> 't) result) \<Rightarrow> 'a list \<Rightarrow> 't \<Rightarrow> (int \<times> 't) result" where
  "parse_attrs cb [] tb = Inr (MNL_CB_OK, tb)"
| "parse_attrs cb (a # as) tb =
     bindE (cb a tb) (\<lambda>(r, tb'). if r \<le> MNL_CB_STOP then Inr (r, tb') else parse_attrs cb as tb')"

definition test_mnl :: "(nl_msg, nl_attr) mnl_api" where
  "test_mnl = \<lparr>attr_get_type = attr_type, attr_type_valid = (\<lambda>a m. if attr_type a \<le> m then 1 else -1),
     attr_validate = attr_valid, attr_get_u32 = (\<lambda>a. rd32 (attr_mem a) 0), attr_get_str = attr_str,
     attr_payload = attr_mem, msg_attrs = m_attrs, attr_parse = (\<lambda>m cb tb. parse_attrs cb (m_attrs m) tb),
     ifa_index = m_index, ifi_index = m_index, rtm_type = m_type, rtm_dst_len = m_dst_len, IFLA_MAX = 60, RTA_MAX = 30\<rparr>"

definition test_socket :: "(u16 \<Rightarrow> nl_msg list) \<Rightarrow> (nl_msg nl_item list list, nl_msg nl_item list, nl_msg, 'd) mnl_socket" where
  "test_socket dumps = \<lparr>socket_open = (\<lambda>w. (True, w)), socket_bind = (\<lambda>w. (0, w)), socket_get_portid = (\<lambda>w. 1),
     time_now = (\<lambda>w. (0, w)), socket_sendto = (\<lambda>nlh w. (1, [map Msg (dumps (nlmsg_type nlh)), [Done]])),
     socket_recvfrom = (\<lambda>w. case w of [] \<Rightarrow> (0, [], []) | b # bs \<Rightarrow> (1, b, bs)),
     cb_run = (\<lambda>buf n sn port cb d. run_items MNL_CB_OK cb buf d), socket_close = (\<lambda>w. w)\<rparr>"

lemma test_cb_run_ok: "cb_run_ok (test_socket dumps) (\<lambda>b. b)"
  by (simp add: cb_run_ok_def test_socket_def)

lemma test_sendto: "socket_sendto (test_socket dumps) nlh w = (1, [map Msg (dumps (nlmsg_type nlh)), [Done]])"
  by (simp add: test_socket_def)

lemma test_dump_of: "dump_of (\<lambda>b. b) [map Msg ms, [Done]] ms"
  by (simp add: dump_of_def)

lemma test_answers: "answers (test_socket dumps) (\<lambda>b. b) dumps 3"
  unfolding answers_def test_sendto case_prod_conv
proof (intro allI conjI)
  fix nlh :: nl_request
  show "\<exists>bs. length bs < 3 \<and> delivers (test_socket dumps) bs [map Msg (dumps (nlmsg_type nlh)), [Done]] \<and>
      dump_of (\<lambda>b. b) bs (dumps (nlmsg_type nlh))"
    by (rule exI [of _ "[map Msg (dumps (nlmsg_type nlh)), [Done]]"]) (simp add: test_dump_of, simp add: test_socket_def)
qed simp

lemma test_opens: "opens (test_socket dumps)"
  by (simp add: opens_def test_socket_def)

end
