(* ===== verification/Netlink.thy ===== *)
theory Netlink
  imports Mnl
begin

text \<open>
  \<^verbatim>\<open>src/netlink.cpp\<close>: the ports of the machine, collected from two rtnetlink dumps, the addresses first and then
  the links. The callbacks search the vector for the object with the index of the message and create one when there is
  none. The abstract state is the finite map from interface index to interface that the
  vector represents; each callback is shown to be an update of that map at one index.
\<close>

section \<open>State\<close>

text \<open>
  The vector of pointers with the objects they point to; \<^verbatim>\<open>make_shared\<close> takes the next unused pointer.
\<close>

record nl_state =
  nl_heap :: iheap
  nl_fresh :: iptr
  nl_ifaces :: "iptr list"

definition IFA_ADDRESS :: nat where "IFA_ADDRESS = 1"
definition IFA_LABEL :: nat where "IFA_LABEL = 3"
definition IFLA_ADDRESS :: nat where "IFLA_ADDRESS = 1"

lemmas ifa_defs = IFA_ADDRESS_def IFA_LABEL_def IFLA_ADDRESS_def

text \<open>
  The search that both callbacks begin with. It does not stop at the first match, so that the last one counts; a
  new object is initialised with the default members and those the callback sets.
\<close>

definition find_or_new :: "Interface \<Rightarrow> u32 \<Rightarrow> nl_state \<Rightarrow> iptr \<times> nl_state" where
  "find_or_new fresh_iface idx s =
     (case find (\<lambda>p. netlinkIndex (nl_heap s p) = idx) (rev (nl_ifaces s)) of
        Some p \<Rightarrow> (p, s)
      | None \<Rightarrow> let p = nl_fresh s in
          (p, s\<lparr>nl_heap := (nl_heap s)(p := fresh_iface), nl_fresh := Suc p, nl_ifaces := nl_ifaces s @ [p]\<rparr>))"

section \<open>The callbacks\<close>

text \<open>The loops over the attributes, which write to the members of one object.\<close>

fun ip_attrs :: "('m, 'a) mnl_api \<Rightarrow> 'a list \<Rightarrow> Interface \<Rightarrow> int \<times> Interface" where
  "ip_attrs api [] i = (MNL_CB_OK, i)"
| "ip_attrs api (a # as) i =
     (if attr_type_valid api a (IFLA_MAX api) < 0 then ip_attrs api as i
      else if attr_get_type api a = IFA_ADDRESS then
        if attr_validate api a MNL_TYPE_BINARY < 0 then (MNL_CB_ERROR, i)
        else ip_attrs api as (i\<lparr>IPs := IPs i @ [htonl (attr_get_u32 api a)]\<rparr>)
      else if attr_get_type api a = IFA_LABEL then
        if attr_validate api a MNL_TYPE_STRING < 0 then (MNL_CB_ERROR, i)
        else ip_attrs api as (i\<lparr>if_name := attr_get_str api a\<rparr>)
      else ip_attrs api as i)"

fun link_attrs :: "('m, 'a) mnl_api \<Rightarrow> 'a list \<Rightarrow> Interface \<Rightarrow> int \<times> Interface" where
  "link_attrs api [] i = (MNL_CB_OK, i)"
| "link_attrs api (a # as) i =
     (if attr_type_valid api a (IFLA_MAX api) < 0 then link_attrs api as i
      else if attr_get_type api a = IFLA_ADDRESS then
        link_attrs api as (i\<lparr>if_mac := rd_mac (attr_payload api a) 0\<rparr>)
      else if attr_get_type api a = IFA_LABEL then
        if attr_validate api a MNL_TYPE_STRING < 0 then (MNL_CB_ERROR, i)
        else link_attrs api as (i\<lparr>if_name := attr_get_str api a\<rparr>)
      else link_attrs api as i)"

definition data_cb_ip :: "('m, 'a) mnl_api \<Rightarrow> 'm \<Rightarrow> nl_state \<Rightarrow> (int \<times> nl_state) result" where
  "data_cb_ip api nlh s =
     (let idx = ifa_index api nlh;
          (p, s) = find_or_new (new_Interface\<lparr>netlinkIndex := idx\<rparr>) idx s;
          (ret, i) = ip_attrs api (msg_attrs api nlh) (nl_heap s p)
      in Inr (ret, s\<lparr>nl_heap := (nl_heap s)(p := i)\<rparr>))"

definition data_cb_link :: "('m, 'a) mnl_api \<Rightarrow> 'm \<Rightarrow> nl_state \<Rightarrow> (int \<times> nl_state) result" where
  "data_cb_link api nlh s =
     (let idx = ifi_index api nlh;
          (p, s) = find_or_new (new_Interface\<lparr>netlinkIndex := idx, if_name := ''noname'', if_mac := zero_mac\<rparr>) idx s;
          (ret, i) = link_attrs api (msg_attrs api nlh) (nl_heap s p)
      in Inr (ret, s\<lparr>nl_heap := (nl_heap s)(p := i)\<rparr>))"

section \<open>All interfaces\<close>

definition RTM_GETADDR :: u16 where "RTM_GETADDR = 22"
definition RTM_GETLINK :: u16 where "RTM_GETLINK = 18"
definition NLM_F_REQUEST :: u16 where "NLM_F_REQUEST = 1"
definition NLM_F_DUMP :: u16 where "NLM_F_DUMP = 0x300"
definition AF_INET :: u8 where "AF_INET = 2"
definition AF_PACKET :: u8 where "AF_PACKET = 17"

definition interfaces_log :: "nl_state \<Rightarrow> string" where
  "interfaces_log s =
     (let tab = [char_of (9 :: nat)] in
      ''Interfaces:'' @ endl @
      concat (map (\<lambda>p. let i = nl_heap s p in
        tab @ ''Name: '' @ if_name i @ endl @
        tab @ ''MAC address: '' @ mac_to_str (if_mac i) @ endl @
        tab @ ''Netlink Index: '' @ string_of_nat (unat (netlinkIndex i)) @ endl @
        tab @ ''IP addresses: '' @
        concat (map (\<lambda>ip. ip_to_str ip @ endl @ tab @ ''              '') (IPs i)) @ endl) (nl_ifaces s)))"

text \<open>
  The result is the vector with its objects, the state of the kernel and the text for the log. The vector is a local variable
  that starts empty; \<open>h\<close> and \<open>p\<close> are the objects that exist already and the next unused pointer.
\<close>

definition getAllInterfaces ::
    "nat \<Rightarrow> ('m, 'a) mnl_api \<Rightarrow> ('w, 'b, 'm, nl_state) mnl_socket \<Rightarrow> iheap \<Rightarrow> iptr \<Rightarrow> 'w \<Rightarrow>
     (nl_state \<times> 'w \<times> string) result option" where
  "getAllInterfaces fuel api sk h p w =
     (let (opened, w) = socket_open sk w in
      if \<not> opened then Some (fatal ''mnl_socket_open() failed'')
      else let (bound, w) = socket_bind sk w in
      if bound < 0 then Some (fatal ''mnl_socket_bind() failed'')
      else let portid = socket_get_portid sk w; (t, w) = time_now sk w;
        nlh = \<lparr>nlmsg_type = RTM_GETADDR, nlmsg_flags = NLM_F_REQUEST OR NLM_F_DUMP, nlmsg_seq = t, nl_family = AF_INET\<rparr> in
      bindO (nl_query fuel sk nlh portid ''mnl_socket_sendto() failed'' (data_cb_ip api) w
               \<lparr>nl_heap = h, nl_fresh = p, nl_ifaces = []\<rparr>) (\<lambda>(w, s).
      let (t, w) = time_now sk w;
        nlh = \<lparr>nlmsg_type = RTM_GETLINK, nlmsg_flags = NLM_F_REQUEST OR NLM_F_DUMP, nlmsg_seq = t, nl_family = AF_PACKET\<rparr> in
      bindO (nl_query fuel sk nlh portid ''mnl_socket_sendto'' (data_cb_link api) w s) (\<lambda>(w, s).
      Some (Inr (s, socket_close sk w, interfaces_log s)))))"

section \<open>The map from index to interface\<close>

definition nl_abs :: "nl_state \<Rightarrow> u32 \<Rightarrow> Interface option" where
  "nl_abs s idx = map_option (nl_heap s) (find (\<lambda>p. netlinkIndex (nl_heap s p) = idx) (nl_ifaces s))"

definition nl_inv :: "nl_state \<Rightarrow> bool" where
  "nl_inv s \<longleftrightarrow> distinct (map (\<lambda>p. netlinkIndex (nl_heap s p)) (nl_ifaces s)) \<and> (\<forall>p \<in> set (nl_ifaces s). p < nl_fresh s)"

text \<open>A callback on the map: the interface of the message's index, a new one if need be, goes through the loop over the attributes.\<close>

definition at_index :: "('a list \<Rightarrow> Interface \<Rightarrow> int \<times> Interface) \<Rightarrow> u32 \<Rightarrow> 'a list \<Rightarrow> (u32 \<rightharpoonup> Interface) \<Rightarrow> int \<times> (u32 \<rightharpoonup> Interface)" where
  "at_index step idx as M =
     (let (ret, i) = step as (case M idx of Some i \<Rightarrow> i | None \<Rightarrow> new_Interface\<lparr>netlinkIndex := idx\<rparr>) in (ret, M(idx \<mapsto> i)))"

definition ip_step :: "('m, 'a) mnl_api \<Rightarrow> 'm \<Rightarrow> (u32 \<rightharpoonup> Interface) \<Rightarrow> int \<times> (u32 \<rightharpoonup> Interface)" where
  "ip_step api m = at_index (ip_attrs api) (ifa_index api m) (msg_attrs api m)"

definition link_step :: "('m, 'a) mnl_api \<Rightarrow> 'm \<Rightarrow> (u32 \<rightharpoonup> Interface) \<Rightarrow> int \<times> (u32 \<rightharpoonup> Interface)" where
  "link_step api m = at_index (link_attrs api) (ifi_index api m) (msg_attrs api m)"

lemma find_unique:
  assumes "x \<in> set xs" "P x" "\<And>y. y \<in> set xs \<Longrightarrow> P y \<Longrightarrow> y = x"
  shows "find P xs = Some x"
proof -
  obtain y where y: "find P xs = Some y" using assms(1,2) by (cases "find P xs") (auto simp: find_None_iff)
  then have "y \<in> set xs" "P y" by (auto simp: find_Some_iff)
  with y assms(3) show ?thesis by blast
qed

lemma nl_inv_inj:
  assumes "nl_inv s" "p \<in> set (nl_ifaces s)" "q \<in> set (nl_ifaces s)" "netlinkIndex (nl_heap s p) = netlinkIndex (nl_heap s q)"
  shows "p = q"
  using assms by (auto simp: nl_inv_def distinct_map inj_on_def)

lemma nl_abs_Some_iff:
  assumes "nl_inv s"
  shows "nl_abs s idx = Some i \<longleftrightarrow> (\<exists>p \<in> set (nl_ifaces s). nl_heap s p = i \<and> netlinkIndex i = idx)"
proof
  assume "nl_abs s idx = Some i"
  then show "\<exists>p \<in> set (nl_ifaces s). nl_heap s p = i \<and> netlinkIndex i = idx"
    by (auto simp: nl_abs_def find_Some_iff)
next
  assume "\<exists>p \<in> set (nl_ifaces s). nl_heap s p = i \<and> netlinkIndex i = idx"
  then obtain p where p: "p \<in> set (nl_ifaces s)" "nl_heap s p = i" "netlinkIndex i = idx" by blast
  with nl_inv_inj [OF assms] have "find (\<lambda>p. netlinkIndex (nl_heap s p) = idx) (nl_ifaces s) = Some p"
    by (intro find_unique) auto
  with p show "nl_abs s idx = Some i" by (simp add: nl_abs_def)
qed

lemma nl_abs_None_iff: "nl_abs s idx = None \<longleftrightarrow> (\<forall>p \<in> set (nl_ifaces s). netlinkIndex (nl_heap s p) \<noteq> idx)"
  by (auto simp: nl_abs_def find_None_iff)

text \<open>Overwriting an object of the vector, its index kept, is an update of the map.\<close>

lemma nl_write:
  assumes "nl_inv s" "p \<in> set (nl_ifaces s)" "netlinkIndex (nl_heap s p) = idx" "netlinkIndex i = idx"
  shows "nl_inv (s\<lparr>nl_heap := (nl_heap s)(p := i)\<rparr>)" (is "nl_inv ?s")
    and "nl_abs (s\<lparr>nl_heap := (nl_heap s)(p := i)\<rparr>) = (nl_abs s)(idx \<mapsto> i)"
proof -
  have same: "netlinkIndex (nl_heap ?s q) = netlinkIndex (nl_heap s q)" for q using assms(3,4) by simp
  have inv: "nl_inv ?s"
    using assms(1) unfolding nl_inv_def same [abs_def] by simp
  then show "nl_inv ?s" .
  show "nl_abs ?s = (nl_abs s)(idx \<mapsto> i)"
  proof
    fix j
    show "nl_abs ?s j = ((nl_abs s)(idx \<mapsto> i)) j"
    proof (cases "j = idx")
      case True
      then show ?thesis using assms(2,4) nl_abs_Some_iff [OF inv, of j i] by auto
    next
      case False
      then have f: "find (\<lambda>q. netlinkIndex (nl_heap ?s q) = j) (nl_ifaces s) = find (\<lambda>q. netlinkIndex (nl_heap s q) = j) (nl_ifaces s)"
        by (simp only: same)
      have "nl_heap ?s q = nl_heap s q" if "find (\<lambda>q. netlinkIndex (nl_heap s q) = j) (nl_ifaces s) = Some q" for q
        using that False assms(3) by (auto simp: find_Some_iff)
      then show ?thesis using False unfolding nl_abs_def
        by (cases "find (\<lambda>q. netlinkIndex (nl_heap s q) = j) (nl_ifaces s)") (simp_all add: f [simplified])
    qed
  qed
qed

lemma find_or_new_known:
  assumes "nl_inv s" "nl_abs s idx = Some i"
  shows "\<exists>p \<in> set (nl_ifaces s). find_or_new f idx s = (p, s) \<and> nl_heap s p = i \<and> netlinkIndex i = idx"
proof -
  obtain p where p: "p \<in> set (nl_ifaces s)" "nl_heap s p = i" "netlinkIndex i = idx"
    using assms nl_abs_Some_iff by blast
  with nl_inv_inj [OF assms(1)] have "find (\<lambda>p. netlinkIndex (nl_heap s p) = idx) (rev (nl_ifaces s)) = Some p"
    by (intro find_unique) auto
  with p show ?thesis by (auto simp: find_or_new_def)
qed

lemma find_or_new_fresh:
  assumes "nl_inv s" "nl_abs s idx = None" "netlinkIndex f = idx"
  shows "\<exists>s1. find_or_new f idx s = (nl_fresh s, s1) \<and> nl_fresh s \<in> set (nl_ifaces s1) \<and> nl_heap s1 (nl_fresh s) = f \<and>
    nl_inv s1 \<and> nl_abs s1 = (nl_abs s)(idx \<mapsto> f)"
proof -
  let ?p = "nl_fresh s"
  let ?s = "s\<lparr>nl_heap := (nl_heap s)(?p := f), nl_fresh := Suc ?p, nl_ifaces := nl_ifaces s @ [?p]\<rparr>"
  have none: "\<forall>p \<in> set (nl_ifaces s). netlinkIndex (nl_heap s p) \<noteq> idx" using assms(2) by (simp add: nl_abs_None_iff)
  have lt: "\<forall>p \<in> set (nl_ifaces s). p < ?p" using assms(1) by (simp add: nl_inv_def)
  have eq: "find_or_new f idx s = (?p, ?s)"
    using none find_None_iff [of "\<lambda>p. netlinkIndex (nl_heap s p) = idx" "rev (nl_ifaces s)"]
    by (simp add: find_or_new_def Let_def)
  have idxs: "map (\<lambda>p. netlinkIndex (nl_heap ?s p)) (nl_ifaces ?s) = map (\<lambda>p. netlinkIndex (nl_heap s p)) (nl_ifaces s) @ [idx]"
    using lt assms(3) by auto
  have inv: "nl_inv ?s"
    using assms(1) none lt unfolding nl_inv_def idxs by (auto simp: less_Suc_eq)
  have "nl_abs ?s j = ((nl_abs s)(idx \<mapsto> f)) j" for j
  proof (cases "nl_abs ?s j")
    case None
    then have no: "\<forall>p \<in> set (nl_ifaces ?s). netlinkIndex (nl_heap ?s p) \<noteq> j" by (simp only: nl_abs_None_iff)
    then have "netlinkIndex (nl_heap s p) \<noteq> j" if "p \<in> set (nl_ifaces s)" for p
      using that lt by (auto dest!: bspec [of _ _ p])
    then have "nl_abs s j = None" by (simp add: nl_abs_None_iff)
    moreover have "j \<noteq> idx" using no assms(3) by auto
    ultimately show ?thesis using None by simp
  next
    case (Some i)
    then obtain p where "p \<in> set (nl_ifaces ?s)" and p: "nl_heap ?s p = i" "netlinkIndex i = j"
      using nl_abs_Some_iff [OF inv] by blast
    then have mem: "p \<in> set (nl_ifaces s) \<or> p = ?p" by auto
    show ?thesis
    proof (cases "p = ?p")
      case True
      with p assms(3) Some show ?thesis by auto
    next
      case False
      with p mem have q: "p \<in> set (nl_ifaces s)" "nl_heap s p = i" by auto
      then have "nl_abs s j = Some i" using nl_abs_Some_iff [OF assms(1)] p(2) by blast
      moreover have "j \<noteq> idx" using none q p(2) by auto
      ultimately show ?thesis using Some by simp
    qed
  qed
  with eq inv show ?thesis by auto
qed

lemma ip_attrs_index: "netlinkIndex (snd (ip_attrs api as i)) = netlinkIndex i"
  by (induction api as i rule: ip_attrs.induct) auto

lemma link_attrs_index: "netlinkIndex (snd (link_attrs api as i)) = netlinkIndex i"
  by (induction api as i rule: link_attrs.induct) auto

text \<open>The shape both callbacks have: search or create, run over the attributes, write back.\<close>

lemma callback_refines:
  assumes inv: "nl_inv s" and idx: "\<And>i. netlinkIndex (snd (step as i)) = netlinkIndex i"
    and f: "f = new_Interface\<lparr>netlinkIndex := k\<rparr>"
  shows "\<exists>r s'. (let (p, s) = find_or_new f k s; (ret, i) = step as (nl_heap s p)
            in Inr (ret, s\<lparr>nl_heap := (nl_heap s)(p := i)\<rparr>)) = Inr (r, s') \<and>
      nl_inv s' \<and> at_index step k as (nl_abs s) = (r, nl_abs s')"
proof (cases "nl_abs s k")
  case None
  obtain s1 where s1: "find_or_new f k s = (nl_fresh s, s1)" "nl_fresh s \<in> set (nl_ifaces s1)" "nl_heap s1 (nl_fresh s) = f"
    "nl_inv s1" "nl_abs s1 = (nl_abs s)(k \<mapsto> f)"
    using find_or_new_fresh [OF inv None, of f] f by auto
  obtain r i where r: "step as f = (r, i)" by (cases "step as f")
  have "netlinkIndex i = k" using idx [of f] r f by simp
  with nl_write [OF s1(4,2), of k i] s1 f None r show ?thesis by (simp add: at_index_def)
next
  case (Some i0)
  then obtain p where p: "find_or_new f k s = (p, s)" "p \<in> set (nl_ifaces s)" "nl_heap s p = i0" "netlinkIndex i0 = k"
    using find_or_new_known [OF inv Some] by blast
  obtain r i where r: "step as i0 = (r, i)" by (cases "step as i0")
  have "netlinkIndex i = k" using idx [of i0] r p by simp
  with nl_write [OF inv p(2), of k i] p Some r show ?thesis by (simp add: at_index_def)
qed

interpretation ip: refined_callback "data_cb_ip api" "ip_step api" nl_abs nl_inv for api
proof (unfold_locales, goal_cases)
  case (1 d m)
  from callback_refines [OF this, of "ip_attrs api" "msg_attrs api m" _ "ifa_index api m", OF ip_attrs_index refl]
  show ?case by (simp add: data_cb_ip_def ip_step_def Let_def)
qed

lemma new_link: "new_Interface\<lparr>netlinkIndex := k, if_name := ''noname'', if_mac := zero_mac\<rparr> = new_Interface\<lparr>netlinkIndex := k\<rparr>"
  by (simp add: new_Interface_def)

interpretation link: refined_callback "data_cb_link api" "link_step api" nl_abs nl_inv for api
proof (unfold_locales, goal_cases)
  case (1 d m)
  from callback_refines [OF this, of "link_attrs api" "msg_attrs api m" _ "ifi_index api m", OF link_attrs_index new_link]
  show ?case by (simp add: data_cb_link_def link_step_def Let_def)
qed

section \<open>The result of the two dumps\<close>

text \<open>
  What the dumps say, without the loops: the attributes of one type among those the program supports, the messages it
  refuses, and the interface that the messages of an index describe. Of several names or hardware
  addresses the last one counts; addresses accumulate.
\<close>

definition attrs_of :: "('m, 'a) mnl_api \<Rightarrow> nat \<Rightarrow> 'a list \<Rightarrow> 'a list" where
  "attrs_of api ty as = filter (\<lambda>a. 0 \<le> attr_type_valid api a (IFLA_MAX api) \<and> attr_get_type api a = ty) as"

definition refused_label :: "('m, 'a) mnl_api \<Rightarrow> 'a list \<Rightarrow> bool" where
  "refused_label api as \<longleftrightarrow> (\<exists>a \<in> set (attrs_of api IFA_LABEL as). attr_validate api a MNL_TYPE_STRING < 0)"

definition refused_address :: "('m, 'a) mnl_api \<Rightarrow> 'a list \<Rightarrow> bool" where
  "refused_address api as \<longleftrightarrow> (\<exists>a \<in> set (attrs_of api IFA_ADDRESS as). attr_validate api a MNL_TYPE_BINARY < 0)"

definition attrs_at :: "('m, 'a) mnl_api \<Rightarrow> ('m \<Rightarrow> u32) \<Rightarrow> 'm list \<Rightarrow> u32 \<Rightarrow> 'a list" where
  "attrs_at api key ms idx = concat (map (msg_attrs api) (filter (\<lambda>m. key m = idx) ms))"

definition described :: "('m, 'a) mnl_api \<Rightarrow> 'm list \<Rightarrow> 'm list \<Rightarrow> u32 \<Rightarrow> Interface option" where
  "described api addrs links idx =
     (let as = attrs_at api (ifa_index api) addrs idx; ls = attrs_at api (ifi_index api) links idx in
      if idx \<in> ifa_index api ` set addrs \<union> ifi_index api ` set links
      then Some \<lparr>if_mac = last (zero_mac # map (\<lambda>a. rd_mac (attr_payload api a) 0) (attrs_of api IFLA_ADDRESS ls)),
        netlinkIndex = idx, netmapIndex = uint32_t_max,
        IPs = map (\<lambda>a. htonl (attr_get_u32 api a)) (attrs_of api IFA_ADDRESS as),
        if_name = last (''noname'' # map (attr_get_str api) (attrs_of api IFA_LABEL (as @ ls)))\<rparr>
      else None)"

text \<open>The two loops do this to the object of a message.\<close>

definition ip_effect :: "('m, 'a) mnl_api \<Rightarrow> 'a list \<Rightarrow> Interface \<Rightarrow> Interface" where
  "ip_effect api as i = i\<lparr>IPs := IPs i @ map (\<lambda>a. htonl (attr_get_u32 api a)) (attrs_of api IFA_ADDRESS as),
     if_name := last (if_name i # map (attr_get_str api) (attrs_of api IFA_LABEL as))\<rparr>"

definition link_effect :: "('m, 'a) mnl_api \<Rightarrow> 'a list \<Rightarrow> Interface \<Rightarrow> Interface" where
  "link_effect api as i = i\<lparr>if_mac := last (if_mac i # map (\<lambda>a. rd_mac (attr_payload api a) 0) (attrs_of api IFLA_ADDRESS as)),
     if_name := last (if_name i # map (attr_get_str api) (attrs_of api IFA_LABEL as))\<rparr>"

lemmas attr_effects = attrs_of_def refused_label_def refused_address_def ip_effect_def link_effect_def

lemma ip_attrs_ok:
  "\<not> (refused_address api as \<or> refused_label api as) \<Longrightarrow> ip_attrs api as i = (MNL_CB_OK, ip_effect api as i)"
  by (induction api as i rule: ip_attrs.induct) (auto simp: attr_effects ifa_defs)

lemma ip_attrs_refused:
  "refused_address api as \<or> refused_label api as \<Longrightarrow> fst (ip_attrs api as i) = MNL_CB_ERROR"
  by (induction api as i rule: ip_attrs.induct) (auto simp: attr_effects ifa_defs split: if_splits)

lemma link_attrs_ok: "\<not> refused_label api as \<Longrightarrow> link_attrs api as i = (MNL_CB_OK, link_effect api as i)"
  by (induction api as i rule: link_attrs.induct) (auto simp: attr_effects ifa_defs)

lemma link_attrs_refused: "refused_label api as \<Longrightarrow> fst (link_attrs api as i) = MNL_CB_ERROR"
  by (induction api as i rule: link_attrs.induct) (auto simp: attr_effects ifa_defs split: if_splits)

lemma effects_append:
  "ip_effect api [] i = i" "ip_effect api (as @ bs) i = ip_effect api bs (ip_effect api as i)"
  "link_effect api [] i = i" "link_effect api (as @ bs) i = link_effect api bs (link_effect api as i)"
  by (simp_all add: ip_effect_def link_effect_def attrs_of_def last_append)

text \<open>A whole dump stops at the first message that is refused, or else leaves every index with the effect of its messages.\<close>

abbreviation or_new :: "Interface option \<Rightarrow> u32 \<Rightarrow> Interface" where
  "or_new x idx \<equiv> (case x of Some i \<Rightarrow> i | None \<Rightarrow> new_Interface\<lparr>netlinkIndex := idx\<rparr>)"

lemma run_spec_refused:
  assumes spec: "\<And>m M. spec m M = at_index step (key m) (msg_attrs api m) M"
    and ok: "\<And>as i. \<not> bad as \<Longrightarrow> step as i = (MNL_CB_OK, eff as i)" and err: "\<And>as i. bad as \<Longrightarrow> fst (step as i) = MNL_CB_ERROR"
  shows "\<exists>m \<in> set ms. bad (msg_attrs api m) \<Longrightarrow> fst (run_spec spec ms M) = MNL_CB_ERROR"
proof (induction ms arbitrary: M)
  case (Cons m ms)
  show ?case
  proof (cases "bad (msg_attrs api m)")
    case True
    then have "fst (spec m M) = MNL_CB_ERROR" using err by (simp add: spec at_index_def case_prod_beta)
    then show ?thesis by (simp add: case_prod_beta mnl_cb_defs)
  next
    case False
    then show ?thesis using Cons by (simp add: spec at_index_def ok mnl_cb_defs)
  qed
qed simp

lemma run_spec_complete:
  assumes spec: "\<And>m M. spec m M = at_index step (key m) (msg_attrs api m) M"
    and ok: "\<And>as i. \<not> bad as \<Longrightarrow> step as i = (MNL_CB_OK, eff as i)"
    and eff: "\<And>i. eff [] i = i" "\<And>as bs i. eff (as @ bs) i = eff bs (eff as i)"
  shows "\<not> (\<exists>m \<in> set ms. bad (msg_attrs api m)) \<Longrightarrow> run_spec spec ms M =
     (MNL_CB_STOP, \<lambda>idx. if idx \<in> key ` set ms then Some (eff (attrs_at api key ms idx) (or_new (M idx) idx)) else M idx)"
proof (induction ms arbitrary: M)
  case (Cons m ms)
  let ?N = "M(key m \<mapsto> eff (msg_attrs api m) (or_new (M (key m)) (key m)))"
  have "spec m M = (MNL_CB_OK, ?N)" using Cons.prems by (simp add: spec at_index_def ok)
  then have "run_spec spec (m # ms) M = run_spec spec ms ?N" by (simp add: mnl_cb_defs)
  moreover have "(if idx \<in> key ` set ms then Some (eff (attrs_at api key ms idx) (or_new (?N idx) idx)) else ?N idx) =
      (if idx \<in> key ` set (m # ms) then Some (eff (attrs_at api key (m # ms) idx) (or_new (M idx) idx)) else M idx)" for idx
  proof -
    have none: "attrs_at api key ms idx = []" if "idx \<notin> key ` set ms" using that by (auto simp: attrs_at_def filter_empty_conv)
    have "attrs_at api key (m # ms) idx = (if idx = key m then msg_attrs api m else []) @ attrs_at api key ms idx"
      by (simp add: attrs_at_def)
    with none show ?thesis by (auto simp: eff)
  qed
  moreover have "\<not> (\<exists>m \<in> set ms. bad (msg_attrs api m))" using Cons.prems by simp
  ultimately show ?case using Cons.IH [of ?N] by presburger
qed simp

abbreviation ip_refused :: "('m, 'a) mnl_api \<Rightarrow> 'm \<Rightarrow> bool" where
  "ip_refused api m \<equiv> refused_address api (msg_attrs api m) \<or> refused_label api (msg_attrs api m)"

lemma ip_dump_refused: "\<exists>m \<in> set ms. ip_refused api m \<Longrightarrow> fst (run_spec (ip_step api) ms M) = MNL_CB_ERROR"
  by (rule run_spec_refused [where step = "ip_attrs api" and bad = "\<lambda>as. refused_address api as \<or> refused_label api as"
        and eff = "ip_effect api" and key = "ifa_index api" and api = api])
    (simp_all add: ip_step_def ip_attrs_ok ip_attrs_refused)

lemma ip_dump_complete: "\<not> (\<exists>m \<in> set ms. ip_refused api m) \<Longrightarrow> run_spec (ip_step api) ms M =
    (MNL_CB_STOP, \<lambda>idx. if idx \<in> ifa_index api ` set ms
       then Some (ip_effect api (attrs_at api (ifa_index api) ms idx) (or_new (M idx) idx)) else M idx)"
  by (rule run_spec_complete [where step = "ip_attrs api" and bad = "\<lambda>as. refused_address api as \<or> refused_label api as"
        and eff = "ip_effect api" and key = "ifa_index api" and api = api])
    (simp_all add: ip_step_def ip_attrs_ok effects_append)

lemma link_dump_refused: "\<exists>m \<in> set ms. refused_label api (msg_attrs api m) \<Longrightarrow> fst (run_spec (link_step api) ms M) = MNL_CB_ERROR"
  by (rule run_spec_refused [where step = "link_attrs api" and bad = "refused_label api"
        and eff = "link_effect api" and key = "ifi_index api" and api = api])
    (simp_all add: link_step_def link_attrs_ok link_attrs_refused)

lemma link_dump_complete: "\<not> (\<exists>m \<in> set ms. refused_label api (msg_attrs api m)) \<Longrightarrow> run_spec (link_step api) ms M =
    (MNL_CB_STOP, \<lambda>idx. if idx \<in> ifi_index api ` set ms
       then Some (link_effect api (attrs_at api (ifi_index api) ms idx) (or_new (M idx) idx)) else M idx)"
  by (rule run_spec_complete [where step = "link_attrs api" and bad = "refused_label api"
        and eff = "link_effect api" and key = "ifi_index api" and api = api])
    (simp_all add: link_step_def link_attrs_ok effects_append)

lemma described_runs:
  assumes "M1 = (\<lambda>idx. if idx \<in> ifa_index api ` set addrs
      then Some (ip_effect api (attrs_at api (ifa_index api) addrs idx) (or_new None idx)) else None)"
    and "M2 = (\<lambda>idx. if idx \<in> ifi_index api ` set links
      then Some (link_effect api (attrs_at api (ifi_index api) links idx) (or_new (M1 idx) idx)) else M1 idx)"
  shows "M2 = described api addrs links"
proof
  fix idx
  have none: "attrs_at api key ms idx = []" if "idx \<notin> key ` set ms" for key ms
    using that by (auto simp: attrs_at_def filter_empty_conv)
  show "M2 idx = described api addrs links idx"
    by (cases "idx \<in> ifa_index api ` set addrs"; cases "idx \<in> ifi_index api ` set links")
      (simp_all add: assms described_def Let_def none ip_effect_def link_effect_def attrs_of_def new_Interface_def last_append)
qed

text \<open>Both queries with what their callbacks leave.\<close>

lemma getAllInterfaces_queries:
  assumes "opens sk" "cb_run_ok sk items" "answers sk items dumps fuel"
    and "run_all (data_cb_ip api) (dumps RTM_GETADDR) \<lparr>nl_heap = h, nl_fresh = p, nl_ifaces = []\<rparr> = Inr (r1, s1)"
    and "run_all (data_cb_link api) (dumps RTM_GETLINK) s1 = Inr (r2, s2)"
  shows "\<exists>w'. getAllInterfaces fuel api sk h p w =
    Some (if r1 = -1 \<or> r2 = -1 then fatal ''mnl_socket_recvfrom() failed'' else Inr (s2, w', interfaces_log s2))"
proof -
  let ?nlh = "\<lambda>ty fam t. \<lparr>nlmsg_type = ty, nlmsg_flags = NLM_F_REQUEST OR NLM_F_DUMP, nlmsg_seq = t, nl_family = fam\<rparr>"
  obtain b1 w1 b2 w2 t w3 where w: "socket_open sk w = (b1, w1)" "socket_bind sk w1 = (b2, w2)" "time_now sk w2 = (t, w3)"
    by (metis surj_pair)
  have ok: "b1" "\<not> b2 < 0" using assms(1) w by (auto simp: opens_def) (metis fst_conv, metis fst_conv not_le)
  obtain w4 where q1: "nl_query fuel sk (?nlh RTM_GETADDR AF_INET t) (socket_get_portid sk w2) ''mnl_socket_sendto() failed''
      (data_cb_ip api) w3 \<lparr>nl_heap = h, nl_fresh = p, nl_ifaces = []\<rparr> =
      Some (if r1 = -1 then fatal ''mnl_socket_recvfrom() failed'' else Inr (w4, s1))"
    using assms(4) by (rule nl_query_ends [OF assms(2,3), where nlh = "?nlh RTM_GETADDR AF_INET t", simplified])
  obtain t' w5 where w5: "time_now sk w4 = (t', w5)" by (metis surj_pair)
  obtain w6 where q2: "nl_query fuel sk (?nlh RTM_GETLINK AF_PACKET t') (socket_get_portid sk w2) ''mnl_socket_sendto''
      (data_cb_link api) w5 s1 = Some (if r2 = -1 then fatal ''mnl_socket_recvfrom() failed'' else Inr (w6, s2))"
    using assms(5) by (rule nl_query_ends [OF assms(2,3), where nlh = "?nlh RTM_GETLINK AF_PACKET t'", simplified])
  have "getAllInterfaces fuel api sk h p w =
      Some (if r1 = -1 \<or> r2 = -1 then fatal ''mnl_socket_recvfrom() failed'' else Inr (s2, socket_close sk w6, interfaces_log s2))"
    using w ok q1 w5 q2 by (simp add: getAllInterfaces_def fatal_def)
  then show ?thesis by blast
qed

text \<open>
  C14: Collecting the interfaces computes the map from kernel index to interface that the two dumps describe. With a kernel that
  answers both requests, the program stops if an address message has an address or a name that fails its validation,
  or a link message has a name that does. Otherwise it returns a vector with one object for each index that occurs in the
  dumps, and no other: its addresses are those of all address messages of that index, in the order of the dump and in
  host byte order, its name is the last name and its hardware address the last one that a message of that
  index carries, and it has no netmap index yet.
\<close>

theorem getAllInterfaces_refines:
  assumes "opens sk" "cb_run_ok sk items" "answers sk items dumps fuel"
  shows "if (\<exists>m \<in> set (dumps RTM_GETADDR). refused_address api (msg_attrs api m) \<or> refused_label api (msg_attrs api m)) \<or>
      (\<exists>m \<in> set (dumps RTM_GETLINK). refused_label api (msg_attrs api m))
    then getAllInterfaces fuel api sk h p w = Some (fatal ''mnl_socket_recvfrom() failed'')
    else \<exists>s w'. getAllInterfaces fuel api sk h p w = Some (Inr (s, w', interfaces_log s)) \<and>
      nl_inv s \<and> nl_abs s = described api (dumps RTM_GETADDR) (dumps RTM_GETLINK)"
proof -
  let ?s0 = "\<lparr>nl_heap = h, nl_fresh = p, nl_ifaces = []\<rparr>" and ?ads = "dumps RTM_GETADDR" and ?lks = "dumps RTM_GETLINK"
  have s0: "nl_inv ?s0" "nl_abs ?s0 = Map.empty" by (auto simp: nl_inv_def nl_abs_def)
  obtain r1 s1 where s1: "run_all (data_cb_ip api) ?ads ?s0 = Inr (r1, s1)" "nl_inv s1"
      "run_spec (ip_step api) ?ads Map.empty = (r1, nl_abs s1)"
    using ip.run_all_refines [OF s0(1), of api ?ads] s0(2) by auto
  obtain r2 s2 where s2: "run_all (data_cb_link api) ?lks s1 = Inr (r2, s2)" "nl_inv s2"
      "run_spec (link_step api) ?lks (nl_abs s1) = (r2, nl_abs s2)"
    using link.run_all_refines [OF s1(2), of api ?lks] by auto
  obtain w' where res: "getAllInterfaces fuel api sk h p w =
      Some (if r1 = -1 \<or> r2 = -1 then fatal ''mnl_socket_recvfrom() failed'' else Inr (s2, w', interfaces_log s2))"
    using getAllInterfaces_queries [OF assms s1(1) s2(1)] by blast
  show ?thesis
  proof (cases "\<exists>m \<in> set ?ads. refused_address api (msg_attrs api m) \<or> refused_label api (msg_attrs api m)")
    case True
    then have "r1 = -1" using ip_dump_refused [of ?ads api Map.empty] s1(3) by (simp add: mnl_cb_defs)
    with True res show ?thesis by simp
  next
    case ads: False
    note m1 = ip_dump_complete [OF ads, of Map.empty, unfolded s1(3)]
    show ?thesis
    proof (cases "\<exists>m \<in> set ?lks. refused_label api (msg_attrs api m)")
      case True
      then have "r2 = -1" using link_dump_refused [of ?lks api "nl_abs s1"] s2(3) by (simp add: mnl_cb_defs)
      with True res show ?thesis by simp
    next
      case False
      note m2 = link_dump_complete [OF False, of "nl_abs s1", unfolded s2(3)]
      have "nl_abs s2 = described api ?ads ?lks" by (rule described_runs [of "nl_abs s1"]) (use m1 m2 in \<open>simp_all\<close>)
      moreover have "r1 \<noteq> -1" "r2 \<noteq> -1" using m1 m2 by (simp_all add: mnl_cb_defs)
      ultimately show ?thesis using res s2(2) ads False by auto
    qed
  qed
qed

definition test_dumps :: "u16 \<Rightarrow> nl_msg list" where
  "test_dumps ty =
     (if ty = RTM_GETADDR then [\<lparr>m_index = 2, m_type = 0, m_dst_len = 0, m_attrs = [Attr 1 [10, 0, 0, 1], Attr 3 [101, 0]]\<rparr>]
      else if ty = RTM_GETLINK then [\<lparr>m_index = 2, m_type = 0, m_dst_len = 0, m_attrs = [Attr 1 [2, 0, 0, 0, 0, 1]]\<rparr>]
      else [])"

definition test_map :: "u32 \<rightharpoonup> Interface" where
  "test_map = [2 \<mapsto> \<lparr>if_mac = Mac 2 0 0 0 0 1, netlinkIndex = 2, netmapIndex = uint32_t_max, IPs = [0x0A000001], if_name = ''e''\<rparr>]"

lemma test_described: "described test_mnl (test_dumps RTM_GETADDR) (test_dumps RTM_GETLINK) = test_map"
proof
  fix idx
  have ip: "htonl (rd32 (attr_mem (Attr 1 [10, 0, 0, 1])) 0) = 0x0A000001" by code_simp
  have mac: "rd_mac (attr_mem (Attr 1 [2, 0, 0, 0, 0, 1])) 0 = Mac 2 0 0 0 0 1" by code_simp
  have str: "attr_str (Attr 3 [101, 0]) = ''e''" by code_simp
  show "described test_mnl (test_dumps RTM_GETADDR) (test_dumps RTM_GETLINK) idx = test_map idx"
    using ip mac str by (simp add: described_def Let_def test_dumps_def RTM_GETADDR_def RTM_GETLINK_def attrs_at_def attrs_of_def
      test_mnl_def ifa_defs test_map_def del: attr_str.simps)
qed

theorem getAllInterfaces_refines_witness:
  "\<exists>s w'. getAllInterfaces 3 test_mnl (test_socket test_dumps) (\<lambda>_. new_Interface) 0 [] = Some (Inr (s, w', interfaces_log s)) \<and>
     nl_abs s = test_map"
proof -
  have "\<not> ((\<exists>m \<in> set (test_dumps RTM_GETADDR). refused_address test_mnl (msg_attrs test_mnl m) \<or> refused_label test_mnl (msg_attrs test_mnl m)) \<or>
      (\<exists>m \<in> set (test_dumps RTM_GETLINK). refused_label test_mnl (msg_attrs test_mnl m)))"
    by (simp add: test_dumps_def RTM_GETADDR_def RTM_GETLINK_def refused_address_def refused_label_def attrs_of_def test_mnl_def ifa_defs)
  with getAllInterfaces_refines [OF test_opens test_cb_run_ok test_answers, of test_dumps test_mnl "\<lambda>_. new_Interface" 0 "[]"]
  show ?thesis unfolding test_described by (simp only: if_False) blast
qed

end
