(* ===== verification/LinuxTable.thy ===== *)
theory LinuxTable
  imports Buckets Netlink
begin

text \<open>
  \<^verbatim>\<open>src/linuxTable.cpp\<close>: the routing table of the kernel, read with one rtnetlink dump. Every unicast route
  of the dump becomes a route of the table, in the bucket of its prefix length, with the interface whose
  netlink index the kernel names.
\<close>

section \<open>The callbacks\<close>

definition RTA_DST :: nat where "RTA_DST = 1"
definition RTA_SRC :: nat where "RTA_SRC = 2"
definition RTA_OIF :: nat where "RTA_OIF = 4"
definition RTA_GATEWAY :: nat where "RTA_GATEWAY = 5"
definition RTA_PRIORITY :: nat where "RTA_PRIORITY = 6"
definition RTA_PREFSRC :: nat where "RTA_PREFSRC = 7"
definition RTA_METRICS :: nat where "RTA_METRICS = 8"
definition RTA_FLOW :: nat where "RTA_FLOW = 11"
definition RTA_TABLE :: nat where "RTA_TABLE = 15"

lemmas rta_defs = RTA_DST_def RTA_SRC_def RTA_OIF_def RTA_GATEWAY_def RTA_PRIORITY_def RTA_PREFSRC_def
  RTA_METRICS_def RTA_FLOW_def RTA_TABLE_def

definition rta_u32 :: "nat \<Rightarrow> bool" where
  "rta_u32 ty \<longleftrightarrow> ty \<in> {RTA_TABLE, RTA_DST, RTA_SRC, RTA_OIF, RTA_FLOW, RTA_PREFSRC, RTA_GATEWAY, RTA_PRIORITY}"

text \<open>The callback on one attribute stores it in the array \<open>tb\<close> of \<^verbatim>\<open>RTA_MAX + 1\<close> pointers.\<close>

definition data_ipv4_attr_cb :: "('m, 'a) mnl_api \<Rightarrow> 'a \<Rightarrow> (nat \<rightharpoonup> 'a) \<Rightarrow> (int \<times> (nat \<rightharpoonup> 'a)) result" where
  "data_ipv4_attr_cb api attr tb =
     (let ty = attr_get_type api attr in
      if attr_type_valid api attr (RTA_MAX api) < 0 then Inr (MNL_CB_OK, tb)
      else if rta_u32 ty \<and> attr_validate api attr MNL_TYPE_U32 < 0 then Inr (MNL_CB_ERROR, tb)
      else if ty = RTA_METRICS \<and> attr_validate api attr MNL_TYPE_NESTED < 0 then Inr (MNL_CB_ERROR, tb)
      else if ty \<le> RTA_MAX api then Inr (MNL_CB_OK, tb(ty \<mapsto> attr))
      else Inl OutOfBounds)"

text \<open>The address an attribute holds, 0 when the attribute is missing.\<close>

definition rta_addr :: "('m, 'a) mnl_api \<Rightarrow> 'a option \<Rightarrow> u32" where
  "rta_addr api a = (case a of Some a \<Rightarrow> ntohl (rd32 (attr_payload api a) 0) | None \<Rightarrow> 0)"

text \<open>The search for the interface does not stop at the first match.\<close>

definition find_oif :: "iheap \<Rightarrow> iptr list \<Rightarrow> u32 \<Rightarrow> iptr option" where
  "find_oif h ifaces i = find (\<lambda>p. netlinkIndex (h p) = i) (rev ifaces)"

definition data_cb_new :: "('m, 'a) mnl_api \<Rightarrow> iheap \<Rightarrow> iptr list \<Rightarrow> 'm \<Rightarrow> rib \<Rightarrow> (int \<times> rib) result" where
  "data_cb_new api h interfaces_static nlh rts =
     bindE (attr_parse api nlh (data_ipv4_attr_cb api) Map.empty) (\<lambda>(_, tb).
     if rtm_type api nlh \<noteq> 1 then Inr (MNL_CB_OK, rts)
     else let new_route = invalidRoute\<lparr>prefix_length := ucast (rtm_dst_len api nlh), base := rta_addr api (tb RTA_DST)\<rparr> in
       case tb RTA_OIF of
         None \<Rightarrow> fatal ''route has no netlink index''
       | Some oif \<Rightarrow>
           let new_route = new_route\<lparr>interface := find_oif h interfaces_static (attr_get_u32 api oif),
                 next_hop := rta_addr api (tb RTA_GATEWAY)\<rparr>
           in bindE (push_route (int (plen new_route)) new_route rts) (\<lambda>rts. Inr (MNL_CB_OK, rts)))"

section \<open>Updating the table\<close>

text \<open>
  The last loop of \<^verbatim>\<open>updateInfo\<close> for one route. It compares the netlink index of the route's
  interface with the netmap index of the others.
\<close>

fun remap :: "iheap \<Rightarrow> iptr list \<Rightarrow> route \<Rightarrow> route result" where
  "remap h [] r = Inr r"
| "remap h (iface # is) r =
     (case interface r of
        None \<Rightarrow> Inl NullDeref
      | Some p \<Rightarrow> if netlinkIndex (h p) = netmapIndex (h iface) then Inr (r\<lparr>interface := Some iface\<rparr>) else remap h is r)"

definition remap_all :: "iheap \<Rightarrow> iptr list \<Rightarrow> rib \<Rightarrow> rib result" where
  "remap_all h ifaces es =
     bindE (mapE (mapE (\<lambda>r u. bindE (remap h ifaces r) (\<lambda>r. Inr (r, u)))) es ()) (\<lambda>(es, _). Inr es)"

definition RTM_GETROUTE :: u16 where "RTM_GETROUTE = 26"

definition updateInfo ::
    "nat \<Rightarrow> ('m, 'a) mnl_api \<Rightarrow> ('w, 'b, 'm, rib) mnl_socket \<Rightarrow> iheap \<Rightarrow> 'w \<Rightarrow> routing_table \<Rightarrow>
     (routing_table \<times> 'w) result option" where
  "updateInfo fuel api sk h w t =
     (let (tm, w) = time_now sk w;
          nlh = \<lparr>nlmsg_type = RTM_GETROUTE, nlmsg_flags = NLM_F_REQUEST OR NLM_F_DUMP, nlmsg_seq = tm, nl_family = AF_INET\<rparr>;
          (opened, w) = socket_open sk w in
      if \<not> opened then Some (fatal ''mnl_socket_open() failed'')
      else let (bound, w) = socket_bind sk w in
      if bound < 0 then Some (fatal ''mnl_socket_bind() failed'')
      else bindO (nl_query fuel sk nlh (socket_get_portid sk w) ''mnl_socket_sendto() failed''
                    (data_cb_new api h (rt_interfaces t)) w (replicate 33 [])) (\<lambda>(w, new_entries).
        Some (bindE (remap_all h (rt_interfaces t) new_entries) (\<lambda>new_entries.
          Inr (t\<lparr>entries := new_entries\<rparr>, socket_close sk w)))))"

text \<open>The constructor fetches the routes and runs the rest of \<^verbatim>\<open>update\<close> on them.\<close>

definition LinuxTable ::
    "nat \<Rightarrow> ('m, 'a) mnl_api \<Rightarrow> ('w, 'b, 'm, rib) mnl_socket \<Rightarrow> iheap \<Rightarrow> iptr list \<Rightarrow> 'w \<Rightarrow>
     (routing_table \<times> 'w) result option" where
  "LinuxTable fuel api sk h ifaces w =
     (let t = setInterfaces ifaces \<lparr>entries = [], nextHopMapping = [], rt_interfaces = []\<rparr> in
      bindO (updateInfo fuel api sk h w t) (\<lambda>(t1, w).
        Some (bindE (update (\<lambda>_. Inr t1) h t) (\<lambda>t2. Inr (t2, w)))))"

lemma find_oif_Some: "find_oif h ifaces i = Some p \<Longrightarrow> p \<in> set ifaces \<and> netlinkIndex (h p) = i"
  unfolding find_oif_def find_Some_iff by (metis length_rev nth_mem set_rev)

section \<open>Attributes\<close>

text \<open>Documented behaviour of \<^verbatim>\<open>mnl_attr_parse\<close> and \<^verbatim>\<open>mnl_attr_type_valid\<close>.\<close>

definition attrs_ok :: "('m, 'a) mnl_api \<Rightarrow> bool" where
  "attrs_ok api \<longleftrightarrow> (\<forall>m cb tb. attr_parse api m cb tb = parse_attrs cb (msg_attrs api m) tb) \<and>
     (\<forall>a n. 0 \<le> attr_type_valid api a n \<longrightarrow> attr_get_type api a \<le> n)"

text \<open>An attribute the callback rejects, and the one it has stored for a type when it rejects none.\<close>

definition rejected :: "('m, 'a) mnl_api \<Rightarrow> 'a \<Rightarrow> bool" where
  "rejected api a \<longleftrightarrow> 0 \<le> attr_type_valid api a (RTA_MAX api) \<and>
     (rta_u32 (attr_get_type api a) \<and> attr_validate api a MNL_TYPE_U32 < 0 \<or>
      attr_get_type api a = RTA_METRICS \<and> attr_validate api a MNL_TYPE_NESTED < 0)"

definition stored :: "('m, 'a) mnl_api \<Rightarrow> 'a list \<Rightarrow> nat \<rightharpoonup> 'a" where
  "stored api as ty = find (\<lambda>a. attr_get_type api a = ty)
     (rev (filter (\<lambda>a. 0 \<le> attr_type_valid api a (RTA_MAX api)) (takeWhile (\<lambda>a. \<not> rejected api a) as)))"

definition attr_of :: "('m, 'a) mnl_api \<Rightarrow> 'm \<Rightarrow> nat \<rightharpoonup> 'a" where
  "attr_of api m = stored api (msg_attrs api m)"

lemma find_snoc: "find P (xs @ [x]) = (case find P xs of Some y \<Rightarrow> Some y | None \<Rightarrow> if P x then Some x else None)"
  by (induction xs) auto

lemma stored_Nil [simp]: "stored api [] = Map.empty"
  by (simp add: stored_def fun_eq_iff)

lemma stored_Cons:
  "stored api (a # as) = (if rejected api a then Map.empty
     else if 0 \<le> attr_type_valid api a (RTA_MAX api) then [attr_get_type api a \<mapsto> a] ++ stored api as else stored api as)"
  by (auto simp: stored_def fun_eq_iff find_snoc map_add_def split: option.splits)

lemma attr_cb_cases:
  assumes "attrs_ok api"
  shows "data_ipv4_attr_cb api a tb = Inr (if rejected api a then (MNL_CB_ERROR, tb)
    else (MNL_CB_OK, if 0 \<le> attr_type_valid api a (RTA_MAX api) then tb(attr_get_type api a \<mapsto> a) else tb))"
  using assms by (auto simp: data_ipv4_attr_cb_def rejected_def attrs_ok_def Let_def not_le)

lemma parse_eq:
  assumes "attrs_ok api"
  shows "\<exists>r. parse_attrs (data_ipv4_attr_cb api) as tb = Inr (r, tb ++ stored api as)"
proof (induction as arbitrary: tb)
  case Nil
  then show ?case by simp
next
  case (Cons a as)
  show ?case
  proof (cases "rejected api a")
    case True
    then show ?thesis by (simp add: attr_cb_cases [OF assms] stored_Cons mnl_cb_defs)
  next
    case False
    let ?tb = "if 0 \<le> attr_type_valid api a (RTA_MAX api) then tb(attr_get_type api a \<mapsto> a) else tb"
    have "parse_attrs (data_ipv4_attr_cb api) (a # as) tb = parse_attrs (data_ipv4_attr_cb api) as ?tb"
      using False by (simp add: attr_cb_cases [OF assms] mnl_cb_defs)
    moreover have "?tb ++ stored api as = tb ++ stored api (a # as)"
      using False by (simp add: stored_Cons)
    ultimately show ?thesis using Cons [of ?tb] by simp
  qed
qed

lemma attr_parse_eq:
  assumes "attrs_ok api"
  shows "\<exists>r. attr_parse api m (data_ipv4_attr_cb api) Map.empty = Inr (r, attr_of api m)"
  using parse_eq [OF assms, of "msg_attrs api m" Map.empty] assms unfolding attrs_ok_def attr_of_def by simp

section \<open>The routes of a dump\<close>

definition unicast :: "('m, 'a) mnl_api \<Rightarrow> 'm \<Rightarrow> bool" where
  "unicast api m \<longleftrightarrow> rtm_type api m = 1"

definition kernel_len :: "('m, 'a) mnl_api \<Rightarrow> 'm \<Rightarrow> nat" where
  "kernel_len api m = unat (rtm_dst_len api m)"

definition kernel_iface :: "('m, 'a) mnl_api \<Rightarrow> iheap \<Rightarrow> iptr list \<Rightarrow> 'm \<Rightarrow> iptr option" where
  "kernel_iface api h ifaces m = Option.bind (attr_of api m RTA_OIF) (\<lambda>oif. find_oif h ifaces (attr_get_u32 api oif))"

definition kernel_route :: "('m, 'a) mnl_api \<Rightarrow> iheap \<Rightarrow> iptr list \<Rightarrow> 'm \<Rightarrow> route" where
  "kernel_route api h ifaces m = \<lparr>base = rta_addr api (attr_of api m RTA_DST), next_hop = rta_addr api (attr_of api m RTA_GATEWAY),
     prefix_length = of_nat (kernel_len api m), interface = kernel_iface api h ifaces m, index = NH_INVALID\<rparr>"

lemma kernel_iface_oif: "kernel_iface api h ifaces m \<noteq> None \<Longrightarrow> attr_of api m RTA_OIF \<noteq> None"
  by (auto simp: kernel_iface_def bind_eq_Some_conv)

lemma plen_kernel_route [simp]: "plen (kernel_route api h ifaces m) = kernel_len api m"
  using unat_less_pow(1) [of "rtm_dst_len api m"]
  by (simp add: kernel_route_def plen_def kernel_len_def unsigned_ucast_eq take_bit_nat_eq_self_iff)

lemma data_cb_new_eq:
  assumes "attrs_ok api"
  shows "data_cb_new api h ifaces m rts =
    (if \<not> unicast api m then Inr (MNL_CB_OK, rts)
     else if attr_of api m RTA_OIF = None then fatal ''route has no netlink index''
     else bindE (push_route (int (kernel_len api m)) (kernel_route api h ifaces m) rts) (\<lambda>rts. Inr (MNL_CB_OK, rts)))"
proof -
  obtain r where p: "attr_parse api m (data_ipv4_attr_cb api) Map.empty = Inr (r, attr_of api m)"
    using attr_parse_eq [OF assms] by blast
  have uc: "ucast (rtm_dst_len api m) = (of_nat (kernel_len api m) :: u32)" by (simp add: kernel_len_def)
  show ?thesis
  proof (cases "attr_of api m RTA_OIF")
    case None
    then show ?thesis by (simp add: data_cb_new_def p unicast_def)
  next
    case (Some oif)
    then have nr: "invalidRoute\<lparr>prefix_length := of_nat (kernel_len api m), base := rta_addr api (attr_of api m RTA_DST),
        interface := find_oif h ifaces (attr_get_u32 api oif), next_hop := rta_addr api (attr_of api m RTA_GATEWAY)\<rparr> =
        kernel_route api h ifaces m"
      by (simp add: kernel_route_def kernel_iface_def invalidRoute_def)
    show ?thesis
      by (simp only: data_cb_new_def p uc unicast_def bindE_simps prod.case Let_def Some option.case nr plen_kernel_route
          not_not option.distinct if_False)
  qed
qed

text \<open>The routes the callback pushes, and what makes it stop the program.\<close>

definition pushed :: "('m, 'a) mnl_api \<Rightarrow> iheap \<Rightarrow> iptr list \<Rightarrow> 'm list \<Rightarrow> (int \<times> route) list" where
  "pushed api h ifaces ms = map (\<lambda>m. (int (kernel_len api m), kernel_route api h ifaces m)) (filter (unicast api) ms)"

lemma run_all_pushes:
  assumes "attrs_ok api"
  shows "run_all (data_cb_new api h ifaces) ms rts = Inr (r, rts') \<longleftrightarrow>
    r = MNL_CB_STOP \<and> (\<forall>m \<in> set ms. unicast api m \<longrightarrow> attr_of api m RTA_OIF \<noteq> None) \<and>
    push_all (pushed api h ifaces ms) rts = Inr rts'"
proof (induction ms arbitrary: rts)
  case Nil
  then show ?case by (auto simp: pushed_def)
next
  case (Cons m ms)
  then show ?case
    by (auto simp: data_cb_new_eq [OF assms] pushed_def bindE_Inr_iff mnl_cb_defs fatal_def split: if_splits)
qed

text \<open>
  The last loop. It keeps everything but the interface, and needs one as soon as there is any interface to compare with.
\<close>

lemma remap_cases:
  "remap h is r = Inr r' \<Longrightarrow> (r' = r \<or> (\<exists>p \<in> set is. r' = r\<lparr>interface := Some p\<rparr>)) \<and> (is = [] \<or> interface r \<noteq> None)"
  by (induction h "is" r rule: remap.induct) (auto split: option.splits if_splits)

lemma remap_same:
  assumes "\<And>p q. interface r = Some p \<Longrightarrow> q \<in> set is \<Longrightarrow> netlinkIndex (h p) \<noteq> netmapIndex (h q)"
  shows "remap h is r = (if is = [] \<or> interface r \<noteq> None then Inr r else Inl NullDeref)"
  using assms by (induction h "is" r rule: remap.induct) (auto split: option.splits)

text \<open>A loop over a nested vector whose body only replaces elements.\<close>

lemma mapE_pure: "mapE (\<lambda>x u. bindE (f x) (\<lambda>y. Inr (y, u))) xs u = Inr (ys, v) \<longleftrightarrow> v = u \<and> list_all2 (\<lambda>x y. f x = Inr y) xs ys"
  by (induction xs arbitrary: ys) (auto simp: bindE_Inr_iff list_all2_Cons1)

lemma mapE_pure2:
  "mapE (mapE (\<lambda>x u. bindE (f x) (\<lambda>y. Inr (y, u)))) xss u = Inr (yss, v) \<longleftrightarrow>
     v = u \<and> list_all2 (list_all2 (\<lambda>x y. f x = Inr y)) xss yss"
  by (induction xss arbitrary: yss u) (auto simp: bindE_Inr_iff list_all2_Cons1 mapE_pure)

lemma remap_all_iff: "remap_all h ifaces es = Inr es' \<longleftrightarrow> list_all2 (list_all2 (\<lambda>r r'. remap h ifaces r = Inr r')) es es'"
proof -
  have "remap_all h ifaces es = Inr es' \<longleftrightarrow>
      (\<exists>v. mapE (mapE (\<lambda>r u. bindE (remap h ifaces r) (\<lambda>r. Inr (r, u)))) es () = Inr (es', v))"
    unfolding remap_all_def bindE_Inr_iff by (force split: prod.splits)
  then show ?thesis unfolding mapE_pure2 by simp
qed

section \<open>What the update builds\<close>

text \<open>No interface has been bound to netmap under the netlink index of another.\<close>

definition unbound :: "iheap \<Rightarrow> iptr list \<Rightarrow> bool" where
  "unbound h ifaces \<longleftrightarrow> (\<forall>p \<in> set ifaces. \<forall>q \<in> set ifaces. netlinkIndex (h p) \<noteq> netmapIndex (h q))"

lemma updateInfo_eq:
  assumes "opens sk" "cb_run_ok sk items" "answers sk items dumps fuel" "attrs_ok api"
  obtains (ok) es w' where "run_all (data_cb_new api h (rt_interfaces t)) (dumps RTM_GETROUTE) (replicate 33 []) = Inr (MNL_CB_STOP, es)"
      "updateInfo fuel api sk h w t = Some (bindE (remap_all h (rt_interfaces t) es) (\<lambda>es. Inr (t\<lparr>entries := es\<rparr>, w')))"
  | (fails) e where "run_all (data_cb_new api h (rt_interfaces t)) (dumps RTM_GETROUTE) (replicate 33 []) = Inl e"
      "updateInfo fuel api sk h w t = Some (Inl e)"
proof -
  obtain tm w1 b1 w2 b2 w3 where w: "time_now sk w = (tm, w1)" "socket_open sk w1 = (b1, w2)" "socket_bind sk w2 = (b2, w3)"
    by (metis surj_pair)
  have b: "b1" "\<not> b2 < 0" using assms(1) w by (auto simp: opens_def) (metis fst_conv, metis fst_conv not_le)
  let ?nlh = "\<lparr>nlmsg_type = RTM_GETROUTE, nlmsg_flags = NLM_F_REQUEST OR NLM_F_DUMP, nlmsg_seq = tm, nl_family = AF_INET\<rparr>"
  let ?cb = "data_cb_new api h (rt_interfaces t)"
  let ?run = "run_all ?cb (dumps RTM_GETROUTE) (replicate 33 [])"
  obtain w' where q: "nl_query fuel sk ?nlh (socket_get_portid sk w3) ''mnl_socket_sendto() failed'' ?cb w3 (replicate 33 []) =
      Some (bindE ?run (\<lambda>(r, d'). if r = -1 then fatal ''mnl_socket_recvfrom() failed'' else Inr (w', d')))"
    using nl_query_dump [OF assms(2,3), of ?nlh "socket_get_portid sk w3" _ ?cb w3 "replicate 33 []"] by auto
  show thesis
  proof (cases ?run)
    case (Inl e)
    then show thesis using w b q by (intro fails) (simp_all add: updateInfo_def)
  next
    case (Inr x)
    then obtain es where "?run = Inr (MNL_CB_STOP, es)"
      using run_all_pushes [OF assms(4), of h "rt_interfaces t" "dumps RTM_GETROUTE" "replicate 33 []" "fst x" "snd x"]
      by (metis prod.collapse)
    then show thesis using w b q by (intro ok [of es "socket_close sk w'"]) (simp_all add: updateInfo_def mnl_cb_defs)
  qed
qed

lemma pushed_buckets:
  "push_all (pushed api h ifaces ms) (replicate 33 []) =
     (if \<forall>m \<in> set ms. unicast api m \<longrightarrow> kernel_len api m \<le> 32
      then Inr (map (\<lambda>l. map (kernel_route api h ifaces) (filter (\<lambda>m. unicast api m \<and> kernel_len api m = l) ms)) [0..<33])
      else Inl OutOfBounds)"
proof -
  have "list_all (in_range 33) (pushed api h ifaces ms) \<longleftrightarrow> (\<forall>m \<in> set ms. unicast api m \<longrightarrow> kernel_len api m \<le> 32)"
    by (auto simp: list_all_iff pushed_def in_range_def)
  moreover have "bucket_of (pushed api h ifaces ms) l = map (kernel_route api h ifaces) (filter (\<lambda>m. unicast api m \<and> kernel_len api m = l) ms)" for l
    by (simp add: bucket_of_def pushed_def filter_map o_def conj_commute)
  ultimately show ?thesis by (simp add: push_all_eq del: upt_rec_numeral)
qed

text \<open>
  C28: The table read from the kernel has 33 buckets, every route is in the bucket of its prefix length, carries no index yet and, as
  soon as the router has any interface, refers to one of its interfaces. This holds of every dump, and the rest of
  the table is left as it was.
\<close>

theorem updateInfo_shape:
  assumes "opens sk" "cb_run_ok sk items" "answers sk items dumps fuel" "attrs_ok api"
    and "updateInfo fuel api sk h w t = Some (Inr (t', w'))"
  shows "length (entries t') = 33 \<and> nextHopMapping t' = nextHopMapping t \<and> rt_interfaces t' = rt_interfaces t \<and>
    (\<forall>l<33. \<forall>r \<in> set (entries t' ! l). plen r = l \<and> index r = NH_INVALID \<and>
      (rt_interfaces t = [] \<or> (\<exists>p \<in> set (rt_interfaces t). interface r = Some p)))"
  using assms(1-4)
proof (cases rule: updateInfo_eq [where h = h and w = w and t = t])
  case (ok es w1)
  let ?is = "rt_interfaces t" and ?ms = "dumps RTM_GETROUTE"
  have "push_all (pushed api h ?is ?ms) (replicate 33 []) = Inr es"
    using ok(1) by (simp only: run_all_pushes [OF assms(4)])
  then have es: "es = map (\<lambda>l. map (kernel_route api h ?is) (filter (\<lambda>m. unicast api m \<and> kernel_len api m = l) ?ms)) [0..<33]"
    by (simp add: pushed_buckets del: upt_rec_numeral split: if_splits)
  have "bindE (remap_all h ?is es) (\<lambda>es. Inr (t\<lparr>entries := es\<rparr>, w1)) = Inr (t', w')"
    using ok(2) assms(5) by simp
  then obtain es' where "remap_all h ?is es = Inr es'" and t': "t' = t\<lparr>entries := es'\<rparr>"
    by (rule bindE_InrE) simp
  then have re: "list_all2 (list_all2 (\<lambda>r r'. remap h ?is r = Inr r')) es (entries t')"
    by (simp add: remap_all_iff)
  have len: "length (entries t') = 33" using list_all2_lengthD [OF re] by (simp add: es del: upt_rec_numeral)
  have "plen r' = l \<and> index r' = NH_INVALID \<and> (?is = [] \<or> (\<exists>p \<in> set ?is. interface r' = Some p))"
    if l: "l < 33" and r': "r' \<in> set (entries t' ! l)" for l r'
  proof -
    have "list_all2 (\<lambda>r r'. remap h ?is r = Inr r') (es ! l) (entries t' ! l)"
      using list_all2_nthD2 [OF re, of l] l len by simp
    from list_all2_set2 [OF this r'] obtain r where r: "r \<in> set (es ! l)" "remap h ?is r = Inr r'" by (rule bexE)
    then obtain m where m: "r = kernel_route api h ?is m" "kernel_len api m = l" using l by (auto simp: es simp del: upt_rec_numeral)
    have "plen r = l" "index r = NH_INVALID" using m by (simp, simp add: kernel_route_def)
    moreover have "p \<in> set ?is" if "interface r = Some p" for p
      using that m(1) by (auto simp: kernel_route_def kernel_iface_def bind_eq_Some_conv dest: find_oif_Some)
    ultimately show ?thesis using remap_cases [OF r(2)] by (auto simp: plen_def)
  qed
  with len show ?thesis by (simp add: t')
next
  case (fails e)
  then show ?thesis using assms(5) by simp
qed

text \<open>The last loop on the routes of a dump, before the interfaces are bound.\<close>

lemma remap_kernel_route:
  assumes "unbound h ifaces" "ifaces \<noteq> []"
  shows "remap h ifaces (kernel_route api h ifaces m) =
    (if kernel_iface api h ifaces m \<noteq> None then Inr (kernel_route api h ifaces m) else Inl NullDeref)"
proof -
  let ?r = "kernel_route api h ifaces m"
  have "p \<in> set ifaces" if "interface ?r = Some p" for p
    using that by (auto simp: kernel_route_def kernel_iface_def bind_eq_Some_conv dest: find_oif_Some)
  then have "remap h ifaces ?r = (if interface ?r \<noteq> None then Inr ?r else Inl NullDeref)"
    using remap_same [of ?r ifaces h] assms by (simp add: unbound_def)
  then show ?thesis by (simp add: kernel_route_def)
qed

abbreviation kernel_buckets :: "('m, 'a) mnl_api \<Rightarrow> iheap \<Rightarrow> iptr list \<Rightarrow> 'm list \<Rightarrow> rib" where
  "kernel_buckets api h ifaces ms \<equiv>
     map (\<lambda>l. map (kernel_route api h ifaces) (filter (\<lambda>m. unicast api m \<and> kernel_len api m = l) ms)) [0..<33]"

lemma remap_kernel_ok:
  assumes "unbound h ifaces" "ifaces \<noteq> []" "\<forall>m \<in> set ms. unicast api m \<longrightarrow> kernel_iface api h ifaces m \<noteq> None"
  shows "remap_all h ifaces (kernel_buckets api h ifaces ms) = Inr (kernel_buckets api h ifaces ms)"
  unfolding remap_all_iff list_all2_map1 list_all2_map2 using assms(3)
  by (auto simp: list_all2_same remap_kernel_route [OF assms(1,2)] simp del: upt_rec_numeral)

lemma remap_kernel_fails:
  assumes "unbound h ifaces" "ifaces \<noteq> []" "m \<in> set ms" "unicast api m" "kernel_iface api h ifaces m = None" "kernel_len api m < 33"
  shows "\<exists>e. remap_all h ifaces (kernel_buckets api h ifaces ms) = Inl e"
proof (cases "remap_all h ifaces (kernel_buckets api h ifaces ms)")
  case (Inr es')
  let ?l = "kernel_len api m" and ?es = "kernel_buckets api h ifaces ms"
  have "list_all2 (\<lambda>r r'. remap h ifaces r = Inr r') (?es ! ?l) (es' ! ?l)"
    using list_all2_nthD [of _ ?es es' ?l] Inr assms(6) unfolding remap_all_iff by simp
  moreover have "kernel_route api h ifaces m \<in> set (?es ! ?l)" using assms(3,4,6) by (simp del: upt_rec_numeral)
  ultimately obtain r' where "remap h ifaces (kernel_route api h ifaces m) = Inr r'"
    by (blast dest: list_all2_set1)
  then show ?thesis using remap_kernel_route [OF assms(1,2), of api m] assms(5) by simp
qed blast

text \<open>The two outcomes of an update before the interfaces are bound.\<close>

lemma updateInfo_ok:
  assumes "opens sk" "cb_run_ok sk items" "answers sk items dumps fuel" "attrs_ok api"
    and "unbound h (rt_interfaces t)" "rt_interfaces t \<noteq> []"
    and "\<forall>m \<in> set (dumps RTM_GETROUTE). unicast api m \<longrightarrow>
      kernel_iface api h (rt_interfaces t) m \<noteq> None \<and> kernel_len api m \<le> 32"
  shows "\<exists>w'. updateInfo fuel api sk h w t =
    Some (Inr (t\<lparr>entries := kernel_buckets api h (rt_interfaces t) (dumps RTM_GETROUTE)\<rparr>, w'))"
proof -
  let ?is = "rt_interfaces t" and ?ms = "dumps RTM_GETROUTE"
  let ?es = "kernel_buckets api h ?is ?ms"
  have push: "push_all (pushed api h ?is ?ms) (replicate 33 []) = Inr ?es"
    using assms(7) by (simp add: pushed_buckets del: upt_rec_numeral)
  have oif: "\<forall>m \<in> set ?ms. unicast api m \<longrightarrow> attr_of api m RTA_OIF \<noteq> None" using assms(7) kernel_iface_oif by metis
  have run: "run_all (data_cb_new api h ?is) ?ms (replicate 33 []) = Inr (MNL_CB_STOP, ?es)"
    by (rule run_all_pushes [OF assms(4), THEN iffD2]) (intro conjI refl oif push)
  have re: "remap_all h ?is ?es = Inr ?es" by (rule remap_kernel_ok [OF assms(5,6)]) (use assms(7) in blast)
  show ?thesis
    using assms(1-4)
  proof (cases rule: updateInfo_eq [where h = h and w = w and t = t])
    case (ok es w')
    have "es = ?es" using ok(1) unfolding run by simp
    then show ?thesis using ok(2) re by (simp only: bindE_simps) blast
  next
    case (fails e)
    then show ?thesis unfolding run by simp
  qed
qed

lemma updateInfo_stops:
  assumes "opens sk" "cb_run_ok sk items" "answers sk items dumps fuel" "attrs_ok api"
    and "unbound h (rt_interfaces t)" "rt_interfaces t \<noteq> []"
    and "m \<in> set (dumps RTM_GETROUTE)" "unicast api m" "kernel_iface api h (rt_interfaces t) m = None \<or> 32 < kernel_len api m"
  shows "\<exists>e. updateInfo fuel api sk h w t = Some (Inl e)"
  using assms(1-4)
proof (cases rule: updateInfo_eq [where h = h and w = w and t = t])
  case (ok es w')
  let ?is = "rt_interfaces t" and ?ms = "dumps RTM_GETROUTE"
  have "push_all (pushed api h ?is ?ms) (replicate 33 []) = Inr es" using ok(1) unfolding run_all_pushes [OF assms(4)] by blast
  then have es: "es = kernel_buckets api h ?is ?ms" and len: "kernel_len api m \<le> 32"
    using assms(7,8) by (simp_all add: pushed_buckets del: upt_rec_numeral split: if_splits)
  obtain e where "remap_all h ?is es = Inl e"
    using remap_kernel_fails [OF assms(5-8)] assms(9) len unfolding es by auto
  with ok(2) show ?thesis by simp
qed blast

text \<open>
  C15: Reading the kernel's table is a function of the dump. It succeeds exactly when every unicast route has an
  outgoing interface the router knows and a prefix length of at most 32, and then holds precisely the unicast routes, each
  with the destination, gateway and interface of its attributes, in the order of the dump. On any other dump the
  router stops; a route without an outgoing interface is one the kernel produces for multipath routes.
\<close>

theorem updateInfo_routes:
  assumes "opens sk" "cb_run_ok sk items" "answers sk items dumps fuel" "attrs_ok api"
    and "unbound h (rt_interfaces t)" "rt_interfaces t \<noteq> []"
  shows "if \<forall>m \<in> set (dumps RTM_GETROUTE). unicast api m \<longrightarrow>
           kernel_iface api h (rt_interfaces t) m \<noteq> None \<and> kernel_len api m \<le> 32
    then \<exists>w'. updateInfo fuel api sk h w t = Some (Inr (t\<lparr>entries :=
      map (\<lambda>l. map (kernel_route api h (rt_interfaces t))
        (filter (\<lambda>m. unicast api m \<and> kernel_len api m = l) (dumps RTM_GETROUTE))) [0..<33]\<rparr>, w'))
    else \<exists>e. updateInfo fuel api sk h w t = Some (Inl e)"
  using updateInfo_ok [OF assms] updateInfo_stops [OF assms] by (auto simp: not_le simp del: upt_rec_numeral)

section \<open>A concrete kernel\<close>

definition route_dump :: "u16 \<Rightarrow> nl_msg list" where
  "route_dump ty = [\<lparr>m_index = 0, m_type = 1, m_dst_len = 8, m_attrs = [Attr 1 [10, 0, 0, 0], Attr 4 [2, 0, 0, 0], Attr 5 [192, 168, 0, 1]]\<rparr>,
     \<lparr>m_index = 0, m_type = 2, m_dst_len = 32, m_attrs = []\<rparr>]"

definition route_heap :: iheap where
  "route_heap p = new_Interface\<lparr>netlinkIndex := 2\<rparr>"

abbreviation route_start :: routing_table where
  "route_start \<equiv> \<lparr>entries = [], nextHopMapping = [], rt_interfaces = [7]\<rparr>"

lemma test_attrs_ok: "attrs_ok test_mnl"
  by (auto simp: attrs_ok_def test_mnl_def split: if_splits)

lemma route_unbound: "unbound route_heap [7]"
  by (simp add: unbound_def route_heap_def new_Interface_def uint32_t_max_def)

lemma route_dump_eval:
  "\<forall>m \<in> set (route_dump RTM_GETROUTE). unicast test_mnl m \<longrightarrow>
     kernel_iface test_mnl route_heap [7] m \<noteq> None \<and> kernel_len test_mnl m \<le> 32"
  by code_simp

theorem updateInfo_routes_witness:
  "\<exists>t' w'. updateInfo 3 test_mnl (test_socket route_dump) route_heap [] route_start = Some (Inr (t', w')) \<and>
     length (entries t' ! 8) = 1"
proof -
  have "length (filter (\<lambda>m. unicast test_mnl m \<and> kernel_len test_mnl m = 8) (route_dump RTM_GETROUTE)) = 1" by code_simp
  with updateInfo_routes [OF test_opens test_cb_run_ok test_answers test_attrs_ok, of route_heap route_start route_dump "[]"]
    route_unbound route_dump_eval
  show ?thesis by (auto simp del: upt_rec_numeral)
qed

theorem updateInfo_shape_witness:
  "\<exists>t' w'. updateInfo 3 test_mnl (test_socket (\<lambda>_. [])) route_heap [] route_start = Some (Inr (t', w')) \<and> length (entries t') = 33"
proof -
  obtain t' w' where t': "updateInfo 3 test_mnl (test_socket (\<lambda>_. [])) route_heap [] route_start = Some (Inr (t', w'))"
    using test_opens test_cb_run_ok test_answers [of "\<lambda>_. []"] test_attrs_ok
  proof (cases rule: updateInfo_eq [where h = route_heap and w = "[]" and t = route_start])
    case (ok es w')
    then have "es = replicate 33 []" by simp
    then have "remap_all route_heap [7] es = Inr es" by (simp add: remap_all_iff list_all2_same)
    with ok(2) that show thesis by simp
  qed simp
  from updateInfo_shape [OF test_opens test_cb_run_ok test_answers test_attrs_ok t'] t' show ?thesis by auto
qed

end
