(* ===== verification/Manager.thy ===== *)
theory Manager
  imports ArpTable Checksum "HOL-Library.Multiset"
begin

text \<open>
  \<^verbatim>\<open>include/manager.hpp\<close> and \<^verbatim>\<open>src/manager.cpp\<close>: the thread that owns the netmap rings. It hands
  received buffers to the workers and puts free ones into their place, sends what the workers
  return, answers ARP and asks for missing addresses. The netmap library (\<^verbatim>\<open>nm_ring_space\<close>,
  \<^verbatim>\<open>nm_ring_next\<close>, \<^verbatim>\<open>NETMAP_BUF\<close>, \<^verbatim>\<open>NETMAP_BUF_IDX\<close>, the flag \<^verbatim>\<open>NS_BUF_CHANGED\<close> and the fields of a ring
  that only the library and the kernel use), the concurrent queues, \<^verbatim>\<open>poll\<close> and the clock are
  arguments of the definitions. Output of debug builds is left out.
\<close>

section \<open>State\<close>

record slot =
  buf_idx :: u32
  slot_len :: u16
  slot_flags :: u16

text \<open>The fields of \<^verbatim>\<open>netmap_ring\<close> the manager uses; the type is extensible by the library's own.\<close>

record netmap_ring =
  slots :: "slot list"
  head :: u32
  cur :: u32

text \<open>The library functions, bundled.\<close>

record 'r netmap_api =
  nm_ring_space :: "'r netmap_ring_scheme \<Rightarrow> u32"
  nm_ring_next :: "'r netmap_ring_scheme \<Rightarrow> u32 \<Rightarrow> u32"
  NETMAP_BUF :: "'r netmap_ring_scheme \<Rightarrow> u32 \<Rightarrow> addr"
  NETMAP_BUF_IDX :: "'r netmap_ring_scheme \<Rightarrow> addr \<Rightarrow> u32"
  NS_BUF_CHANGED :: u16

record macRequest =
  mr_ip :: u32
  mr_iface :: u16
  mr_time :: int

record ('p, 'q, 'r) Manager =
  inRings :: "'p list"
  outRings :: "'q list"
  freeBufs :: "u32 list"
  numWorkers :: u32
  netmapRxRings :: "'r netmap_ring_scheme list list"
  netmapTxRings :: "'r netmap_ring_scheme list list"
  numInterfaces :: u32
  arpTable :: ARPTable
  statsNumRecv :: u32
  statsNumDropped :: u32
  statsNumDroppedRingSpace :: u32
  statsNumDroppedNoMac :: u32
  statsNumTransmitted :: u32
  missingMACs :: "u32 \<rightharpoonup> macRequest"
  memory :: mem
  ticks :: nat

text \<open>
  \<^verbatim>\<open>steady_clock::now()\<close> returns the next reading of the clock \<open>clk\<close>, in nanoseconds.
\<close>

definition clock_now :: "(nat \<Rightarrow> int) \<Rightarrow> ('p, 'q, 'r) Manager \<Rightarrow> int \<times> ('p, 'q, 'r) Manager" where
  "clock_now clk s = (clk (ticks s), s\<lparr>ticks := Suc (ticks s)\<rparr>)"

definition MANAGER_BULK_SIZE :: u32 where "MANAGER_BULK_SIZE = 512"

text \<open>A ring by interface and number; \<^verbatim>\<open>operator[]\<close> of a vector does not check.\<close>

definition ring_at :: "'r list list \<Rightarrow> nat \<Rightarrow> nat \<Rightarrow> 'r result" where
  "ring_at rs i j = (if i < length rs \<and> j < length (rs ! i) then Inr (rs ! i ! j) else Inl OutOfBounds)"

definition set_ring :: "nat \<Rightarrow> nat \<Rightarrow> 'r \<Rightarrow> 'r list list \<Rightarrow> 'r list list" where
  "set_ring i j r rs = rs[i := (rs ! i)[j := r]]"

section \<open>Receiving\<close>

text \<open>One frame: its buffer goes to the worker, the last free buffer takes its place in the slot.\<close>

definition rx_frame ::
    "'r netmap_api \<Rightarrow> u16 \<Rightarrow> frame list \<times> 'r netmap_ring_scheme \<times> u32 list \<Rightarrow>
     (frame list \<times> 'r netmap_ring_scheme \<times> u32 list) result" where
  "rx_frame nm ifc s =
     (let (fs, ring, free) = s; slotIdx = unat (head ring) in
      if length (slots ring) \<le> slotIdx \<or> free = [] then Inl OutOfBounds
      else
        let sl = slots ring ! slotIdx;
            f = \<lparr>buf_ptr = NETMAP_BUF nm ring (buf_idx sl), frame_len = slot_len sl, iface = ifc, vlan = 0\<rparr>;
            ring = ring\<lparr>slots := (slots ring)[slotIdx := sl\<lparr>buf_idx := last free, slot_flags := NS_BUF_CHANGED nm\<rparr>]\<rparr>;
            nxt = nm_ring_next nm ring (head ring)
        in Inr (fs @ [f], ring\<lparr>head := nxt, cur := nxt\<rparr>, butlast free))"

fun rx_burst ::
    "'r netmap_api \<Rightarrow> u16 \<Rightarrow> nat \<Rightarrow> frame list \<times> 'r netmap_ring_scheme \<times> u32 list \<Rightarrow>
     (frame list \<times> 'r netmap_ring_scheme \<times> u32 list) result" where
  "rx_burst nm ifc 0 s = Inr s"
| "rx_burst nm ifc (Suc n) s = bindE (rx_frame nm ifc s) (rx_burst nm ifc n)"

text \<open>The number of frames of one burst.\<close>

definition burst_size :: "'r netmap_api \<Rightarrow> 'r netmap_ring_scheme \<Rightarrow> u32 list \<Rightarrow> u32" where
  "burst_size nm ring free =
     (let numFrames = min (nm_ring_space nm ring) (of_nat (length free))
      in if numFrames > MANAGER_BULK_SIZE then MANAGER_BULK_SIZE else numFrames)"

lemma rx_burst_free:
  "rx_burst nm ifc n (fs, ring, free) = Inr (fs', ring', free') \<Longrightarrow> length free' + n = length free"
proof (induction n arbitrary: fs ring free)
  case (Suc n)
  then obtain fs1 ring1 free1 where "rx_frame nm ifc (fs, ring, free) = Inr (fs1, ring1, free1)"
    and r: "rx_burst nm ifc n (fs1, ring1, free1) = Inr (fs', ring', free')" by (auto elim!: bindE_InrE)
  then have "free \<noteq> []" "free1 = butlast free" by (auto simp: rx_frame_def Let_def split: if_splits)
  with Suc.IH [OF r] show ?case by (cases free) auto
qed simp

text \<open>
  The loop over one ring: \<open>enqb fs q\<close> is \<^verbatim>\<open>try_enqueue_bulk\<close>, whose result the manager ignores. Every
  round uses up free buffers, so the loop ends.
\<close>

function rx_ring ::
    "'r netmap_api \<Rightarrow> (frame list \<Rightarrow> 'p \<Rightarrow> bool \<times> 'p) \<Rightarrow> u16 \<Rightarrow> u32 \<times> 'p \<times> 'r netmap_ring_scheme \<times> u32 list \<Rightarrow>
     (u32 \<times> 'p \<times> 'r netmap_ring_scheme \<times> u32 list) result" where
  "rx_ring nm enqb ifc (recv, q, ring, free) =
     (if nm_ring_space nm ring = 0 then Inr (recv, q, ring, free)
      else let numFrames = burst_size nm ring free in
        if numFrames = 0 then Inr (recv, q, ring, free)
        else case rx_burst nm ifc (unat numFrames) ([], ring, free) of
            Inl e \<Rightarrow> Inl e
          | Inr (fs, ring', free') \<Rightarrow> rx_ring nm enqb ifc (recv + numFrames, snd (enqb fs q), ring', free'))"
  by pat_completeness auto
termination
proof (relation "measure (\<lambda>(_, _, _, _, _, _, free). length free)", goal_cases)
  case (2 nm enqb ifc recv q ring free numFrames b fs y ring' free')
  then show ?case using rx_burst_free [of nm ifc "unat numFrames" "[]" ring free fs ring' free'] unat_gt_0 [of numFrames]
    by auto
qed simp

declare rx_ring.simps [simp del]

definition rx_one ::
    "'r netmap_api \<Rightarrow> (frame list \<Rightarrow> 'p \<Rightarrow> bool \<times> 'p) \<Rightarrow> nat \<times> nat \<Rightarrow> ('p, 'q, 'r) Manager \<Rightarrow> ('p, 'q, 'r) Manager result" where
  "rx_one nm enqb iw s =
     (let (ifc, worker) = iw in
      bindE (ring_at (netmapRxRings s) ifc worker) (\<lambda>ring.
      if inRings s = [] then Inl OutOfBounds
      else bindE (rx_ring nm enqb (of_nat ifc) (statsNumRecv s, inRings s ! 0, ring, freeBufs s)) (\<lambda>(recv, q, ring, free).
        Inr (s\<lparr>statsNumRecv := recv, inRings := (inRings s)[0 := q], freeBufs := free,
               netmapRxRings := set_ring ifc worker ring (netmapRxRings s)\<rparr>))))"

definition rx_all ::
    "'r netmap_api \<Rightarrow> (frame list \<Rightarrow> 'p \<Rightarrow> bool \<times> 'p) \<Rightarrow> ('p, 'q, 'r) Manager \<Rightarrow> ('p, 'q, 'r) Manager result" where
  "rx_all nm enqb s =
     foldE (rx_one nm enqb)
       (List.product [0..<unat (numInterfaces s)] [0..<unat (numWorkers s)]) s"

section \<open>Sending\<close>

text \<open>
  A frame whose next hop has no address yet. An ARP request for its destination takes over the
  buffer, unless one was sent less than half a second ago.
\<close>

definition missing_mac ::
    "iheap \<Rightarrow> (nat \<Rightarrow> int) \<Rightarrow> frame \<Rightarrow> ('p, 'q, 'r) Manager \<Rightarrow> (frame \<times> ('p, 'q, 'r) Manager) result" where
  "missing_mac h clk f s =
     (let ip = d_ip (load_ipv4 (memory s) (buf_ptr f + sizeof_ether)) in
      case missingMACs s ip of
        None \<Rightarrow>
          let f = f\<lparr>iface := iface f AND IFACE_ID\<rparr>;
              (now, s) = clock_now clk s;
              mr = \<lparr>mr_ip = ip, mr_iface = iface f, mr_time = now\<rparr> in
          bindE (prepareRequest h (arpTable s) ip (iface f) (memory s, f)) (\<lambda>(m, f).
          Inr (f, s\<lparr>memory := m, missingMACs := (missingMACs s)(ip \<mapsto> mr)\<rparr>))
      | Some mr \<Rightarrow>
          let (now, s) = clock_now clk s in
          if now - mr_time mr < 500000000
          then Inr (f\<lparr>iface := iface f OR IFACE_DISCARD\<rparr>, s\<lparr>statsNumDroppedNoMac := statsNumDroppedNoMac s + 1\<rparr>)
          else bindE (prepareRequest h (arpTable s) ip (iface f AND IFACE_ID) (memory s, f)) (\<lambda>(m, f).
            let (now, s) = clock_now clk s in
            Inr (f, s\<lparr>memory := m, missingMACs := (missingMACs s)(ip \<mapsto> mr\<lparr>mr_time := now\<rparr>)\<rparr>)))"

text \<open>The handling of the flags; the number is the ring the previous frame used.\<close>

definition tx_flags ::
    "iheap \<Rightarrow> rtheap \<Rightarrow> (nat \<Rightarrow> int) \<Rightarrow> frame \<Rightarrow> u32 \<times> ('p, 'q, 'r) Manager \<Rightarrow>
     (frame \<times> u32 \<times> ('p, 'q, 'r) Manager) result" where
  "tx_flags h th clk f rs =
     (let (ringid, s) = rs in
      if iface f AND IFACE_HOST \<noteq> 0 then Inr (f, numWorkers s, s)
      else if iface f AND IFACE_ARP \<noteq> 0 then
        bindE (handleFrame h th (memory s, f, arpTable s)) (\<lambda>(m, f, a).
        Inr (f, ringid, s\<lparr>memory := m, arpTable := a\<rparr>))
      else if iface f AND IFACE_NOMAC \<noteq> 0 then
        bindE (missing_mac h clk f s) (\<lambda>(f, s). Inr (f, ringid, s))
      else Inr (f, ringid, s))"

text \<open>The frame goes into the slot at the head of the ring.\<close>

definition put_slot :: "'r netmap_api \<Rightarrow> frame \<Rightarrow> 'r netmap_ring_scheme \<Rightarrow> 'r netmap_ring_scheme" where
  "put_slot nm f ring =
     (let slotIdx = unat (head ring);
          ring = ring\<lparr>slots := (slots ring)[slotIdx := (slots ring ! slotIdx)\<lparr>buf_idx := NETMAP_BUF_IDX nm ring (buf_ptr f),
                   slot_flags := NS_BUF_CHANGED nm, slot_len := frame_len f\<rparr>]\<rparr>;
          nxt = nm_ring_next nm ring (head ring)
      in ring\<lparr>head := nxt, cur := nxt\<rparr>)"

text \<open>
  The buffer of the frame is exchanged with the one in the next slot of the ring, or reclaimed if
  the ring has no room. Frames are padded to the minimum length.
\<close>

definition tx_slot ::
    "'r netmap_api \<Rightarrow> frame \<Rightarrow> u32 \<Rightarrow> ('p, 'q, 'r) Manager \<Rightarrow> ('p, 'q, 'r) Manager result" where
  "tx_slot nm f ringid s =
     (let ifc = unat (iface f AND IFACE_ID) in
      bindE (ring_at (netmapTxRings s) ifc (unat ringid)) (\<lambda>ring.
      let slotIdx = unat (head ring);
          f = (if frame_len f < 60 then f\<lparr>frame_len := 60\<rparr> else f) in
      if nm_ring_space nm ring \<noteq> 0 then
        if length (slots ring) \<le> slotIdx then Inl OutOfBounds
        else Inr (s\<lparr>freeBufs := freeBufs s @ [buf_idx (slots ring ! slotIdx)],
                    netmapTxRings := set_ring ifc (unat ringid) (put_slot nm f ring) (netmapTxRings s),
                    statsNumTransmitted := statsNumTransmitted s + 1\<rparr>)
      else Inr (s\<lparr>freeBufs := freeBufs s @ [NETMAP_BUF_IDX nm ring (buf_ptr f)],
                  statsNumDroppedRingSpace := statsNumDroppedRingSpace s + 1\<rparr>)))"

definition tx_frame ::
    "'r netmap_api \<Rightarrow> iheap \<Rightarrow> rtheap \<Rightarrow> (nat \<Rightarrow> int) \<Rightarrow> frame \<Rightarrow> u32 \<times> ('p, 'q, 'r) Manager \<Rightarrow>
     (u32 \<times> ('p, 'q, 'r) Manager) result" where
  "tx_frame nm h th clk f rs =
     bindE (tx_flags h th clk f rs) (\<lambda>(f, ringid, s).
     if iface f AND IFACE_DISCARD \<noteq> 0 then
       bindE (ring_at (netmapTxRings s) 0 0) (\<lambda>ring.
       Inr (ringid, s\<lparr>statsNumDropped := statsNumDropped s + 1,
                      freeBufs := freeBufs s @ [NETMAP_BUF_IDX nm ring (buf_ptr f)]\<rparr>))
     else
       let ringid = ringid + 1; ringid = (if ringid = numWorkers s then 0 else ringid) in
       bindE (tx_slot nm f ringid s) (\<lambda>s. Inr (ringid, s)))"

text \<open>\<open>deq q\<close> is \<^verbatim>\<open>try_dequeue\<close>: a frame and the rest of the queue, if there is one.\<close>

fun tx_all ::
    "nat \<Rightarrow> 'r netmap_api \<Rightarrow> ('q \<Rightarrow> (frame \<times> 'q) option) \<Rightarrow> iheap \<Rightarrow> rtheap \<Rightarrow> (nat \<Rightarrow> int) \<Rightarrow>
     u32 \<times> ('p, 'q, 'r) Manager \<Rightarrow> ('p, 'q, 'r) Manager result option" where
  "tx_all 0 nm deq h th clk rs = None"
| "tx_all (Suc fuel) nm deq h th clk (ringid, s) =
     (if outRings s = [] then Some (Inl OutOfBounds)
      else case deq (outRings s ! 0) of
        None \<Rightarrow> Some (Inr s)
      | Some (f, q) \<Rightarrow>
          case tx_frame nm h th clk f (ringid, s\<lparr>outRings := (outRings s)[0 := q]\<rparr>) of
            Inl e \<Rightarrow> Some (Inl e)
          | Inr rs \<Rightarrow> tx_all fuel nm deq h th clk rs)"

section \<open>The main loop\<close>

text \<open>
  \<open>kpoll\<close> is \<^verbatim>\<open>poll\<close>: it blocks until a ring is ready, and the kernel moves the rings on and fills
  buffers; its result is negative on failure.
\<close>

type_synonym 'r ports = "'r netmap_ring_scheme list list \<times> 'r netmap_ring_scheme list list \<times> mem"

definition manager_process ::
    "nat \<Rightarrow> 'r netmap_api \<Rightarrow> ('r ports \<Rightarrow> int \<times> 'r ports) \<Rightarrow>
     (frame list \<Rightarrow> 'p \<Rightarrow> bool \<times> 'p) \<Rightarrow> ('q \<Rightarrow> (frame \<times> 'q) option) \<Rightarrow> iheap \<Rightarrow> rtheap \<Rightarrow> (nat \<Rightarrow> int) \<Rightarrow>
     ('p, 'q, 'r) Manager \<Rightarrow> ('p, 'q, 'r) Manager result option" where
  "manager_process fuel nm kpoll enqb deq h th clk s =
     (let (res, rx, tx, m) = kpoll (netmapRxRings s, netmapTxRings s, memory s);
          s = s\<lparr>netmapRxRings := rx, netmapTxRings := tx, memory := m\<rparr> in
      if res < 0 then Some (Inl (Fatal ''poll() failed''))
      else case rx_all nm enqb s of
        Inl e \<Rightarrow> Some (Inl e)
      | Inr s \<Rightarrow> tx_all fuel nm deq h th clk (0, s))"

section \<open>Statistics\<close>

definition manager_stats :: "('p, 'q, 'r) Manager \<Rightarrow> string" where
  "manager_stats s = ''Manager: '' @
     ''#Recv: '' @ string_of_nat (unat (statsNumRecv s)) @ '', '' @
     ''#Dropped: '' @ string_of_nat (unat (statsNumDropped s)) @ '', '' @
     ''#DroppedRingSpace: '' @ string_of_nat (unat (statsNumDroppedRingSpace s)) @ '', '' @
     ''#DroppedNoMac: '' @ string_of_nat (unat (statsNumDroppedNoMac s)) @ '', '' @
     ''#Transmitted: '' @ string_of_nat (unat (statsNumTransmitted s)) @ endl"

text \<open>One round of the statistics thread for the manager's own counters.\<close>

definition manager_print_stats :: "('p, 'q, 'r) Manager \<Rightarrow> string \<times> ('p, 'q, 'r) Manager" where
  "manager_print_stats s = (manager_stats s @ endl, s\<lparr>statsNumRecv := 0, statsNumDropped := 0,
     statsNumDroppedRingSpace := 0, statsNumDroppedNoMac := 0, statsNumTransmitted := 0\<rparr>)"

end
