(* ===== verification/Startup.thy ===== *)
theory Startup
  imports LinuxTable Manager Worker
begin

text \<open>
  The start of the router: \<^verbatim>\<open>src/main.cpp\<close>, the constructor of \<^verbatim>\<open>Manager\<close>, \<^verbatim>\<open>initNetmap\<close>,
  \<^verbatim>\<open>startWorkerThreads\<close> and \<^verbatim>\<open>run\<close>. The system calls and the netmap macros that look into the
  shared memory region are fields of a record, the command line is the list of its words. \<^verbatim>\<open>config.hpp\<close> defines
  \<^verbatim>\<open>GlobalConfig\<close> as a static object, one for each translation unit; the model has the one of
  \<^verbatim>\<open>main.cpp\<close>, which writes it in \<^verbatim>\<open>parseOptions\<close> and reads it in the inline constructor of \<^verbatim>\<open>Manager\<close>.
  No other code uses a copy.
\<close>

section \<open>Options\<close>

definition usage :: "string \<Rightarrow> string" where
  "usage name =
     (let tab = [char_of (9 :: nat)] in
      ''Usage: '' @ name @ '' <options> <list-of-interfaces>'' @ endl @ ''options:'' @ endl @
      tab @ ''-t <x>'' @ tab @ tab @ ''Use x worker threads (default: 1)'' @ endl)"

text \<open>
  A word of the command line. Behind the last one there is a null pointer, and behind that nothing
  the program may look at.
\<close>

definition argv_at :: "string list \<Rightarrow> nat \<Rightarrow> string result" where
  "argv_at argv pos = (if pos < length argv then Inr (argv ! pos) else if pos = length argv then Inl NullDeref else Inl OutOfBounds)"

text \<open>
  The loop of \<^verbatim>\<open>parseOptions\<close> from position \<open>pos\<close> on, with the number of workers so far. The word is
  looked at before the position is compared with \<^verbatim>\<open>argc\<close>, and the second comparison of the condition for the help
  text lacks its \<^verbatim>\<open>== 0\<close>.
\<close>

function parse_from :: "(string \<Rightarrow> int) \<Rightarrow> string list \<Rightarrow> nat \<Rightarrow> u32 \<Rightarrow> (nat \<times> u32) result" where
  "parse_from ub argv pos nw =
     bindE (argv_at argv pos) (\<lambda>arg.
     if (case arg of [] \<Rightarrow> False | c # _ \<Rightarrow> c = CHR ''-'') \<and> pos < length argv then
       if arg = ''-t'' then
         bindE (argv_at argv (pos + 1)) (\<lambda>x. parse_from ub argv (pos + 2) (word_of_int (atoi ub x)))
       else if arg = ''-h'' \<or> arg \<noteq> ''--help'' then Inl (Exit 0)
       else Inl (Exit 1)
     else Inr (pos, nw))"
  by pat_completeness auto
termination
  by (relation "measure (\<lambda>(ub, argv, pos, nw). length argv - pos)") auto

declare parse_from.simps [simp del]

definition parseOptions :: "(string \<Rightarrow> int) \<Rightarrow> string list \<Rightarrow> (nat \<times> u32) result" where
  "parseOptions ub argv = parse_from ub argv 1 1"

text \<open>\<^verbatim>\<open>main\<close> up to the construction of the manager: the number of workers and the interfaces to use.\<close>

definition main_args :: "(string \<Rightarrow> int) \<Rightarrow> string list \<Rightarrow> (u32 \<times> string list) result" where
  "main_args ub argv =
     (if length argv < 2 then Inl (Exit 0)
      else bindE (parseOptions ub argv) (\<lambda>(intStart, nw). Inr (nw, drop intStart argv)))"

section \<open>The operating system and netmap\<close>

record nmreq =
  nr_name :: string
  nr_version :: u32
  nr_offset :: u32
  nr_memsize :: u32
  nr_tx_slots :: u32
  nr_rx_slots :: u32
  nr_tx_rings :: u16
  nr_rx_rings :: u16
  nr_ringid :: u16
  nr_cmd :: u16
  nr_arg1 :: u16
  nr_arg2 :: u16
  nr_arg3 :: u32
  nr_flags :: u32

text \<open>
  \<open>'k\<close> is the state of the kernel and \<open>'n\<close> the type of \<^verbatim>\<open>netmap_if*\<close>. \<^verbatim>\<open>mmap\<close> returns \<open>None\<close> for \<^verbatim>\<open>MAP_FAILED\<close>;
  \<open>nm_memory\<close> is the content of the mapped region.
\<close>

record ('k, 'n, 'r) netmap_os =
  geteuid :: "'k \<Rightarrow> u32"
  open_netmap :: "'k \<Rightarrow> int \<times> 'k"
  NIOCREGIF :: "int \<Rightarrow> nmreq \<Rightarrow> 'k \<Rightarrow> nmreq \<times> 'k"
  mmap :: "u32 \<Rightarrow> int \<Rightarrow> 'k \<Rightarrow> addr option \<times> 'k"
  NETMAP_IF :: "addr \<Rightarrow> u32 \<Rightarrow> 'n"
  ni_tx_rings :: "'n \<Rightarrow> u32"
  ni_rx_rings :: "'n \<Rightarrow> u32"
  ni_bufs_head :: "'n \<Rightarrow> u32"
  NETMAP_TXRING :: "'n \<Rightarrow> u32 \<Rightarrow> 'r netmap_ring_scheme"
  NETMAP_RXRING :: "'n \<Rightarrow> u32 \<Rightarrow> 'r netmap_ring_scheme"
  nm_memory :: "'k \<Rightarrow> mem"
  NETMAP_API :: u32
  NR_REG_NIC_SW :: u32

section \<open>The manager's other members\<close>

datatype manager_state = M_RUN | M_STOP

record ('p, 'q, 'r, 'n) Router =
  man :: "('p, 'q, 'r) Manager"
  workers :: "Worker list"
  curLPM :: "trie option"
  netmapIfs :: "'n list"
  nmreq_root :: nmreq
  fds :: "int list"
  mmapRegion :: "addr option"
  interfacesToUse :: "string list"
  man_interfaces :: "iptr list"
  man_table :: "routing_table option"
  man_state :: manager_state
  iface_heap :: iheap

definition zero_nmreq :: nmreq where
  "zero_nmreq = \<lparr>nr_name = [], nr_version = 0, nr_offset = 0, nr_memsize = 0, nr_tx_slots = 0, nr_rx_slots = 0,
     nr_tx_rings = 0, nr_rx_rings = 0, nr_ringid = 0, nr_cmd = 0, nr_arg1 = 0, nr_arg2 = 0, nr_arg3 = 0, nr_flags = 0\<rparr>"

text \<open>
  \<^verbatim>\<open>fillNetLink\<close> sorts a vector of \<^verbatim>\<open>shared_ptr\<close>: the order is that of the addresses of the objects, which \<open>before\<close>
  stands for, not the order of \<^verbatim>\<open>Interface\<close>.
\<close>

definition fillNetLink ::
    "(iptr \<Rightarrow> iptr \<Rightarrow> bool) \<Rightarrow> nat \<Rightarrow> ('m, 'a) mnl_api \<Rightarrow> ('w, 'b, 'm, nl_state) mnl_socket \<Rightarrow> iheap \<Rightarrow> iptr \<Rightarrow> 'w \<Rightarrow>
     (iheap \<times> iptr list \<times> 'w) result option" where
  "fillNetLink before fuel api sk h p w =
     bindO (getAllInterfaces fuel api sk h p w) (\<lambda>(s, w, _). Some (Inr (nl_heap s, std_sort before (nl_ifaces s), w)))"

definition new_Manager :: "u32 \<Rightarrow> string list \<Rightarrow> iheap \<Rightarrow> iptr list \<Rightarrow> ('p, 'q, 'r, 'n) Router" where
  "new_Manager nw names h ifs =
     \<lparr>man = \<lparr>inRings = [], outRings = [], freeBufs = [], numWorkers = nw, netmapRxRings = [], netmapTxRings = [],
        numInterfaces = 0, arpTable = new_ARPTable ifs, statsNumRecv = 0, statsNumDropped = 0, statsNumDroppedRingSpace = 0,
        statsNumDroppedNoMac = 0, statsNumTransmitted = 0, missingMACs = Map.empty, memory = (\<lambda>_. 0), ticks = 0\<rparr>,
      workers = [], curLPM = None, netmapIfs = [], nmreq_root = zero_nmreq, fds = [], mmapRegion = None,
      interfacesToUse = names, man_interfaces = ifs, man_table = None, man_state = M_STOP, iface_heap = h\<rparr>"

section \<open>Binding the interfaces to netmap\<close>

text \<open>
  The walk over the list of extra buffers: each buffer begins with the index of the next one, 0 ends the list.
\<close>

fun free_walk :: "nat \<Rightarrow> 'r netmap_api \<Rightarrow> 'r netmap_ring_scheme \<Rightarrow> mem \<Rightarrow> u32 \<Rightarrow> u32 list \<Rightarrow> u32 list option" where
  "free_walk 0 nm ring m bufIdx bufs = None"
| "free_walk (Suc fuel) nm ring m bufIdx bufs =
     (if bufIdx = 0 then Some bufs
      else free_walk fuel nm ring m (rd32 m (NETMAP_BUF nm ring bufIdx)) (bufs @ [bufIdx]))"

definition ring_error :: "string \<Rightarrow> u16 \<Rightarrow> u32 \<Rightarrow> string \<Rightarrow> string" where
  "ring_error kind present expected ifname =
     ''Could not set the correct amount of '' @ kind @ '' rings!'' @ endl @
     ''Present: '' @ string_of_nat (unat present) @ endl @ ''Expected: '' @ string_of_nat (unat expected) @ endl @
     ''Please use the following command'' @ endl @
     ''ethtool -L '' @ ifname @ '' combined '' @ string_of_nat (unat expected) @ endl"

definition ring_ids :: "u32 \<Rightarrow> u32 list" where
  "ring_ids n = map of_nat [0..<unat (n + 1)]"

text \<open>One iteration of the loop over \<^verbatim>\<open>interfacesToUse\<close>. The request is reused, with what the kernel has written to it.\<close>

definition init_iface ::
    "nat \<Rightarrow> 'r netmap_api \<Rightarrow> ('k, 'n, 'r) netmap_os \<Rightarrow> string \<Rightarrow> 'k \<times> nat \<times> ('p, 'q, 'r, 'n) Router \<Rightarrow>
     ('k \<times> nat \<times> ('p, 'q, 'r, 'n) Router) result option" where
  "init_iface fuel nm os ifname st =
     (let (k, iface_num, s) = st;
          (fd, k) = open_netmap os k;
          s = s\<lparr>fds := fds s @ [fd]\<rparr>;
          (req, k) = NIOCREGIF os fd ((nmreq_root s)\<lparr>nr_name := take 16 ifname\<rparr>) k;
          s = s\<lparr>nmreq_root := req\<rparr>;
          (region, k) = (case mmapRegion s of Some a \<Rightarrow> (Some a, k) | None \<Rightarrow> mmap os (nr_memsize req) fd k) in
      case region of
        None \<Rightarrow> Some (Inl Abort)
      | Some a \<Rightarrow>
          let nw = numWorkers (man s) in
          if (ucast (nr_tx_rings req) :: u32) \<noteq> nw then Some (fatal (ring_error ''TX'' (nr_tx_rings req) nw ifname))
          else if (ucast (nr_rx_rings req) :: u32) \<noteq> nw then Some (fatal (ring_error ''RX'' (nr_rx_rings req) nw ifname))
          else
            let nifp = NETMAP_IF os a (nr_offset req);
                tx = netmapTxRings (man s) @ [map (NETMAP_TXRING os nifp) (ring_ids (ni_tx_rings os nifp))];
                rx = netmapRxRings (man s) @ [map (NETMAP_RXRING os nifp) (ring_ids (ni_rx_rings os nifp))]
            in case ring_at tx 0 0 of
                 Inl e \<Rightarrow> Some (Inl e)
               | Inr ring \<Rightarrow>
                   case free_walk fuel nm ring (nm_memory os k) (ni_bufs_head os nifp) (freeBufs (man s)) of
                     None \<Rightarrow> None
                   | Some bufs \<Rightarrow>
                       case find (\<lambda>p. ifname = if_name (iface_heap s p)) (man_interfaces s) of
                         None \<Rightarrow> Some (fatal ''Manager::initNetmap something went wrong: netmap interface not found in netlink context'')
                       | Some p \<Rightarrow>
                           Some (Inr (k, Suc iface_num, s\<lparr>mmapRegion := Some a, netmapIfs := netmapIfs s @ [nifp],
                             man := (man s)\<lparr>netmapTxRings := tx, netmapRxRings := rx, freeBufs := bufs, memory := nm_memory os k\<rparr>,
                             iface_heap := (iface_heap s)(p := (iface_heap s p)\<lparr>netmapIndex := of_nat iface_num\<rparr>)\<rparr>)))"

definition RING_SIZE :: nat where "RING_SIZE = 1024"

definition root_request :: "('k, 'n, 'r) netmap_os \<Rightarrow> u32 \<Rightarrow> nmreq" where
  "root_request os nw = zero_nmreq\<lparr>nr_version := NETMAP_API os, nr_tx_slots := 2048, nr_rx_slots := 2048,
     nr_tx_rings := ucast nw, nr_rx_rings := ucast nw, nr_ringid := 0, nr_flags := NR_REG_NIC_SW os,
     nr_cmd := 0, nr_arg1 := 0, nr_arg2 := 1, nr_arg3 := 256\<rparr>"

text \<open>
  \<^verbatim>\<open>initNetmap\<close>. \<open>lt\<close> is the table that \<^verbatim>\<open>make_shared<LinuxTable>\<close> has built, \<open>ub\<close> belongs to the trie and
  \<open>newIn\<close>, \<open>newOut\<close> make empty queues of a given size.
\<close>

definition initNetmap ::
    "nat \<Rightarrow> 'r netmap_api \<Rightarrow> ('k, 'n, 'r) netmap_os \<Rightarrow> (u32 \<Rightarrow> nat \<Rightarrow> u32) \<Rightarrow> (nat \<Rightarrow> 'p) \<Rightarrow> (nat \<Rightarrow> 'q) \<Rightarrow>
     (iheap \<Rightarrow> iptr list \<Rightarrow> routing_table result option) \<Rightarrow> 'k \<times> ('p, 'q, 'r, 'n) Router \<Rightarrow>
     ('k \<times> ('p, 'q, 'r, 'n) Router) result option" where
  "initNetmap fuel nm os ub newIn newOut lt ks =
     (let (k, s) = ks in
      if geteuid os k \<noteq> 0 then Some (fatal ''You need to be root in order to use Netmap!'')
      else bindO (lt (iface_heap s) (man_interfaces s)) (\<lambda>table.
      let s = s\<lparr>man_table := Some table, nmreq_root := root_request os (numWorkers (man s))\<rparr> in
      bindO (foldO (init_iface fuel nm os) (interfacesToUse s) (k, 0, s)) (\<lambda>(k, _, s).
      let nw = unat (numWorkers (man s));
          s = s\<lparr>man := (man s)\<lparr>inRings := inRings (man s) @ replicate nw (newIn RING_SIZE),
                 outRings := outRings (man s) @ replicate nw (newOut RING_SIZE)\<rparr>\<rparr> in
      Some (bindE (buildNextHopList (iface_heap s) table) (\<lambda>table.
        bindE (print_table (iface_heap s) (entries table)) (\<lambda>_.
        bindE (buildTrie ub (entries table)) (\<lambda>lpm.
        Inr (k, s\<lparr>man_table := Some table, curLPM := Some lpm,
               man := (man s)\<lparr>numInterfaces := of_nat (length (netmapIfs s))\<rparr>\<rparr>))))))))"

section \<open>Starting the workers, running\<close>

definition startWorkerThreads :: "('p, 'q, 'r, 'n) Router \<Rightarrow> ('p, 'q, 'r, 'n) Router result" where
  "startWorkerThreads s =
     bindE (deref (man_table s)) (\<lambda>table.
     bindE (createCurrentTable (iface_heap s) (\<lambda>_. table) 0 (arpTable (man s))) (\<lambda>arp.
     bindE (deref (curLPM s)) (\<lambda>lpm.
     if 0 < numWorkers (man s) \<and> (inRings (man s) = [] \<or> outRings (man s) = []) then Inl OutOfBounds
     else Inr (s\<lparr>man := (man s)\<lparr>arpTable := arp\<rparr>,
            workers := workers s @ map (\<lambda>i. new_Worker lpm (getCurrentTable arp) (man_interfaces s) (of_nat i))
              [0..<unat (numWorkers (man s))]\<rparr>))))"

definition manager_stop :: "('p, 'q, 'r, 'n) Router \<Rightarrow> ('p, 'q, 'r, 'n) Router" where
  "manager_stop s = s\<lparr>man_state := M_STOP\<rparr>"

definition printInterfaces :: "('p, 'q, 'r, 'n) Router \<Rightarrow> string" where
  "printInterfaces s = concat (map (\<lambda>p. Interface_toString (iface_heap s p) @ endl) (man_interfaces s))"

text \<open>
  \<^verbatim>\<open>run\<close>, observed for as many rounds as \<open>envs\<close> has elements; each of them is what the other threads do between two rounds.
\<close>

fun manager_loop ::
    "(('p, 'q, 'r) Manager \<Rightarrow> ('p, 'q, 'r) Manager result option) \<Rightarrow>
     (('p, 'q, 'r, 'n) Router \<Rightarrow> ('p, 'q, 'r, 'n) Router) list \<Rightarrow> ('p, 'q, 'r, 'n) Router \<Rightarrow> ('p, 'q, 'r, 'n) Router result option" where
  "manager_loop body [] s = None"
| "manager_loop body (env # envs) s =
     (if man_state s = M_RUN
      then bindO (body (man s)) (\<lambda>m. manager_loop body envs (env (s\<lparr>man := m\<rparr>)))
      else Some (Inr s))"

definition manager_run ::
    "nat \<Rightarrow> 'r netmap_api \<Rightarrow> ('k, 'n, 'r) netmap_os \<Rightarrow> (u32 \<Rightarrow> nat \<Rightarrow> u32) \<Rightarrow> (nat \<Rightarrow> 'p) \<Rightarrow> (nat \<Rightarrow> 'q) \<Rightarrow>
     (iheap \<Rightarrow> iptr list \<Rightarrow> routing_table result option) \<Rightarrow>
     (iheap \<Rightarrow> rtheap \<Rightarrow> ('p, 'q, 'r) Manager \<Rightarrow> ('p, 'q, 'r) Manager result option) \<Rightarrow>
     (('p, 'q, 'r, 'n) Router \<Rightarrow> ('p, 'q, 'r, 'n) Router) list \<Rightarrow> 'k \<times> ('p, 'q, 'r, 'n) Router \<Rightarrow>
     ('p, 'q, 'r, 'n) Router result option" where
  "manager_run fuel nm os ub newIn newOut lt body envs ks =
     bindO (initNetmap fuel nm os ub newIn newOut lt ks) (\<lambda>(k, s).
     bindO (Some (startWorkerThreads s)) (\<lambda>s.
     bindO (Some (deref (man_table s))) (\<lambda>table.
     manager_loop (body (iface_heap s) (\<lambda>_. table)) envs (s\<lparr>man_state := M_RUN\<rparr>))))"

text \<open>
  The whole program: \<^verbatim>\<open>main\<close> constructs the manager, which collects the interfaces, and runs it. The two sockets are the same
  library seen with the user data of the two callbacks; \<open>h\<close> and \<open>p\<close> are the heap before the first interface is made.
\<close>

definition main ::
    "(string \<Rightarrow> int) \<Rightarrow> (iptr \<Rightarrow> iptr \<Rightarrow> bool) \<Rightarrow> nat \<Rightarrow> ('m, 'a) mnl_api \<Rightarrow> ('w, 'b, 'm, nl_state) mnl_socket \<Rightarrow>
     ('w, 'b, 'm, rib) mnl_socket \<Rightarrow> 'r netmap_api \<Rightarrow> ('k, 'n, 'r) netmap_os \<Rightarrow> (u32 \<Rightarrow> nat \<Rightarrow> u32) \<Rightarrow> (nat \<Rightarrow> 'p) \<Rightarrow> (nat \<Rightarrow> 'q) \<Rightarrow>
     (iheap \<Rightarrow> rtheap \<Rightarrow> ('p, 'q, 'r) Manager \<Rightarrow> ('p, 'q, 'r) Manager result option) \<Rightarrow>
     (('p, 'q, 'r, 'n) Router \<Rightarrow> ('p, 'q, 'r, 'n) Router) list \<Rightarrow> iheap \<Rightarrow> iptr \<Rightarrow> 'w \<Rightarrow> 'k \<Rightarrow> string list \<Rightarrow>
     ('p, 'q, 'r, 'n) Router result option" where
  "main ubi before fuel api sk sk' nm os ub newIn newOut body envs h p w k argv =
     bindO (Some (main_args ubi argv)) (\<lambda>(nw, names).
     bindO (fillNetLink before fuel api sk h p w) (\<lambda>(h, ifs, w).
     manager_run fuel nm os ub newIn newOut
       (\<lambda>h ifs. bindO (LinuxTable fuel api sk' h ifs w) (\<lambda>(t, _). Some (Inr t)))
       body envs (k, new_Manager nw names h ifs)))"

end
