(* ===== verification/Binding.thy ===== *)
theory Binding
  imports Startup
begin

text \<open>
  What the start of the router does: which command lines it accepts, that the walk over the free buffers collects the
  list netmap has prepared, and that every interface of the command line becomes the port with its
  position as netmap index.
\<close>

section \<open>The command line\<close>

definition is_option :: "string \<Rightarrow> bool" where
  "is_option s = (case s of [] \<Rightarrow> False | c # _ \<Rightarrow> c = CHR ''-'')"

definition t_options :: "string list \<Rightarrow> string list" where
  "t_options ns = concat (map (\<lambda>n. [''-t'', n]) ns)"

definition workers_of :: "(string \<Rightarrow> int) \<Rightarrow> string list \<Rightarrow> u32 \<Rightarrow> u32" where
  "workers_of ub ns nw = (if ns = [] then nw else word_of_int (atoi ub (last ns)))"

lemma parse_from_end:
  assumes "rest = [] \<or> hd rest \<noteq> ''-t''"
  shows "parse_from ub (pre @ rest) (length pre) nw =
    (case rest of [] \<Rightarrow> Inl NullDeref
     | w # _ \<Rightarrow> if is_option w then Inl (Exit (if w = ''--help'' then 1 else 0)) else Inr (length pre, nw))"
  using assms
  by (cases rest) (auto simp: parse_from.simps [of ub _ "length pre"] argv_at_def is_option_def nth_append split: list.splits)

lemma parse_from_t_options:
  assumes "rest = [] \<or> hd rest \<noteq> ''-t''"
  shows "parse_from ub (pre @ t_options ns @ rest) (length pre) nw =
    (case rest of [] \<Rightarrow> Inl NullDeref
     | w # _ \<Rightarrow> if is_option w then Inl (Exit (if w = ''--help'' then 1 else 0))
                else Inr (length pre + 2 * length ns, workers_of ub ns nw))"
proof (induction ns arbitrary: pre nw)
  case Nil
  then show ?case using parse_from_end [OF assms, of ub pre nw] by (cases rest) (simp_all add: t_options_def workers_of_def)
next
  case (Cons n ns)
  let ?argv = "pre @ t_options (n # ns) @ rest"
  have argv: "?argv = (pre @ [''-t'', n]) @ t_options ns @ rest" by (simp add: t_options_def)
  have "parse_from ub ?argv (length pre) nw = parse_from ub ?argv (length pre + 2) (word_of_int (atoi ub n))"
    by (subst parse_from.simps) (simp add: argv_at_def t_options_def nth_append)
  also have "\<dots> = parse_from ub ((pre @ [''-t'', n]) @ t_options ns @ rest) (length (pre @ [''-t'', n])) (word_of_int (atoi ub n))"
    by (simp only: argv) simp
  finally show ?case unfolding Cons.IH
    by (auto simp: workers_of_def split: list.splits)
qed

text \<open>
  C34: What the router makes of its command line, which is a name, any number of \<^verbatim>\<open>-t\<close> options and the rest. The rest are the
  interfaces, and the last option counts. Nothing at all prints the usage; options without an interface dereference
  the null pointer at the end of \<^verbatim>\<open>argv\<close>. Every other option prints the usage and exits with 0, except
  \<^verbatim>\<open>--help\<close>, which is reported as unknown.
\<close>

theorem main_args_words:
  assumes "rest = [] \<or> hd rest \<noteq> ''-t''"
  shows "main_args ub (name # t_options ns @ rest) =
    (case rest of
       [] \<Rightarrow> if ns = [] then Inl (Exit 0) else Inl NullDeref
     | w # _ \<Rightarrow> if is_option w then Inl (Exit (if w = ''--help'' then 1 else 0)) else Inr (workers_of ub ns 1, rest))"
proof (cases "ns = [] \<and> rest = []")
  case True
  then show ?thesis by (simp add: main_args_def t_options_def)
next
  case False
  then have "2 \<le> length (name # t_options ns @ rest)" by (cases ns; cases rest) (auto simp: t_options_def)
  moreover have "length (t_options ns) = 2 * length ns" by (induction ns) (auto simp: t_options_def)
  moreover note parse_from_t_options [OF assms, of ub "[name]" ns 1]
  ultimately show ?thesis using False
    by (auto simp: main_args_def parseOptions_def split: list.splits)
qed

theorem main_args_words_witness:
  "main_args (\<lambda>_. 0) (''ariadne'' # t_options [''2'', ''4''] @ [''eth0'', ''eth1'']) = Inr (4, [''eth0'', ''eth1''])"
proof -
  have "workers_of (\<lambda>_. 0) [''2'', ''4''] 1 = 4" "\<not> is_option ''eth0''" by code_simp+
  then show ?thesis using main_args_words [of "[''eth0'', ''eth1'']" "\<lambda>_. 0" "''ariadne''" "[''2'', ''4'']"] by simp
qed

section \<open>The list of free buffers\<close>

fun free_chain :: "'r netmap_api \<Rightarrow> 'r netmap_ring_scheme \<Rightarrow> mem \<Rightarrow> u32 \<Rightarrow> u32 list \<Rightarrow> bool" where
  "free_chain nm ring m b [] \<longleftrightarrow> b = 0"
| "free_chain nm ring m b (x # xs) \<longleftrightarrow> b = x \<and> x \<noteq> 0 \<and> free_chain nm ring m (rd32 m (NETMAP_BUF nm ring x)) xs"

lemma free_walk_chain:
  "free_chain nm ring m b bs \<Longrightarrow> length bs < fuel \<Longrightarrow> free_walk fuel nm ring m b acc = Some (acc @ bs)"
proof (induction bs arbitrary: b acc fuel)
  case Nil
  then show ?case by (cases fuel) auto
next
  case (Cons x bs)
  then show ?case by (cases fuel) auto
qed

section \<open>Ports\<close>

definition set_index :: "iptr \<Rightarrow> nat \<Rightarrow> iheap \<Rightarrow> iheap" where
  "set_index p j h = h(p := (h p)\<lparr>netmapIndex := of_nat j\<rparr>)"

lemma set_index_simps [simp]:
  "set_index p j h p = (h p)\<lparr>netmapIndex := of_nat j\<rparr>" "q \<noteq> p \<Longrightarrow> set_index p j h q = h q"
  "if_name (set_index p j h q) = if_name (h q)"
  by (auto simp: set_index_def)

text \<open>The interface objects after the names \<open>xs\<close> have been bound from index \<open>j\<close> on.\<close>

abbreviation by_name :: "iheap \<Rightarrow> iptr list \<Rightarrow> string \<Rightarrow> iptr option" where
  "by_name h ifs x \<equiv> find (\<lambda>p. x = if_name (h p)) ifs"

fun bind_ports :: "iptr list \<Rightarrow> string list \<Rightarrow> nat \<Rightarrow> iheap \<Rightarrow> iheap" where
  "bind_ports ifs [] j h = h"
| "bind_ports ifs (x # xs) j h =
     (case by_name h ifs x of
        None \<Rightarrow> bind_ports ifs xs (Suc j) h
      | Some p \<Rightarrow> bind_ports ifs xs (Suc j) (set_index p j h))"

lemma by_name_Some: "by_name h ifs x = Some p \<Longrightarrow> p \<in> set ifs \<and> if_name (h p) = x"
  by (auto simp: find_Some_iff)

lemma bind_ports_name [simp]: "if_name (bind_ports ifs xs j h p) = if_name (h p)"
  by (induction ifs xs j h rule: bind_ports.induct) (auto split: option.splits)

lemma bind_ports_other:
  "(\<And>x. x \<in> set xs \<Longrightarrow> by_name h ifs x \<noteq> Some p) \<Longrightarrow> bind_ports ifs xs j h p = h p"
proof (induction xs arbitrary: j h)
  case (Cons x xs)
  show ?case
  proof (cases "by_name h ifs x")
    case None
    then show ?thesis using Cons by simp
  next
    case (Some q)
    have "q \<noteq> p" using Cons.prems [of x] Some by auto
    then show ?thesis using Cons.IH [of "set_index q j h" "Suc j"] Cons.prems Some by simp
  qed
qed simp

lemma bind_ports_index:
  "distinct xs \<Longrightarrow> i < length xs \<Longrightarrow> by_name h ifs (xs ! i) = Some p \<Longrightarrow>
     bind_ports ifs xs j h p = (h p)\<lparr>netmapIndex := of_nat (j + i)\<rparr>"
proof (induction xs arbitrary: i j h)
  case (Cons x xs)
  have nm: "if_name (h p) = (x # xs) ! i" using by_name_Some [OF Cons.prems(3)] by simp
  show ?case
  proof (cases i)
    case 0
    have "by_name (set_index p j h) ifs y \<noteq> Some p" if "y \<in> set xs" for y
      using by_name_Some [where h = "set_index p j h" and x = y] nm 0 that Cons.prems(1) by auto
    from bind_ports_other [of xs "set_index p j h" ifs p "Suc j", OF this] 0 Cons.prems(3) show ?thesis by simp
  next
    case (Suc i')
    show ?thesis
    proof (cases "by_name h ifs x")
      case None
      then show ?thesis using Cons.IH [of i' h "Suc j"] Cons.prems Suc by simp
    next
      case (Some q)
      then have "q \<noteq> p" using by_name_Some [OF Some] nm Suc Cons.prems(1,2) by auto
      then show ?thesis using Cons.IH [of i' "set_index q j h" "Suc j"] Cons.prems Suc Some by simp
    qed
  qed
qed simp

lemma of_nat_u32_eq: "i < 2 ^ 32 \<Longrightarrow> j < 2 ^ 32 \<Longrightarrow> (of_nat i :: u32) = of_nat j \<longleftrightarrow> i = j"
  by (simp add: word_unat_eq_iff unsigned_of_nat take_bit_nat_eq_self)

text \<open>After binding, the search by index finds the interface with the name at that position.\<close>

lemma bind_ports_find:
  assumes "distinct xs" "length xs < 2 ^ 32 - 1" "i < length xs" "by_name h ifs (xs ! i) = Some p"
    and unset: "\<And>q. q \<in> set ifs \<Longrightarrow> netmapIndex (h q) = uint32_t_max"
  shows "find_iface (bind_ports ifs xs 0 h) ifs (of_nat i) = Some p"
  unfolding find_iface_def
proof (rule find_unique)
  show "p \<in> set ifs" using by_name_Some [OF assms(4)] by simp
  show "netmapIndex (bind_ports ifs xs 0 h p) = of_nat i" using bind_ports_index [OF assms(1,3,4), of 0] by simp
  fix q assume q: "q \<in> set ifs" "netmapIndex (bind_ports ifs xs 0 h q) = of_nat i"
  have "uint32_t_max = (of_nat (2 ^ 32 - 1) :: u32)" by (simp add: uint32_t_max_def)
  then have max: "uint32_t_max \<noteq> (of_nat i :: u32)" using of_nat_u32_eq [of "2 ^ 32 - 1" i] assms(2,3) by simp
  have "\<exists>x \<in> set xs. by_name h ifs x = Some q"
    using bind_ports_other [of xs h ifs q 0] q unset [OF q(1)] max by metis
  then obtain j where j: "j < length xs" "by_name h ifs (xs ! j) = Some q" by (auto simp: in_set_conv_nth)
  then have "(of_nat j :: u32) = of_nat i" using bind_ports_index [OF assms(1) j, of 0] q(2) by simp
  then have "j = i" using of_nat_u32_eq [of j i] j(1) assms(2,3) by simp
  with j(2) assms(4) show "q = p" by simp
qed

text \<open>
  What the set-up relies on of the kernel and of netmap: the rings it asked for, a mapped region, and for every interface a list of
  extra buffers that ends.
\<close>

definition os_ok :: "('k, 'n, 'r) netmap_os \<Rightarrow> 'r netmap_api \<Rightarrow> u32 \<Rightarrow> nat \<Rightarrow> ('k \<Rightarrow> 'n \<Rightarrow> u32 list) \<Rightarrow> bool" where
  "os_ok os nm nw fuel bufs \<longleftrightarrow>
     (\<forall>fd req k. case NIOCREGIF os fd req k of (req', k') \<Rightarrow> nr_tx_rings req' = ucast nw \<and> nr_rx_rings req' = ucast nw) \<and>
     (\<forall>sz fd k. fst (mmap os sz fd k) \<noteq> None) \<and> (\<forall>n. ni_tx_rings os n + 1 \<noteq> 0) \<and>
     (\<forall>ring k n. free_chain nm ring (nm_memory os k) (ni_bufs_head os n) (bufs k n) \<and> length (bufs k n) < fuel)"

lemma ring_ids_Nil: "ring_ids n = [] \<longleftrightarrow> n + 1 = 0"
  by (simp add: ring_ids_def unat_eq_0)

definition first_ring :: "('p, 'q, 'r) Manager \<Rightarrow> bool" where
  "first_ring m \<longleftrightarrow> netmapTxRings m = [] \<or> netmapTxRings m ! 0 \<noteq> []"

text \<open>What binding leaves alone.\<close>

definition untouched :: "('p, 'q, 'r, 'n) Router \<Rightarrow> ('p, 'q, 'r, 'n) Router \<Rightarrow> bool" where
  "untouched s s' \<longleftrightarrow> man_interfaces s' = man_interfaces s \<and> workers s' = workers s \<and> numWorkers (man s') = numWorkers (man s) \<and>
     inRings (man s') = inRings (man s) \<and> outRings (man s') = outRings (man s) \<and> arpTable (man s') = arpTable (man s)"

lemma init_iface_ok:
  assumes os: "os_ok os nm nw fuel bufs" and nw: "nw < 65536" "numWorkers (man s) = nw" "first_ring (man s)"
    and p: "by_name (iface_heap s) (man_interfaces s) x = Some p"
  shows "\<exists>k' s' n. init_iface fuel nm os x (k, j, s) = Some (Inr (k', Suc j, s')) \<and>
    iface_heap s' = set_index p j (iface_heap s) \<and>
    untouched s s' \<and> first_ring (man s') \<and>
    length (netmapTxRings (man s')) = Suc (length (netmapTxRings (man s))) \<and>
    length (netmapRxRings (man s')) = Suc (length (netmapRxRings (man s))) \<and>
    netmapIfs s' = netmapIfs s @ [n] \<and> freeBufs (man s') = freeBufs (man s) @ bufs k' n"
proof -
  obtain fd k1 where k1: "open_netmap os k = (fd, k1)" by (cases "open_netmap os k")
  obtain req k2 where k2: "NIOCREGIF os fd ((nmreq_root s)\<lparr>nr_name := take 16 x\<rparr>) k1 = (req, k2)"
    by (cases "NIOCREGIF os fd ((nmreq_root s)\<lparr>nr_name := take 16 x\<rparr>) k1")
  have rings: "nr_tx_rings req = ucast nw" "nr_rx_rings req = ucast nw"
    using os k2 unfolding os_ok_def by (metis (mono_tags, lifting) case_prod_conv)+
  obtain a k3 where k3: "(case mmapRegion s of Some a \<Rightarrow> (Some a, k2) | None \<Rightarrow> mmap os (nr_memsize req) fd k2) = (Some a, k3)"
    using os unfolding os_ok_def by (cases "mmapRegion s") (auto, metis fst_conv not_Some_eq surj_pair)
  have uc: "(ucast (ucast nw :: u16) :: u32) = nw"
  proof -
    have "unat (ucast nw :: u16) = unat nw"
      using nw(1) by (simp add: unsigned_ucast_eq take_bit_nat_eq_self_iff word_less_nat_alt)
    then show ?thesis by (simp only: word_unat_eq_iff unat_ucast16)
  qed
  let ?n = "NETMAP_IF os a (nr_offset req)"
  let ?tx = "netmapTxRings (man s) @ [map (NETMAP_TXRING os ?n) (ring_ids (ni_tx_rings os ?n))]"
  have "ring_ids (ni_tx_rings os ?n) \<noteq> []" using os by (simp add: os_ok_def ring_ids_Nil)
  then have tx: "0 < length ?tx" "?tx ! 0 \<noteq> []" using nw(3) by (auto simp: first_ring_def nth_append)
  then have ring: "ring_at ?tx 0 0 = Inr (?tx ! 0 ! 0)" by (simp add: ring_at_def)
  have walk: "free_walk fuel nm ring (nm_memory os k3) (ni_bufs_head os ?n) (freeBufs (man s)) =
      Some (freeBufs (man s) @ bufs k3 ?n)" for ring
    using os unfolding os_ok_def by (intro free_walk_chain) auto
  show ?thesis
    using k1 k2 k3 rings uc ring walk p nw(2) tx
    by (intro exI [of _ k3] exI [of _ ?n]) (auto simp: init_iface_def Let_def first_ring_def set_index_def untouched_def)
qed

lemma init_all_ok:
  assumes os: "os_ok os nm nw fuel bufs" and nw: "nw < 65536"
  shows "numWorkers (man s) = nw \<Longrightarrow> first_ring (man s) \<Longrightarrow>
    (\<And>x. x \<in> set xs \<Longrightarrow> by_name (iface_heap s) (man_interfaces s) x \<noteq> None) \<Longrightarrow>
    \<exists>k' s' ns ks. foldO (init_iface fuel nm os) xs (k, j, s) = Some (Inr (k', j + length xs, s')) \<and>
      iface_heap s' = bind_ports (man_interfaces s) xs j (iface_heap s) \<and>
      untouched s s' \<and>
      length (netmapTxRings (man s')) = length (netmapTxRings (man s)) + length xs \<and>
      length (netmapRxRings (man s')) = length (netmapRxRings (man s)) + length xs \<and>
      length ns = length xs \<and> length ks = length xs \<and> netmapIfs s' = netmapIfs s @ ns \<and>
      freeBufs (man s') = freeBufs (man s) @ concat (map2 bufs ks ns)"
proof (induction xs arbitrary: k j s)
  case Nil
  then show ?case by (auto simp: untouched_def)
next
  case (Cons x xs)
  obtain p where p: "by_name (iface_heap s) (man_interfaces s) x = Some p" using Cons.prems(3) [of x] by auto
  obtain k1 s1 n where 1: "init_iface fuel nm os x (k, j, s) = Some (Inr (k1, Suc j, s1))"
    "iface_heap s1 = set_index p j (iface_heap s)" "untouched s s1" "first_ring (man s1)" "length (netmapTxRings (man s1)) = Suc (length (netmapTxRings (man s)))"
    "length (netmapRxRings (man s1)) = Suc (length (netmapRxRings (man s)))" "netmapIfs s1 = netmapIfs s @ [n]"
    "freeBufs (man s1) = freeBufs (man s) @ bufs k1 n"
    using init_iface_ok [OF os nw Cons.prems(1,2) p, of k j] by blast
  have ifs: "man_interfaces s1 = man_interfaces s" and nw1: "numWorkers (man s1) = nw"
    using 1(3) Cons.prems(1) by (simp_all add: untouched_def)
  have "\<And>y. y \<in> set xs \<Longrightarrow> by_name (iface_heap s1) (man_interfaces s1) y \<noteq> None"
    using Cons.prems(3) by (simp add: 1(2) ifs)
  from Cons.IH [OF nw1 1(4) this, of k1 "Suc j"] obtain k2 s2 ns ks where 2:
    "foldO (init_iface fuel nm os) xs (k1, Suc j, s1) = Some (Inr (k2, Suc j + length xs, s2))"
    "iface_heap s2 = bind_ports (man_interfaces s1) xs (Suc j) (iface_heap s1)" "untouched s1 s2"
    "length (netmapTxRings (man s2)) = length (netmapTxRings (man s1)) + length xs"
    "length (netmapRxRings (man s2)) = length (netmapRxRings (man s1)) + length xs"
    "length ns = length xs" "length ks = length xs" "netmapIfs s2 = netmapIfs s1 @ ns"
    "freeBufs (man s2) = freeBufs (man s1) @ concat (map2 bufs ks ns)"
    by blast
  show ?case
    by (rule exI [of _ k2], rule exI [of _ s2], rule exI [of _ "n # ns"], rule exI [of _ "k1 # ks"])
      (use 1(3) 2(3) in \<open>simp add: 1 2 p untouched_def\<close>)
qed

text \<open>
  C16: Binding the interfaces of the command line succeeds when netmap grants the rings the workers need and knows every
  interface; it assigns to each the position of its name as netmap index, so that the search by index finds it,
  leaves all other interfaces alone, adds one row of rings per interface and collects the extra buffers of all of them.
\<close>

theorem init_binds_ports:
  assumes "os_ok os nm (numWorkers (man s)) fuel bufs" "numWorkers (man s) < 65536"
    and "netmapTxRings (man s) = []" "netmapRxRings (man s) = []"
    and "distinct names" "length names < 2 ^ 32 - 1"
    and "\<forall>x \<in> set names. by_name (iface_heap s) (man_interfaces s) x \<noteq> None"
    and "\<forall>p \<in> set (man_interfaces s). netmapIndex (iface_heap s p) = uint32_t_max"
  shows "\<exists>k' s' ns ks. foldO (init_iface fuel nm os) names (k, 0, s) = Some (Inr (k', length names, s')) \<and>
    (\<forall>i < length names. find_iface (iface_heap s') (man_interfaces s') (of_nat i) = by_name (iface_heap s) (man_interfaces s) (names ! i)) \<and>
    (\<forall>p. if_name (iface_heap s p) \<notin> set names \<longrightarrow> iface_heap s' p = iface_heap s p) \<and>
    length (netmapTxRings (man s')) = length names \<and> length (netmapRxRings (man s')) = length names \<and>
    length ks = length names \<and> length ns = length names \<and>
    netmapIfs s' = netmapIfs s @ ns \<and> freeBufs (man s') = freeBufs (man s) @ concat (map2 bufs ks ns)"
proof -
  let ?h = "iface_heap s" and ?ifs = "man_interfaces s"
  let ?h' = "bind_ports ?ifs names 0 ?h"
  have fr: "first_ring (man s)" using assms(3) by (simp add: first_ring_def)
  obtain k' s' ns ks where res: "foldO (init_iface fuel nm os) names (k, 0, s) = Some (Inr (k', 0 + length names, s'))"
    "iface_heap s' = ?h'" "untouched s s'"
    "length (netmapTxRings (man s')) = length (netmapTxRings (man s)) + length names"
    "length (netmapRxRings (man s')) = length (netmapRxRings (man s)) + length names"
    "length ns = length names" "length ks = length names" "netmapIfs s' = netmapIfs s @ ns"
    "freeBufs (man s') = freeBufs (man s) @ concat (map2 bufs ks ns)"
    using init_all_ok [OF assms(1,2) refl fr, of names k 0] assms(7) by auto
  have "find_iface ?h' ?ifs (of_nat i) = by_name ?h ?ifs (names ! i)" if i: "i < length names" for i
    using bind_ports_find [OF assms(5,6) i, of ?h ?ifs] assms(7,8) i by (metis not_None_eq nth_mem)
  moreover have "?h' p = ?h p" if "if_name (?h p) \<notin> set names" for p
    using that by (intro bind_ports_other) (auto dest: by_name_Some)
  ultimately show ?thesis using res assms(3,4) unfolding untouched_def by (intro exI [of _ k'] exI [of _ s'] exI [of _ ns] exI [of _ ks]) simp
qed

definition sample_nm :: "unit netmap_api" where
  "sample_nm = \<lparr>nm_ring_space = (\<lambda>_. 0), nm_ring_next = (\<lambda>_ i. i), NETMAP_BUF = (\<lambda>_ i. 2048 * unat i),
     NETMAP_BUF_IDX = (\<lambda>_ a. of_nat (a div 2048)), NS_BUF_CHANGED = 1\<rparr>"

definition sample_os :: "(unit, unit, unit) netmap_os" where
  "sample_os = \<lparr>geteuid = (\<lambda>_. 0), open_netmap = (\<lambda>k. (3, k)),
     NIOCREGIF = (\<lambda>fd req k. (req\<lparr>nr_tx_rings := 1, nr_rx_rings := 1\<rparr>, k)), mmap = (\<lambda>sz fd k. (Some 0, k)),
     NETMAP_IF = (\<lambda>a off. ()), ni_tx_rings = (\<lambda>_. 1), ni_rx_rings = (\<lambda>_. 1), ni_bufs_head = (\<lambda>_. 7),
     NETMAP_TXRING = (\<lambda>_ _. \<lparr>slots = [], head = 0, cur = 0, \<dots> = ()\<rparr>),
     NETMAP_RXRING = (\<lambda>_ _. \<lparr>slots = [], head = 0, cur = 0, \<dots> = ()\<rparr>),
     nm_memory = (\<lambda>_ _. 0), NETMAP_API = 11, NR_REG_NIC_SW = 3\<rparr>"

lemma sample_os_ok: "os_ok sample_os sample_nm 1 3 (\<lambda>_ _. [7])"
  by (simp add: os_ok_def sample_os_def sample_nm_def rd32_def)

definition sample_heap :: iheap where
  "sample_heap p = new_Interface\<lparr>if_name := (if p = 5 then ''eth1'' else ''lo''), netlinkIndex := of_nat p\<rparr>"

definition sample_router :: "(unit, unit, unit, unit) Router" where
  "sample_router = new_Manager 1 [''eth1''] sample_heap [4, 5]"

lemma sample_router_simps:
  "numWorkers (man sample_router) = 1" "netmapTxRings (man sample_router) = []" "netmapRxRings (man sample_router) = []"
  "iface_heap sample_router = sample_heap" "man_interfaces sample_router = [4, 5]" "freeBufs (man sample_router) = []"
  by (simp_all add: sample_router_def new_Manager_def)

theorem init_binds_ports_witness:
  "\<exists>k' s'. foldO (init_iface 3 sample_nm sample_os) [''eth1''] ((), 0, sample_router) = Some (Inr (k', 1, s')) \<and>
     find_iface (iface_heap s') (man_interfaces s') 0 = Some 5"
proof -
  have "by_name sample_heap [4, 5] ''eth1'' = Some 5" by (simp add: sample_heap_def)
  moreover have "\<forall>p \<in> set [4, 5]. netmapIndex (sample_heap p) = uint32_t_max" by (simp add: sample_heap_def new_Interface_def)
  ultimately show ?thesis
    using init_binds_ports [where s = sample_router and names = "[''eth1'']" and os = sample_os and nm = sample_nm and fuel = 3
        and k = "()", OF sample_os_ok [folded sample_router_simps(1)]]
    by (auto simp: sample_router_simps)
qed

end
