(* ===== verification/Forwarding.thy ===== *)
theory Forwarding
  imports WorkerPath Aggregation Binding
begin

text \<open>
  The composition of the components on the way of a packet: the table read from the kernel, its aggregation, the two
  numberings, the trie and the ARP table. The lemmas here carry a best route of the kernel's table through these steps to the
  entry of the ARP table that the worker uses.
\<close>

section \<open>Gateways and interfaces\<close>

text \<open>The pairs of gateway and interface of a list of routes. Aggregation invents none.\<close>

definition hops :: "route list \<Rightarrow> (u32 \<times> iptr option) set" where
  "hops b = (\<lambda>r. (next_hop r, interface r)) ` set b"

definition rib_hops :: "rib \<Rightarrow> (u32 \<times> iptr option) set" where
  "rib_hops es = hops (concat es)"

lemma hops_simps [simp]: "hops [] = {}" "hops (r # b) = insert (next_hop r, interface r) (hops b)" "hops (a @ b) = hops a \<union> hops b"
  by (auto simp: hops_def)

lemma agg_scan_hops:
  "agg_scan len i b u = Inr (b', u') \<Longrightarrow> hops b' \<union> hops u' \<subseteq> hops b \<union> hops u"
proof (induction len i b u rule: agg_scan.induct)
  case (1 len i b u)
  show ?case
  proof (cases "int i < size_minus_1 b")
    case False
    then show ?thesis using 1(3) by (simp add: agg_scan.simps [of len i b u])
  next
    case scan: True
    show ?thesis
    proof (cases "Suc i < length b")
      case False
      then show ?thesis using 1(3) scan by (simp add: agg_scan.simps [of len i b u])
    next
      case in_vec: True
      show ?thesis
      proof (cases "mergeable len (b ! i) (b ! Suc i)")
        case True
        let ?b = "take i b @ drop (i + 2) b" and ?u = "u @ [merged len (b ! i)]"
        have "hops b' \<union> hops u' \<subseteq> hops ?b \<union> hops ?u"
          using 1(1) [OF scan in_vec refl refl True] 1(3) scan in_vec True by (simp add: agg_scan.simps [of len i b u])
        moreover have "hops ?b \<subseteq> hops b" using set_take_subset [of i b] set_drop_subset [of "i + 2" b] by (auto simp: hops_def)
        moreover have "(next_hop (merged len (b ! i)), interface (merged len (b ! i))) \<in> hops b"
          using in_vec by (auto simp: hops_def merged_def)
        ultimately show ?thesis by auto
      next
        case False
        then show ?thesis using 1(2) [OF scan in_vec refl refl False] 1(3) scan in_vec by (simp add: agg_scan.simps [of len i b u])
      qed
    qed
  qed
qed

lemma rib_hops_nth: "rib_hops es = (\<Union>l < length es. hops (es ! l))"
proof -
  have "rib_hops es = (\<Union>b \<in> set es. hops b)" by (auto simp: rib_hops_def hops_def)
  then show ?thesis by (auto simp: set_conv_nth)
qed

lemma rib_hops_subset: "rib_hops es \<subseteq> H \<longleftrightarrow> (\<forall>l < length es. hops (es ! l) \<subseteq> H)"
  by (auto simp: rib_hops_nth)

lemma agg_level_hops:
  assumes "agg_level len es = Inr es'" "0 < len"
  shows "rib_hops es' \<subseteq> rib_hops es"
proof -
  let ?s = "std_sort route_less (es ! len)" and ?u = "es ! (len - 1)"
  have len: "len < length es" and lt: "len - 1 < length es" "len - 1 \<noteq> len"
    using assms by (auto simp: agg_level_def split: if_splits)
  have s: "hops ?s = hops (es ! len)" by (simp add: hops_def)
  show ?thesis
  proof (cases "length ?s < 2")
    case True
    then have "es' = es[len := ?s]" using assms(1) len by (auto simp: agg_level_def Let_def)
    moreover have "hops (es ! l) \<subseteq> rib_hops es" if "l < length es" for l using that by (auto simp: rib_hops_nth)
    ultimately show ?thesis unfolding rib_hops_subset using len s by (auto simp: nth_list_update)
  next
    case False
    then obtain b u where bu: "agg_scan len 0 ?s ?u = Inr (b, u)" "es' = es[len := ?s, len := b, len - 1 := u]"
      using assms(1) len lt by (auto simp: agg_level_def Let_def bindE_Inr_iff)
    have "hops b \<subseteq> rib_hops es" "hops u \<subseteq> rib_hops es"
      using agg_scan_hops [OF bu(1)] s len lt by (auto simp: rib_hops_nth)
    moreover have "hops (es ! l) \<subseteq> rib_hops es" if "l < length es" for l using that by (auto simp: rib_hops_nth)
    ultimately show ?thesis unfolding rib_hops_subset bu(2) using len lt by (auto simp: nth_list_update)
  qed
qed

lemma aggregate_hops: "aggregate es = Inr es' \<Longrightarrow> rib_hops es' \<subseteq> rib_hops es"
  unfolding aggregate_def
  by (erule foldE_invariant [where I = "\<lambda>e. rib_hops e \<subseteq> rib_hops es"]) (auto dest!: agg_level_hops)

section \<open>The mapping holds the interface of its gateway\<close>

definition from_routes :: "(u32 \<times> iptr option) set \<Rightarrow> nh_index \<times> nh_abstract list \<Rightarrow> bool" where
  "from_routes H st \<longleftrightarrow> (\<forall>nh \<in> set (snd st). (nh_ip nh, nh_interface nh) \<in> H)"

lemma assign_index_from:
  "assign_index h r st = Inr (r', st') \<Longrightarrow> from_routes H st \<Longrightarrow> (next_hop r, interface r) \<in> H \<Longrightarrow> from_routes H st'"
  by (auto simp: assign_index_def from_routes_def Let_def split: if_splits option.splits prod.splits)

lemma mapE_from:
  assumes "mapE (assign_index h) b st = Inr (b', st')" "from_routes H st" "hops b \<subseteq> H"
  shows "from_routes H st'"
  using mapE_invariant [where I = "from_routes H" and R = "\<lambda>_ _. True" and Q = "\<lambda>_ _ _. True", OF assms(1,2)]
    assign_index_from [of h _ _ _ _ H] assms(3) by (fastforce simp: hops_def)

lemma buildNextHopList_from:
  assumes "buildNextHopList h t = Inr t'" "nextHopMapping t = []"
  shows "\<forall>nh \<in> set (nextHopMapping t'). (nh_ip nh, nh_interface nh) \<in> rib_hops (entries t)"
proof -
  let ?H = "rib_hops (entries t)"
  obtain es n m where run: "mapE (mapE (assign_index h)) (entries t) (0, []) = Inr (es, n, m)" and t': "nextHopMapping t' = m"
    using assms by (auto simp: buildNextHopList_def bindE_Inr_iff)
  have sub: "hops b \<subseteq> ?H" if "b \<in> set (entries t)" for b using that by (auto simp: rib_hops_def hops_def)
  have "from_routes ?H (0, [])" by (simp add: from_routes_def)
  then have "from_routes ?H (n, m)"
    using mapE_invariant [where I = "from_routes ?H" and R = "\<lambda>_ _. True" and Q = "\<lambda>_ _ _. True", OF run]
      mapE_from [of h _ _ _ _ ?H] sub by blast
  then show ?thesis by (simp add: from_routes_def t')
qed

section \<open>Numbering keeps the routes\<close>

definition same_route :: "route \<Rightarrow> route \<Rightarrow> bool" where
  "same_route r r' \<longleftrightarrow> base r' = base r \<and> prefix_length r' = prefix_length r \<and> next_hop r' = next_hop r \<and> interface r' = interface r"

lemma numbered_same: "numbered h m r r' \<Longrightarrow> same_route r r'"
  using numbered_fields [of h m r r'] by (simp add: same_route_def)

lemma renumbered_same: "renumbered h r r' \<Longrightarrow> same_route r r'"
  by (auto simp: renumbered_def same_route_def split: if_splits)

lemma same_route_covers: "same_route r r' \<Longrightarrow> covers r' addr = covers r addr \<and> plen r' = plen r"
  by (simp add: same_route_def covers_def plen_def)

lemma wf_bucket_same: "list_all2 same_route b b' \<Longrightarrow> wf_bucket len b \<Longrightarrow> wf_bucket len b'"
proof -
  assume all: "list_all2 same_route b b'" and wf: "wf_bucket len b"
  have "map base b' = map base b" using all by (induction rule: list_all2_induct) (auto simp: same_route_def)
  moreover have "plen r' = len \<and> base r' AND PREFIX_MASK len = base r'" if r': "r' \<in> set b'" for r'
  proof -
    obtain r where "r \<in> set b" "same_route r r'" using list_all2_set2 [OF all r'] by (rule bexE)
    with wf show ?thesis by (auto simp: wf_bucket_def same_route_def plen_def)
  qed
  ultimately show ?thesis using wf by (simp add: wf_bucket_def)
qed

lemma wf_rib_same:
  assumes "list_all2 (list_all2 same_route) es es'" "wf_rib es"
  shows "wf_rib es'"
proof -
  have "length es' = length es" using list_all2_lengthD [OF assms(1)] by simp
  moreover have "wf_bucket len (es' ! len)" if "len < 33" for len
    using wf_bucket_same [OF list_all2_nthD [OF assms(1)]] assms(2) that by (simp add: wf_rib_def)
  ultimately show ?thesis using assms(2) by (simp add: wf_rib_def)
qed

lemma is_best_same:
  assumes "list_all2 (list_all2 same_route) es es'" "is_best (routes es) addr r" "r' \<in> routes es'" "same_route r r'"
  shows "is_best (routes es') addr r'"
proof -
  have "plen q' \<le> plen r'" if q': "q' \<in> routes es'" "covers q' addr" for q'
  proof -
    obtain q where "q \<in> routes es" "same_route q q'" using list_all2_routes(1) [OF assms(1) q'(1)] by (rule bexE)
    then show ?thesis using assms(2,4) q'(2) same_route_covers by (metis is_best_def)
  qed
  moreover have "covers r' addr" using assms(2,4) same_route_covers by (metis is_best_def)
  ultimately show ?thesis using assms(3) by (simp add: is_best_def)
qed

text \<open>
  A best route through a gateway, after both numberings: it is numbered, and its index selects the entry of its gateway.
\<close>

lemma best_route_numbered:
  assumes wf: "wf_rib es" and ok: "nh_table_ok (of_nat (length m), m)"
    and n1: "list_all2 (list_all2 (numbered h m)) es es1" and n2: "list_all2 (list_all2 (renumbered h')) es1 es2"
    and best: "is_best (routes es) addr r" and gw: "next_hop r \<noteq> 0"
  shows "wf_rib es2 \<and> (\<exists>r2 i. is_best (numbered_routes es2) addr r2 \<and> same_route r r2 \<and>
    i < length m \<and> index r2 = of_nat i \<and> nh_ip (m ! i) = next_hop r)"
proof -
  have s1: "list_all2 (list_all2 same_route) es es1"
    using n1 by (rule list_all2_mono) (auto elim!: list_all2_mono numbered_same)
  have s2: "list_all2 (list_all2 same_route) es1 es2"
    using n2 by (rule list_all2_mono) (auto elim!: list_all2_mono renumbered_same)
  have wf2: "wf_rib es2" using wf_rib_same [OF s2 wf_rib_same [OF s1 wf]] .
  have "r \<in> routes es" using best by (simp add: is_best_def)
  then obtain r1 where r1: "r1 \<in> routes es1" "numbered h m r r1" using list_all2_routes(2) [OF n1] by blast
  then obtain r2 where r2: "r2 \<in> routes es2" "renumbered h' r1 r2" using list_all2_routes(2) [OF n2] by blast
  have gw1: "next_hop r1 \<noteq> 0" using numbered_fields(2) [OF r1(2)] gw by simp
  then have "r2 = r1" using r2(2) by (simp add: renumbered_def)
  moreover obtain i where i: "i < length m" "index r1 = of_nat i" "nh_ip (m ! i) = next_hop r"
    using r1(2) gw by (auto simp: numbered_def)
  moreover have "index r1 \<noteq> NH_INVALID"
  proof
    assume "index r1 = NH_INVALID"
    then have "(of_nat i :: u16) = 0xFFFF" using i(2) by (simp add: NH_INVALID_def uint16_t_max_def)
    then have "unat (of_nat i :: u16) = 65535" by simp
    moreover have "i < 65535" using ok i(1) by (simp add: nh_table_ok_def)
    ultimately show False by (simp add: unsigned_of_nat take_bit_nat_eq_self)
  qed
  moreover have "is_best (routes es2) addr r2"
    using is_best_same [OF s2 is_best_same [OF s1 best r1(1) numbered_same [OF r1(2)]] r2(1) renumbered_same [OF r2(2)]] .
  ultimately have "is_best (numbered_routes es2) addr r2"
    by (auto simp: is_best_def numbered_routes_def)
  with wf2 i \<open>r2 = r1\<close> numbered_same [OF r1(2)] show ?thesis by blast
qed

text \<open>Every gateway is reached through one interface.\<close>

definition gateways_ok :: "rib \<Rightarrow> bool" where
  "gateways_ok es \<longleftrightarrow> (\<forall>x \<in> rib_hops es. \<forall>y \<in> rib_hops es. fst x \<noteq> 0 \<and> fst x = fst y \<longrightarrow> snd x = snd y)"

text \<open>The state of the forwarding tables after the start: aggregated, numbered twice, built into a trie.\<close>

lemma tables_resolve:
  assumes rib: "wf_rib (entries t0)" "agg_clash_free (rev [1..<31]) (entries t0)" "nextHopMapping t0 = []"
    and gws: "gateways_ok (entries t0)"
    and up: "update (\<lambda>_. Inr t0) h t = Inr t1" and again: "buildNextHopList h' t1 = Inr t2"
    and fw: "forwards (routes (entries t0)) addr (g, Some p)" "g \<noteq> 0"
    and lpm: "buildTrie ub (entries t2) = Inr lpm"
  shows "\<exists>i < length (nextHopMapping t2). trie_route ub lpm addr = of_nat i \<and> nh_ip (nextHopMapping t2 ! i) = g \<and>
    nh_interface (nextHopMapping t2 ! i) = Some p \<and> length (nextHopMapping t2) \<le> 65535"
proof -
  obtain es where agg: "aggregate (entries t0) = Inr es" using up by (auto simp: update_def bindE_Inr_iff)
  then have es: "aggregate (entries t0) = Inr es" "wf_rib es" "forwards (routes es) addr (g, Some p)"
    using aggregate_returned [OF rib(1,2) agg] fw(1) by auto
  let ?t = "t0\<lparr>entries := es\<rparr>" and ?m = "nextHopMapping t1"
  have b1: "buildNextHopList h ?t = Inr t1" and nm: "nextHopMapping ?t = []"
    using up es(1) rib(3) by (simp_all add: update_def)
  have ok: "nh_table_ok (of_nat (length ?m), ?m)" and n1: "list_all2 (list_all2 (numbered h ?m)) es (entries t1)"
    using buildNextHopList_numbered [OF b1 nm] by auto
  obtain es2 n m where run: "mapE (mapE (assign_index h')) (entries t1) (0, ?m) = Inr (es2, n, m)"
    and t2: "entries t2 = es2" "nextHopMapping t2 = m"
    using again by (auto simp: buildNextHopList_def bindE_Inr_iff)
  have "(n, m) = (0, ?m) \<and> list_all2 (list_all2 (renumbered h')) (entries t1) es2"
    using mapE_mapE_assign_index_again [OF run ok] list_all2_routes(1) [OF n1] by blast
  then have m: "m = ?m" and n2: "list_all2 (list_all2 (renumbered h')) (entries t1) es2" by simp_all
  obtain r where r: "is_best (routes es) addr r" "next_hop r = g" "interface r = Some p" using es(3) by (auto simp: forwards_def)
  obtain r2 i where wf2: "wf_rib es2" and r2: "is_best (numbered_routes es2) addr r2"
    and i: "i < length ?m" "index r2 = of_nat i" "nh_ip (?m ! i) = g"
    using best_route_numbered [OF es(2) ok n1 n2 r(1)] r(2) fw(2) by auto
  have "trie_route ub lpm addr = of_nat i" using trie_route_hit [OF wf2 _ r2] lpm t2 i(2) by simp
  moreover have "(g, nh_interface (?m ! i)) \<in> rib_hops (entries t0)"
    using buildNextHopList_from [OF b1 nm] aggregate_hops [OF es(1)] i by fastforce
  moreover have "r \<in> routes es" using r(1) by (simp add: is_best_def)
  then have "(g, Some p) \<in> rib_hops es" using r(2,3) by (force simp: rib_hops_def hops_def routes_def)
  then have "(g, Some p) \<in> rib_hops (entries t0)" using aggregate_hops [OF es(1)] by blast
  ultimately have "trie_route ub lpm addr = of_nat i \<and> nh_interface (?m ! i) = Some p" using gws fw(2) unfolding gateways_ok_def by fastforce
  with i ok show ?thesis unfolding t2 m by (auto simp: nh_table_ok_def)
qed

end
