(* ===== verification/ArpProtocol.thy ===== *)
theory ArpProtocol
  imports ArpTable
begin

text \<open>
  Correctness of the ARP component: the table built for a routing table has the right port and the
  known address for every next hop, frames from the wire cannot break its invariant or write
  outside their buffer, and what a request answered by another router teaches.
\<close>

section \<open>Building the table for a routing table\<close>

text \<open>
  What the numbering of the routing table provides: the hop at position \<open>i\<close> has index \<open>i\<close>, and its
  interface is one of the netmap ports.
\<close>

definition hop_ready :: "iheap \<Rightarrow> nat \<Rightarrow> nh_abstract \<Rightarrow> bool" where
  "hop_ready h i nh \<longleftrightarrow> unat (nh_idx nh) = i \<and>
     (\<exists>p. nh_interface nh = Some p \<and> netmapIndex (h p) \<noteq> ucast uint16_t_max)"

definition hops_ready :: "iheap \<Rightarrow> nh_abstract list \<Rightarrow> bool" where
  "hops_ready h nhs \<longleftrightarrow> list_all2 (hop_ready h) [0..<length nhs] nhs"

text \<open>The entry a hop gets: its port, and the address that is known for its gateway.\<close>

definition hop_port :: "iheap \<Rightarrow> nh_abstract \<Rightarrow> u16" where
  "hop_port h nh = ucast (netmapIndex (h (the (nh_interface nh))))"

definition hop_entry :: "iheap \<Rightarrow> (u32 \<rightharpoonup> nextHop) \<Rightarrow> nh_abstract \<Rightarrow> nextHop" where
  "hop_entry h known nh = \<lparr>nh_mac = (case known (nh_ip nh) of Some k \<Rightarrow> nh_mac k | None \<Rightarrow> zero_mac),
     netmapInterface = hop_port h nh\<rparr>"

lemma fill_hop_ready:
  assumes "unat (nh_idx nh) = length xs" "nh_interface nh = Some p" "netmapIndex (h p) \<noteq> ucast uint16_t_max"
  shows "fill_hop h known nh (xs @ e # ys) = Inr (xs @ hop_entry h known nh # ys)"
  using assms by (cases e) (auto simp: fill_hop_def deref_def vec_update_def hop_entry_def hop_port_def result_simps
    list_update_append split: option.splits)

lemma fill_hops:
  "list_all2 (hop_ready h) [length xs..<length xs + length nhs] nhs \<Longrightarrow>
   foldE (fill_hop h known) nhs (xs @ replicate (length nhs) e) = Inr (xs @ map (hop_entry h known) nhs)"
proof (induction nhs arbitrary: xs)
  case (Cons nh nhs)
  let ?xs = "xs @ [hop_entry h known nh]"
  have "[length xs..<length xs + length (nh # nhs)] = length xs # [length ?xs..<length ?xs + length nhs]"
    by (subst upt_conv_Cons) auto
  with Cons.prems have "hop_ready h (length xs) nh" and rest: "list_all2 (hop_ready h) [length ?xs..<length ?xs + length nhs] nhs"
    by (simp_all only: list_all2_Cons)
  then obtain p where nh: "unat (nh_idx nh) = length xs" "nh_interface nh = Some p" "netmapIndex (h p) \<noteq> ucast uint16_t_max"
    by (auto simp: hop_ready_def)
  show ?case using Cons.IH [OF rest] fill_hop_ready [of nh xs p h known e "replicate (length nhs) e"] nh
    by simp
qed simp

lemma createCurrentTable_ready:
  assumes "hops_ready h (nextHopMapping (th rt))"
  shows "createCurrentTable h th rt a = Inr (a\<lparr>routingTable := Some rt,
    tables := tables a @ [map (hop_entry h (mapping a)) (nextHopMapping (th rt))], currentTable := length (tables a)\<rparr>)"
  using fill_hops [of h "[]" "nextHopMapping (th rt)" "mapping a" new_nextHop] assms
  by (simp add: createCurrentTable_def hops_ready_def Let_def)

section \<open>Learning addresses\<close>

definition hop_at :: "iheap \<Rightarrow> u32 \<Rightarrow> u16 \<Rightarrow> nh_abstract \<Rightarrow> bool" where
  "hop_at h ip ifc nh \<longleftrightarrow> nh_ip nh = ip \<and> (\<exists>p. nh_interface nh = Some p \<and> netmapIndex (h p) = ucast ifc)"

lemma find_hop_eq:
  "list_all (\<lambda>nh. nh_interface nh \<noteq> None) nhs \<Longrightarrow> find_hop h ip ifc nhs = Inr (find (hop_at h ip ifc) nhs)"
  by (induction nhs) (auto simp: hop_at_def deref_def split: option.splits)

lemma hops_ready_interface: "hops_ready h nhs \<Longrightarrow> nh \<in> set nhs \<Longrightarrow> nh_interface nh \<noteq> None"
  by (auto simp: hops_ready_def hop_ready_def list_all2_conv_all_nth in_set_conv_nth)

lemma hops_ready_idx: "hops_ready h nhs \<Longrightarrow> i < length nhs \<Longrightarrow> unat (nh_idx (nhs ! i)) = i"
  by (auto simp: hops_ready_def hop_ready_def list_all2_conv_all_nth)

text \<open>
  The state the manager keeps: a routing table is attached, its next hops are numbered, and the
  current table has an entry with the right port for each of them.
\<close>

definition arp_inv :: "iheap \<Rightarrow> rtheap \<Rightarrow> ARPTable \<Rightarrow> bool" where
  "arp_inv h th a \<longleftrightarrow> (\<exists>rt. routingTable a = Some rt \<and> currentTable a < length (tables a) \<and>
     hops_ready h (nextHopMapping (th rt)) \<and>
     list_all2 (\<lambda>nh e. netmapInterface e = hop_port h nh \<and>
         (nh_mac e = zero_mac \<or> mapping a (nh_ip nh) \<noteq> None))
       (nextHopMapping (th rt)) (hops_of a (currentTable a)))"

lemma learn_cases:
  assumes "arp_inv h th a" "routingTable a = Some rt"
  obtains
    (registered) i where "i < length (nextHopMapping (th rt))" "hop_at h ip ifc (nextHopMapping (th rt) ! i)"
      "i < length (hops_of a (currentTable a))"
      "learn h th ip mc ifc a = Inr (True, a\<lparr>mapping := map_insert ip \<lparr>nh_mac = mc, netmapInterface = ifc\<rparr> (mapping a),
        tables := (tables a)[currentTable a := (hops_of a (currentTable a))[i := (hops_of a (currentTable a) ! i)\<lparr>nh_mac := mc\<rparr>]]\<rparr>)"
  | (station) "\<And>nh. nh \<in> set (nextHopMapping (th rt)) \<Longrightarrow> \<not> hop_at h ip ifc nh"
      "learn h th ip mc ifc a = Inr (False, a\<lparr>directlyConnected :=
         map_insert ip \<lparr>nh_mac = mc, netmapInterface = ifc\<rparr> (directlyConnected a)\<rparr>)"
proof -
  let ?nhs = "nextHopMapping (th rt)"
  have r: "hops_ready h ?nhs" and l: "length (hops_of a (currentTable a)) = length ?nhs"
    using assms by (auto simp: arp_inv_def dest: list_all2_lengthD)
  have f: "find_hop h ip ifc ?nhs = Inr (find (hop_at h ip ifc) ?nhs)"
    using hops_ready_interface [OF r] by (intro find_hop_eq) (simp add: list_all_iff)
  show thesis
  proof (cases "find (hop_at h ip ifc) ?nhs")
    case None
    show thesis
    proof (rule station)
      show "\<not> hop_at h ip ifc nh" if "nh \<in> set ?nhs" for nh using None that by (auto simp: find_None_iff)
    qed (use None f assms(2) in \<open>simp add: learn_def deref_def Let_def new_nextHop_def\<close>)
  next
    case (Some nh)
    then obtain i where i: "i < length ?nhs" "hop_at h ip ifc (?nhs ! i)" "nh = ?nhs ! i"
      by (auto simp: find_Some_iff)
    then show thesis using f assms(2) l Some hops_ready_idx [OF r, of i]
      by (intro registered [of i]) (auto simp: learn_def deref_def Let_def new_nextHop_def vec_update_def)
  qed
qed

section \<open>The frames that are sent\<close>

definition request_ether :: "mac \<Rightarrow> ether" where
  "request_ether mc = \<lparr>d_mac = broadcast_mac, s_mac = mc, ethertype = htons 0x0806\<rparr>"

definition request_arp :: "mac \<Rightarrow> u32 \<Rightarrow> u32 \<Rightarrow> arp" where
  "request_arp mc sip tip = \<lparr>hw_type = htons 1, proto_type = htons 0x0800, hw_len = 6, proto_len = 4,
     op = htons (ucast OP_REQUEST), s_hw_addr = mc, s_proto_addr = sip, t_hw_addr = zero_mac, t_proto_addr = tip\<rparr>"

definition reply_arp :: "mac \<Rightarrow> arp \<Rightarrow> arp" where
  "reply_arp mc req = req\<lparr>op := htons (ucast OP_REPLY), s_hw_addr := mc, s_proto_addr := t_proto_addr req,
     t_hw_addr := s_hw_addr req, t_proto_addr := s_proto_addr req\<rparr>"

lemma header_disjoint:
  "load_ether (store_arp (p + sizeof_ether) x m) p = load_ether m p"
  "load_arp (store_ether p y m) (p + sizeof_ether) = load_arp m (p + sizeof_ether)"
  by (simp_all add: eth_arp.load_disjoint eth_arp.load_disjoint')

lemma prepareRequest_eq:
  assumes "find_iface h (arp_interfaces a) (ucast ifc) = Some p" "IPs (h p) = front # rest"
  shows "prepareRequest h a ip ifc (m, f) =
    Inr (store_arp (buf_ptr f + sizeof_ether) (request_arp (if_mac (h p)) (htonl front) ip)
          (store_ether (buf_ptr f) (request_ether (if_mac (h p))) m), f\<lparr>frame_len := 42\<rparr>)"
proof -
  have e: "x\<lparr>s_mac := if_mac (h p), d_mac := broadcast_mac, ethertype := htons 0x0806\<rparr> = request_ether (if_mac (h p))"
    for x :: ether by (cases x) (simp add: request_ether_def)
  have r: "x\<lparr>hw_type := htons 1, proto_type := htons 0x0800, hw_len := 6, proto_len := 4,
      op := htons (ucast OP_REQUEST), s_hw_addr := if_mac (h p), s_proto_addr := htonl front,
      t_hw_addr := zero_mac, t_proto_addr := ip\<rparr> = request_arp (if_mac (h p)) (htonl front) ip"
    for x :: arp by (cases x) (simp add: request_arp_def)
  show ?thesis using assms
    by (simp add: prepareRequest_def Let_def ar.load_store ar.store_store e r sizeof_ether_def sizeof_arp_def)
qed

lemma prepareRequest_InrE:
  assumes "prepareRequest h a ip ifc (m, f) = Inr (m', f')"
  obtains p front rest where "find_iface h (arp_interfaces a) (ucast ifc) = Some p" "IPs (h p) = front # rest"
    "load_ether m' (buf_ptr f) = request_ether (if_mac (h p))"
    "load_arp m' (buf_ptr f + sizeof_ether) = request_arp (if_mac (h p)) (htonl front) ip"
    "f' = f\<lparr>frame_len := 42\<rparr>" "\<And>x. x < buf_ptr f \<or> buf_ptr f + 42 \<le> x \<Longrightarrow> m' x = m x"
proof -
  obtain p front rest where p: "find_iface h (arp_interfaces a) (ucast ifc) = Some p" "IPs (h p) = front # rest"
    using assms by (auto simp: prepareRequest_def Let_def split: option.splits list.splits)
  show thesis
  proof (rule that [OF p])
    show "m' x = m x" if "x < buf_ptr f \<or> buf_ptr f + 42 \<le> x" for x
      using that assms unfolding prepareRequest_eq [OF p]
      by (auto simp: ar.store_outside eth.store_outside sizeof_ether_def sizeof_arp_def)
  qed (use assms in \<open>auto simp: prepareRequest_eq [OF p] header_disjoint eth.load_store ar.load_store\<close>)
qed

text \<open>Every way an ARP request can go once it arrives on a port of the router.\<close>

lemma handleRequest_cases:
  assumes "arp_inv h th a" "routingTable a = Some rt"
    and "ethertype (load_ether m (buf_ptr f)) = htons 0x0806"
    and "op (load_arp m (buf_ptr f + sizeof_ether)) = htons (ucast OP_REQUEST)"
    and "find_iface h (arp_interfaces a) (ucast (iface f AND IFACE_ID)) = Some p"
  obtains
    (other) "ntohl (t_proto_addr (load_arp m (buf_ptr f + sizeof_ether))) \<notin> set (IPs (h p))"
      "handleRequest h th (m, f, a) = Inr (m, f\<lparr>iface := IFACE_DISCARD\<rparr>, a)"
  | (gateway) a' where "ntohl (t_proto_addr (load_arp m (buf_ptr f + sizeof_ether))) \<in> set (IPs (h p))"
      "learn h th (ntohl (s_proto_addr (load_arp m (buf_ptr f + sizeof_ether))))
         (s_hw_addr (load_arp m (buf_ptr f + sizeof_ether))) (iface f AND IFACE_ID) a = Inr (True, a')"
      "handleRequest h th (m, f, a) = Inr (m, f, a')"
  | (answered) a' where "ntohl (t_proto_addr (load_arp m (buf_ptr f + sizeof_ether))) \<in> set (IPs (h p))"
      "learn h th (ntohl (s_proto_addr (load_arp m (buf_ptr f + sizeof_ether))))
         (s_hw_addr (load_arp m (buf_ptr f + sizeof_ether))) (iface f AND IFACE_ID) a = Inr (False, a')"
      "handleRequest h th (m, f, a) =
        Inr (store_ether (buf_ptr f) (request_ether (if_mac (h p)))
              (store_arp (buf_ptr f + sizeof_ether) (reply_arp (if_mac (h p)) (load_arp m (buf_ptr f + sizeof_ether))) m), f, a')"
proof -
  let ?req = "load_arp m (buf_ptr f + sizeof_ether)"
  have op: "ntohs (op ?req) = ucast OP_REQUEST" using assms(4) by simp
  have e: "(load_ether m (buf_ptr f))\<lparr>s_mac := if_mac (h p), d_mac := broadcast_mac\<rparr> = request_ether (if_mac (h p))"
    using assms(3) by (cases "load_ether m (buf_ptr f)") (simp add: request_ether_def)
  have r: "?req\<lparr>op := htons (ucast OP_REPLY), t_hw_addr := s_hw_addr ?req, t_proto_addr := s_proto_addr ?req,
     s_hw_addr := if_mac (h p), s_proto_addr := t_proto_addr ?req\<rparr> = reply_arp (if_mac (h p)) ?req"
    by (cases ?req) (simp add: reply_arp_def)
  obtain reg a' where l: "learn h th (ntohl (s_proto_addr ?req)) (s_hw_addr ?req) (iface f AND IFACE_ID) a = Inr (reg, a')"
    by (rule learn_cases [OF assms(1,2)])
  show thesis
  proof (cases "ntohl (t_proto_addr ?req) \<in> set (IPs (h p))")
    case False
    then show thesis using other assms(3,5) op by (simp add: handleRequest_def Let_def count_list_0_iff)
  next
    case True
    then have "count_list (IPs (h p)) (ntohl (t_proto_addr ?req)) \<noteq> 0" by (simp add: count_list_0_iff)
    then show thesis using True gateway answered l assms(3,5) op
      by (cases reg) (simp_all add: handleRequest_def Let_def header_disjoint e r)
  qed
qed

section \<open>What a frame teaches\<close>

text \<open>
  What it means that the table knows the address \<open>mc\<close> of \<open>ip\<close> on port \<open>ifc\<close>: the entry of a registered
  next hop in the current table, the entry of any other station in the map of directly connected ones
  shows it. A station that already has an entry in that map is \<open>station_known\<close>: its entry is never
  replaced.
\<close>

definition knows_address :: "iheap \<Rightarrow> rtheap \<Rightarrow> u32 \<Rightarrow> u16 \<Rightarrow> mac \<Rightarrow> ARPTable \<Rightarrow> bool" where
  "knows_address h th ip ifc mc a \<longleftrightarrow> (\<exists>rt. routingTable a = Some rt \<and>
     (let nhs = nextHopMapping (th rt) in
      if \<exists>nh \<in> set nhs. hop_at h ip ifc nh
      then \<exists>k < length nhs. hop_at h ip ifc (nhs ! k) \<and> nh_mac (hops_of a (currentTable a) ! k) = mc
      else directlyConnected a ip = Some \<lparr>nh_mac = mc, netmapInterface = ifc\<rparr>))"

definition station_known :: "iheap \<Rightarrow> rtheap \<Rightarrow> u32 \<Rightarrow> u16 \<Rightarrow> ARPTable \<Rightarrow> bool" where
  "station_known h th ip ifc a \<longleftrightarrow> directlyConnected a ip \<noteq> None \<and>
     (\<exists>rt. routingTable a = Some rt \<and> (\<forall>nh \<in> set (nextHopMapping (th rt)). \<not> hop_at h ip ifc nh))"

lemma learn_total:
  assumes "arp_inv h th a"
  shows "\<exists>reg a'. learn h th ip mc ifc a = Inr (reg, a')"
proof -
  obtain rt where "routingTable a = Some rt" using assms by (auto simp: arp_inv_def)
  then show ?thesis using learn_cases [OF assms] by metis
qed

lemma learn_knows:
  assumes "arp_inv h th a" "learn h th ip mc ifc a = Inr (reg, a')"
  shows "if station_known h th ip ifc a then a' = a else knows_address h th ip ifc mc a'"
proof -
  obtain rt where rt: "routingTable a = Some rt" "currentTable a < length (tables a)"
    using assms(1) by (auto simp: arp_inv_def)
  show ?thesis
  proof (rule learn_cases [OF assms(1) rt(1), of ip ifc mc])
    fix i assume i: "i < length (nextHopMapping (th rt))" "hop_at h ip ifc (nextHopMapping (th rt) ! i)"
      "i < length (hops_of a (currentTable a))"
      and l: "learn h th ip mc ifc a = Inr (True, a\<lparr>mapping := map_insert ip \<lparr>nh_mac = mc, netmapInterface = ifc\<rparr> (mapping a),
        tables := (tables a)[currentTable a := (hops_of a (currentTable a))[i := (hops_of a (currentTable a) ! i)\<lparr>nh_mac := mc\<rparr>]]\<rparr>)"
    from i(1,2) have "\<exists>nh \<in> set (nextHopMapping (th rt)). hop_at h ip ifc nh" using nth_mem by blast
    then show ?thesis using rt i l assms(2) by (auto simp: knows_address_def station_known_def Let_def hops_of_def intro!: exI [of _ i])
  next
    assume "\<And>nh. nh \<in> set (nextHopMapping (th rt)) \<Longrightarrow> \<not> hop_at h ip ifc nh"
      and "learn h th ip mc ifc a = Inr (False, a\<lparr>directlyConnected :=
         map_insert ip \<lparr>nh_mac = mc, netmapInterface = ifc\<rparr> (directlyConnected a)\<rparr>)"
    then show ?thesis using rt assms(2) by (auto simp: knows_address_def station_known_def Let_def map_insert_def split: option.splits)
  qed
qed

lemma map_insert_keeps: "m k \<noteq> None \<Longrightarrow> map_insert k' v m k \<noteq> None"
  by (auto simp: map_insert_def split: option.splits)

lemma map_insert_same: "\<exists>y. map_insert k v m k = Some y"
  by (auto simp: map_insert_def split: option.splits)

lemma learn_inv:
  assumes inv: "arp_inv h th a" and eq: "learn h th ip mc ifc a = Inr (reg, a')"
  shows "arp_inv h th a'" and "routingTable a' = routingTable a" and "currentTable a' = currentTable a"
proof -
  obtain rt where rt: "routingTable a = Some rt" "currentTable a < length (tables a)"
    and r: "hops_ready h (nextHopMapping (th rt))"
    and ok: "list_all2 (\<lambda>nh e. netmapInterface e = hop_port h nh \<and>
         (nh_mac e = zero_mac \<or> mapping a (nh_ip nh) \<noteq> None))
       (nextHopMapping (th rt)) (hops_of a (currentTable a))"
    using inv by (auto simp: arp_inv_def)
  have "arp_inv h th a' \<and> routingTable a' = routingTable a \<and> currentTable a' = currentTable a"
  proof (rule learn_cases [OF inv rt(1), of ip ifc mc])
    fix i assume i: "i < length (nextHopMapping (th rt))" "hop_at h ip ifc (nextHopMapping (th rt) ! i)"
      "i < length (hops_of a (currentTable a))"
      and l: "learn h th ip mc ifc a = Inr (True, a\<lparr>mapping := map_insert ip \<lparr>nh_mac = mc, netmapInterface = ifc\<rparr> (mapping a),
        tables := (tables a)[currentTable a := (hops_of a (currentTable a))[i := (hops_of a (currentTable a) ! i)\<lparr>nh_mac := mc\<rparr>]]\<rparr>)"
    have "nh_ip (nextHopMapping (th rt) ! i) = ip" using i(2) by (simp add: hop_at_def)
    have keeps: "nh_mac e = zero_mac \<or> mapping a x \<noteq> None \<Longrightarrow>
        nh_mac e = zero_mac \<or> map_insert ip \<lparr>nh_mac = mc, netmapInterface = ifc\<rparr> (mapping a) x \<noteq> None" for e :: nextHop and x
      using map_insert_keeps [of "mapping a" x] by blast
    let ?Q = "\<lambda>nh e. netmapInterface e = hop_port h nh \<and> (nh_mac e = zero_mac \<or>
        map_insert ip \<lparr>nh_mac = mc, netmapInterface = ifc\<rparr> (mapping a) (nh_ip nh) \<noteq> None)"
    have "list_all2 ?Q (nextHopMapping (th rt)) (hops_of a (currentTable a))"
      using ok by (rule list_all2_mono) (simp only: keeps)
    moreover have "?Q (nextHopMapping (th rt) ! i) ((hops_of a (currentTable a) ! i)\<lparr>nh_mac := mc\<rparr>)"
      using list_all2_nthD [OF ok i(1)] \<open>nh_ip _ = ip\<close> by (simp add: map_insert_same)
    ultimately have "list_all2 ?Q ((nextHopMapping (th rt))[i := nextHopMapping (th rt) ! i])
       ((hops_of a (currentTable a))[i := (hops_of a (currentTable a) ! i)\<lparr>nh_mac := mc\<rparr>])"
      by (rule list_all2_update_cong)
    then show ?thesis using rt r l eq by (auto simp: arp_inv_def hops_of_def)
  next
    assume "learn h th ip mc ifc a = Inr (False, a\<lparr>directlyConnected :=
         map_insert ip \<lparr>nh_mac = mc, netmapInterface = ifc\<rparr> (directlyConnected a)\<rparr>)"
    then show ?thesis using inv rt eq by (auto simp: arp_inv_def hops_of_def)
  qed
  then show "arp_inv h th a'" "routingTable a' = routingTable a" "currentTable a' = currentTable a" by auto
qed

lemma handleReply_eq:
  assumes "ethertype (load_ether m (buf_ptr f)) = htons 0x0806"
    and "op (load_arp m (buf_ptr f + sizeof_ether)) = htons (ucast OP_REPLY)"
  shows "handleFrame h th (m, f, a) =
    bindE (learn h th (ntohl (s_proto_addr (load_arp m (buf_ptr f + sizeof_ether))))
       (s_hw_addr (load_arp m (buf_ptr f + sizeof_ether))) (iface f AND IFACE_ID) a) (\<lambda>(_, a). Inr (m, f, a))"
  using assms by (auto simp: handleFrame_def handleReply_def Let_def OP_REQUEST_def OP_REPLY_def bindE_def split: sum.splits)

lemma handleFrame_request:
  assumes "ethertype (load_ether m (buf_ptr f)) = htons 0x0806"
    and "op (load_arp m (buf_ptr f + sizeof_ether)) = htons (ucast OP_REQUEST)"
  shows "handleFrame h th (m, f, a) = handleRequest h th (m, f, a)"
  using assms by (simp add: handleFrame_def Let_def)

lemma handleFrame_ignored:
  assumes "ethertype (load_ether m (buf_ptr f)) \<noteq> htons 0x0806 \<or>
    op (load_arp m (buf_ptr f + sizeof_ether)) \<notin> {htons (ucast OP_REQUEST), htons (ucast OP_REPLY)}"
  shows "handleFrame h th (m, f, a) = Inr (m, f, a)"
proof -
  have "ntohs x = y \<longleftrightarrow> x = htons y" for x y by auto
  then show ?thesis using assms by (simp add: handleFrame_def Let_def)
qed

section \<open>Properties\<close>

text \<open>
  Two routers on one network, for the concrete instances: the first has a gateway behind its port
  1, which is the second.
\<close>

definition net_heap :: "u8 \<Rightarrow> u8 \<Rightarrow> iheap" where
  "net_heap router host i = new_Interface\<lparr>if_mac := Mac 2 0 0 0 router (of_nat i), netmapIndex := of_nat i,
     IPs := [0x0A000000 + push_bit 8 (of_nat i) + ucast host]\<rparr>"

definition gateway_heap :: rtheap where
  "gateway_heap _ = \<lparr>entries = replicate 33 [],
     nextHopMapping = [\<lparr>nh_ip = 0x0A000102, nh_interface = Some 1, nh_idx = 0\<rparr>], rt_interfaces = [1, 2]\<rparr>"

definition empty_heap :: rtheap where
  "empty_heap _ = \<lparr>entries = replicate 33 [], nextHopMapping = [], rt_interfaces = [1, 2]\<rparr>"

definition gateway_arp :: ARPTable where
  "gateway_arp = (new_ARPTable [1, 2])\<lparr>routingTable := Some 0, tables := [[], [\<lparr>nh_mac = zero_mac, netmapInterface = 1\<rparr>]],
     currentTable := 1\<rparr>"

definition empty_arp :: ARPTable where
  "empty_arp = (new_ARPTable [1, 2])\<lparr>routingTable := Some 0, tables := [[], []], currentTable := 1\<rparr>"

lemma sample_hops: "hops_ready (net_heap 1 1) (nextHopMapping (gateway_heap rt))"
  by (simp add: hops_ready_def hop_ready_def gateway_heap_def net_heap_def uint16_t_max_def)

lemma sample_inv: "arp_inv (net_heap 1 1) gateway_heap gateway_arp" "arp_inv (net_heap 2 2) empty_heap empty_arp"
proof -
  show "arp_inv (net_heap 1 1) gateway_heap gateway_arp"
    using sample_hops [of 0] unfolding arp_inv_def
    by (simp add: gateway_arp_def new_ARPTable_def hops_of_def hop_port_def) (simp add: gateway_heap_def net_heap_def)
  show "arp_inv (net_heap 2 2) empty_heap empty_arp"
    by (simp add: arp_inv_def empty_arp_def new_ARPTable_def hops_of_def hops_ready_def empty_heap_def)
qed

text \<open>
  C27: for a numbered list of next hops the manager's table gets one entry per hop, at the index the
  lookup structure returns, holding the port of the hop and the address known for its gateway;
  tables that workers still use are not touched.
\<close>

theorem createCurrentTable_entries:
  assumes "hops_ready h (nextHopMapping (th rt))"
  shows "\<exists>a'. createCurrentTable h th rt a = Inr a' \<and> arp_inv h th a' \<and>
    length (hops_of a' (getCurrentTable a')) = length (nextHopMapping (th rt)) \<and>
    (\<forall>i < length (nextHopMapping (th rt)). let nh = nextHopMapping (th rt) ! i in
       hops_of a' (getCurrentTable a') ! i =
         \<lparr>nh_mac = (case mapping a (nh_ip nh) of Some k \<Rightarrow> nh_mac k | None \<Rightarrow> zero_mac),
          netmapInterface = ucast (netmapIndex (h (the (nh_interface nh))))\<rparr>) \<and>
    (\<forall>t < length (tables a). hops_of a' t = hops_of a t) \<and>
    mapping a' = mapping a \<and> directlyConnected a' = directlyConnected a"
  unfolding createCurrentTable_ready [of h th rt a, OF assms] using assms
  by (auto simp: getCurrentTable_def hops_of_def nth_append hop_entry_def hop_port_def arp_inv_def Let_def
      list_all2_conv_all_nth split: option.splits)

theorem createCurrentTable_entries_witness:
  "\<exists>a'. createCurrentTable (net_heap 1 1) gateway_heap 0 (new_ARPTable [1, 2]) = Inr a' \<and>
     hops_of a' (getCurrentTable a') ! 0 = \<lparr>nh_mac = zero_mac, netmapInterface = 1\<rparr>"
  using createCurrentTable_entries [of "net_heap 1 1" gateway_heap 0 "new_ARPTable [1, 2]", OF sample_hops]
  by (auto simp: gateway_heap_def new_ARPTable_def net_heap_def)

text \<open>
  C17: an ARP frame that arrives on a port of the router is always handled: the invariant of the
  table is kept, nothing is written outside the 42 bytes of the frame, and the frame keeps its
  buffer, its length and its port unless it is marked for discarding.
\<close>

theorem handleFrame_safe:
  assumes "arp_inv h th a" "find_iface h (arp_interfaces a) (ucast (iface f AND IFACE_ID)) = Some p"
  shows "\<exists>m' f' a'. handleFrame h th (m, f, a) = Inr (m', f', a') \<and> arp_inv h th a' \<and>
    (\<forall>x. x < buf_ptr f \<or> buf_ptr f + 42 \<le> x \<longrightarrow> m' x = m x) \<and>
    (f' = f \<or> f' = f\<lparr>iface := IFACE_DISCARD\<rparr>)"
proof -
  obtain rt where rt: "routingTable a = Some rt" using assms(1) by (auto simp: arp_inv_def)
  let ?arp = "load_arp m (buf_ptr f + sizeof_ether)"
  consider (ignored) "ethertype (load_ether m (buf_ptr f)) \<noteq> htons 0x0806 \<or> op ?arp \<notin> {htons (ucast OP_REQUEST), htons (ucast OP_REPLY)}"
    | (request) "ethertype (load_ether m (buf_ptr f)) = htons 0x0806" "op ?arp = htons (ucast OP_REQUEST)"
    | (reply) "ethertype (load_ether m (buf_ptr f)) = htons 0x0806" "op ?arp = htons (ucast OP_REPLY)"
    by blast
  then show ?thesis
  proof cases
    case ignored
    then show ?thesis using handleFrame_ignored [OF ignored] assms(1) by simp
  next
    case request
    note eq = handleFrame_request [OF request]
    show ?thesis
    proof (rule handleRequest_cases [OF assms(1) rt request assms(2)])
      fix a' assume "learn h th (ntohl (s_proto_addr ?arp)) (s_hw_addr ?arp) (iface f AND IFACE_ID) a = Inr (True, a')"
        and "handleRequest h th (m, f, a) = Inr (m, f, a')"
      then show ?thesis using learn_inv(1) [OF assms(1)] by (auto simp: eq)
    next
      fix a' assume "learn h th (ntohl (s_proto_addr ?arp)) (s_hw_addr ?arp) (iface f AND IFACE_ID) a = Inr (False, a')"
        and "handleRequest h th (m, f, a) = Inr (store_ether (buf_ptr f) (request_ether (if_mac (h p)))
              (store_arp (buf_ptr f + sizeof_ether) (reply_arp (if_mac (h p)) ?arp) m), f, a')"
      then show ?thesis using learn_inv(1) [OF assms(1)]
        by (auto simp: eq ar.store_outside eth.store_outside sizeof_ether_def sizeof_arp_def)
    qed (use assms(1) in \<open>auto simp: eq\<close>)
  next
    case reply
    obtain reg a' where "learn h th (ntohl (s_proto_addr ?arp)) (s_hw_addr ?arp) (iface f AND IFACE_ID) a = Inr (reg, a')"
      using learn_total [OF assms(1)] by blast
    then show ?thesis using learn_inv(1) [OF assms(1)] by (auto simp: handleReply_eq [OF reply])
  qed
qed

theorem handleFrame_safe_witness:
  "\<exists>m' f' a'. handleFrame (net_heap 1 1) gateway_heap (\<lambda>_. 0, new_frame\<lparr>iface := 1\<rparr>, gateway_arp) = Inr (m', f', a') \<and>
     arp_inv (net_heap 1 1) gateway_heap a'"
  using handleFrame_safe [OF sample_inv(1), of "new_frame\<lparr>iface := 1\<rparr>" 1 "\<lambda>_. 0"]
  by (auto simp: find_iface_def gateway_arp_def new_ARPTable_def net_heap_def IFACE_ID_def)

text \<open>A reply that arrives teaches the address it carries.\<close>

lemma reply_teaches:
  assumes "arp_inv h th a" "t_proto_addr req = htonl ip" "iface f AND IFACE_ID = i"
    and w: "same_bytes 42 m (buf_ptr f) (store_ether p (request_ether mc) (store_arp (p + sizeof_ether) (reply_arp mc req) m')) p"
  shows "\<exists>a'. handleFrame h th (m, f, a) = Inr (m, f, a') \<and>
    (if station_known h th ip i a then a' = a else knows_address h th ip i mc a')"
proof -
  have e: "ethertype (load_ether m (buf_ptr f)) = htons 0x0806"
    using eth.load_shift [OF w, of 0] by (simp add: eth.load_store request_ether_def sizeof_ether_def)
  have arp: "load_arp m (buf_ptr f + sizeof_ether) = reply_arp mc req"
    using ar.load_shift [OF w, of sizeof_ether] by (simp add: header_disjoint ar.load_store) (simp add: sizeof_ether_def sizeof_arp_def)
  have op: "op (load_arp m (buf_ptr f + sizeof_ether)) = htons (ucast OP_REPLY)" unfolding arp by (simp add: reply_arp_def)
  obtain reg a' where l: "learn h th ip mc i a = Inr (reg, a')" using learn_total [OF assms(1)] by blast
  then have "handleFrame h th (m, f, a) = Inr (m, f, a')"
    unfolding handleReply_eq [OF e op] unfolding arp assms(3) using assms(2) by (simp add: reply_arp_def)
  then show ?thesis using learn_knows [OF assms(1) l] by blast
qed

text \<open>
  C11: the protocol works end to end. A request that one router prepares, carried over the wire to
  another router that owns the address and does not use the first one as a gateway, is turned into
  a reply there. Back at the first router that reply makes it know the address of the second one's
  port, if the second router is a registered next hop of it on this port or a station it has no
  entry for; a station that has an entry keeps it, whatever the reply says.
\<close>

theorem arp_round_trip:
  assumes "arp_inv hA thA a" "arp_inv hB thB b"
    and req: "prepareRequest hA a (htonl ip) i (m, f) = Inr (m1, f1)"
    and wire: "same_bytes 42 m2 (buf_ptr g) m1 (buf_ptr f1)"
    and port: "find_iface hB (arp_interfaces b) (ucast (iface g AND IFACE_ID)) = Some pb" "ip \<in> set (IPs (hB pb))"
    and station: "\<And>pa rt nh. find_iface hA (arp_interfaces a) (ucast i) = Some pa \<Longrightarrow> routingTable b = Some rt \<Longrightarrow>
      nh \<in> set (nextHopMapping (thB rt)) \<Longrightarrow> \<not> hop_at hB (hd (IPs (hA pa))) (iface g AND IFACE_ID) nh"
  shows "\<exists>m3 b'. handleFrame hB thB (m2, g, b) = Inr (m3, g, b') \<and>
    (\<forall>m4 f4. same_bytes 42 m4 (buf_ptr f4) m3 (buf_ptr g) \<and> iface f4 AND IFACE_ID = i \<longrightarrow>
      (\<exists>a'. handleFrame hA thA (m4, f4, a) = Inr (m4, f4, a') \<and>
        (if station_known hA thA ip i a then a' = a else knows_address hA thA ip i (if_mac (hB pb)) a')))"
proof -
  obtain pa ipA rest where pa: "find_iface hA (arp_interfaces a) (ucast i) = Some pa" "IPs (hA pa) = ipA # rest"
    and hdrs: "load_ether m1 (buf_ptr f) = request_ether (if_mac (hA pa))"
      "load_arp m1 (buf_ptr f + sizeof_ether) = request_arp (if_mac (hA pa)) (htonl ipA) (htonl ip)"
    and f1: "f1 = f\<lparr>frame_len := 42\<rparr>" by (rule prepareRequest_InrE [OF req])
  obtain rtB where rtB: "routingTable b = Some rtB" using assms(2) by (auto simp: arp_inv_def)
  let ?arp = "load_arp m2 (buf_ptr g + sizeof_ether)"
  have wire': "same_bytes 42 m2 (buf_ptr g) m1 (buf_ptr f)" using wire f1 by simp
  have e2: "ethertype (load_ether m2 (buf_ptr g)) = htons 0x0806"
    using eth.load_shift [OF wire', of 0] hdrs(1) by (simp add: request_ether_def sizeof_ether_def)
  have a2: "?arp = request_arp (if_mac (hA pa)) (htonl ipA) (htonl ip)"
    using ar.load_shift [OF wire', of sizeof_ether] hdrs(2) by (simp add: sizeof_ether_def sizeof_arp_def)
  have op2: "op ?arp = htons (ucast OP_REQUEST)" unfolding a2 by (simp add: request_arp_def)
  have st: "learn hB thB ipA mc (iface g AND IFACE_ID) b \<noteq> Inr (True, b')" for mc b'
    by (rule learn_cases [OF assms(2) rtB, of ipA "iface g AND IFACE_ID" mc])
      (use station [OF pa(1) rtB] pa(2) in \<open>auto simp: in_set_conv_nth\<close>)
  show ?thesis
  proof (rule handleRequest_cases [OF assms(2) rtB e2 op2 port(1)])
    fix b' assume h: "handleRequest hB thB (m2, g, b) = Inr (store_ether (buf_ptr g) (request_ether (if_mac (hB pb)))
              (store_arp (buf_ptr g + sizeof_ether) (reply_arp (if_mac (hB pb)) ?arp) m2), g, b')"
    let ?m3 = "store_ether (buf_ptr g) (request_ether (if_mac (hB pb)))
              (store_arp (buf_ptr g + sizeof_ether) (reply_arp (if_mac (hB pb)) ?arp) m2)"
    have "\<exists>a'. handleFrame hA thA (m4, f4, a) = Inr (m4, f4, a') \<and>
        (if station_known hA thA ip i a then a' = a else knows_address hA thA ip i (if_mac (hB pb)) a')"
      if w: "same_bytes 42 m4 (buf_ptr f4) ?m3 (buf_ptr g)" and i: "iface f4 AND IFACE_ID = i" for m4 f4
      using reply_teaches [OF assms(1) _ i w] unfolding a2 by (simp add: request_arp_def)
    then show ?thesis using h handleFrame_request [OF e2 op2] by auto
  next
    assume "ntohl (t_proto_addr ?arp) \<notin> set (IPs (hB pb))"
    then show ?thesis using port(2) unfolding a2 by (simp add: request_arp_def)
  next
    fix b' assume "learn hB thB (ntohl (s_proto_addr ?arp)) (s_hw_addr ?arp) (iface g AND IFACE_ID) b = Inr (True, b')"
    then show ?thesis using st unfolding a2 by (simp add: request_arp_def)
  qed
qed

theorem arp_round_trip_witness:
  "\<exists>m1 f1 m3 b' a'.
     prepareRequest (net_heap 1 1) gateway_arp (htonl 0x0A000102) 1 (\<lambda>_. 0, new_frame\<lparr>iface := 1\<rparr>) = Inr (m1, f1) \<and>
     handleFrame (net_heap 2 2) empty_heap (m1, f1, empty_arp) = Inr (m3, f1, b') \<and>
     handleFrame (net_heap 1 1) gateway_heap (m3, f1, gateway_arp) = Inr (m3, f1, a') \<and>
     nh_mac (hops_of a' (currentTable a') ! 0) = Mac 2 0 0 0 2 1"
proof -
  have port: "find_iface (net_heap r k) (arp_interfaces gateway_arp) 1 = Some 1"
    "find_iface (net_heap r k) (arp_interfaces empty_arp) 1 = Some 1" for r k
    by (simp_all add: find_iface_def gateway_arp_def empty_arp_def new_ARPTable_def net_heap_def)
  obtain m1 f1 where q: "prepareRequest (net_heap 1 1) gateway_arp (htonl 0x0A000102) 1 (\<lambda>_. 0, new_frame\<lparr>iface := 1\<rparr>) = Inr (m1, f1)"
    and f1: "f1 = new_frame\<lparr>iface := 1, frame_len := 42\<rparr>"
    using prepareRequest_eq [of "net_heap 1 1" gateway_arp 1 1] port by (simp add: net_heap_def)
  have refl: "same_bytes n x p x p" for n x p by (simp add: same_bytes_def)
  have i: "iface f1 AND IFACE_ID = 1" by (simp add: f1 IFACE_ID_def)
  have "\<exists>m3 b'. handleFrame (net_heap 2 2) empty_heap (m1, f1, empty_arp) = Inr (m3, f1, b') \<and>
    (\<forall>m4 f4. same_bytes 42 m4 (buf_ptr f4) m3 (buf_ptr f1) \<and> iface f4 AND IFACE_ID = 1 \<longrightarrow>
      (\<exists>a'. handleFrame (net_heap 1 1) gateway_heap (m4, f4, gateway_arp) = Inr (m4, f4, a') \<and>
         (if station_known (net_heap 1 1) gateway_heap 0x0A000102 1 gateway_arp then a' = gateway_arp
          else knows_address (net_heap 1 1) gateway_heap 0x0A000102 1 (if_mac (net_heap 2 2 1)) a')))"
    by (rule arp_round_trip [OF sample_inv q refl])
      (auto simp: i port net_heap_def empty_heap_def)
  then obtain m3 b' a' where r: "handleFrame (net_heap 2 2) empty_heap (m1, f1, empty_arp) = Inr (m3, f1, b')"
    "handleFrame (net_heap 1 1) gateway_heap (m3, f1, gateway_arp) = Inr (m3, f1, a')"
    and l: "if station_known (net_heap 1 1) gateway_heap 0x0A000102 1 gateway_arp then a' = gateway_arp
          else knows_address (net_heap 1 1) gateway_heap 0x0A000102 1 (if_mac (net_heap 2 2 1)) a'"
    using refl i by blast
  have "directlyConnected gateway_arp 0x0A000102 = None" by (simp add: gateway_arp_def new_ARPTable_def)
  with l have l': "knows_address (net_heap 1 1) gateway_heap 0x0A000102 1 (if_mac (net_heap 2 2 1)) a'"
    by (simp add: station_known_def)
  have "nh_mac (hops_of a' (currentTable a') ! 0) = Mac 2 0 0 0 2 1"
    using l' by (auto simp: knows_address_def gateway_arp_def gateway_heap_def hop_at_def net_heap_def split: if_splits)
  then show ?thesis using q r by blast
qed

text \<open>
  C39: an address that a gateway announces after its first one reaches the current table but not the
  mapping that outlives it: the next table that is built shows the old address again.
\<close>

theorem gateway_address_stale:
  assumes "arp_inv h th a" "routingTable a = Some rt" "mapping a ip = Some old"
    and "i < length (nextHopMapping (th rt))" "hop_at h ip (iface f AND IFACE_ID) (nextHopMapping (th rt) ! i)"
    and "distinct (map nh_ip (nextHopMapping (th rt)))"
    and "ethertype (load_ether m (buf_ptr f)) = htons 0x0806"
    and "op (load_arp m (buf_ptr f + sizeof_ether)) = htons (ucast OP_REPLY)"
    and "s_proto_addr (load_arp m (buf_ptr f + sizeof_ether)) = htonl ip"
  shows "\<exists>a1 a2. handleFrame h th (m, f, a) = Inr (m, f, a1) \<and> createCurrentTable h th rt a1 = Inr a2 \<and>
    nh_mac (hops_of a1 (currentTable a1) ! i) = s_hw_addr (load_arp m (buf_ptr f + sizeof_ether)) \<and>
    nh_mac (hops_of a2 (currentTable a2) ! i) = nh_mac old"
proof -
  let ?nhs = "nextHopMapping (th rt)" and ?mc = "s_hw_addr (load_arp m (buf_ptr f + sizeof_ether))"
  have r: "hops_ready h ?nhs" and c: "currentTable a < length (tables a)"
    using assms(1,2) by (auto simp: arp_inv_def)
  have ip: "nh_ip (?nhs ! i) = ip" using assms(5) by (simp add: hop_at_def)
  show ?thesis
  proof (rule learn_cases [OF assms(1,2), of ip "iface f AND IFACE_ID" ?mc])
    fix k assume k: "k < length ?nhs" "hop_at h ip (iface f AND IFACE_ID) (?nhs ! k)" "k < length (hops_of a (currentTable a))"
      and l: "learn h th ip ?mc (iface f AND IFACE_ID) a = Inr (True, a\<lparr>mapping := map_insert ip \<lparr>nh_mac = ?mc, netmapInterface = iface f AND IFACE_ID\<rparr> (mapping a),
        tables := (tables a)[currentTable a := (hops_of a (currentTable a))[k := (hops_of a (currentTable a) ! k)\<lparr>nh_mac := ?mc\<rparr>]]\<rparr>)"
    have "k = i"
      using k(1,2) ip assms(4,6) by (simp add: hop_at_def distinct_conv_nth) metis
    then show ?thesis using l k c ip assms(3,4,7,8,9)
      by (simp add: handleReply_eq createCurrentTable_ready [of h th rt, OF r] hops_of_def hop_entry_def map_insert_def nth_append)
  next
    assume "\<And>nh. nh \<in> set ?nhs \<Longrightarrow> \<not> hop_at h ip (iface f AND IFACE_ID) nh"
    then show ?thesis using assms(4,5) nth_mem by blast
  qed
qed

definition changed_reply :: mem where
  "changed_reply = store_arp sizeof_ether (reply_arp (Mac 2 0 0 0 3 1) (request_arp zero_mac 0 (htonl 0x0A000102)))
     (store_ether 0 (request_ether zero_mac) (\<lambda>_. 0))"

lemma changed_reply_fields:
  "ethertype (load_ether changed_reply 0) = htons 0x0806"
  "load_arp changed_reply sizeof_ether = reply_arp (Mac 2 0 0 0 3 1) (request_arp zero_mac 0 (htonl 0x0A000102))"
  using header_disjoint(1) [of 0]
  by (simp_all add: changed_reply_def ar.load_store eth.load_store request_ether_def)

theorem gateway_address_stale_witness:
  "\<exists>a a1 a2. mapping a 0x0A000102 = Some \<lparr>nh_mac = Mac 2 0 0 0 2 1, netmapInterface = 1\<rparr> \<and>
     handleFrame (net_heap 1 1) gateway_heap (changed_reply, new_frame\<lparr>iface := 1\<rparr>, a) = Inr (changed_reply, new_frame\<lparr>iface := 1\<rparr>, a1) \<and>
     createCurrentTable (net_heap 1 1) gateway_heap 0 a1 = Inr a2 \<and>
     nh_mac (hops_of a1 (currentTable a1) ! 0) = Mac 2 0 0 0 3 1 \<and>
     nh_mac (hops_of a2 (currentTable a2) ! 0) = Mac 2 0 0 0 2 1"
proof -
  let ?old = "\<lparr>nh_mac = Mac 2 0 0 0 2 1, netmapInterface = 1\<rparr> :: nextHop"
  let ?a = "gateway_arp\<lparr>mapping := [0x0A000102 \<mapsto> ?old]\<rparr>" and ?f = "new_frame\<lparr>iface := 1\<rparr>"
  have inv: "arp_inv (net_heap 1 1) gateway_heap ?a"
    using sample_hops [of 0] unfolding arp_inv_def
    by (simp add: gateway_arp_def new_ARPTable_def hops_of_def hop_port_def) (simp add: gateway_heap_def net_heap_def)
  have hop: "hop_at (net_heap 1 1) 0x0A000102 (iface ?f AND IFACE_ID) (nextHopMapping (gateway_heap 0) ! 0)"
    by (simp add: hop_at_def gateway_heap_def net_heap_def IFACE_ID_def)
  have f: "buf_ptr ?f = 0" by (simp add: new_frame_def)
  show ?thesis
    using gateway_address_stale [where ip = "0x0A000102" and old = ?old and rt = 0 and i = 0 and f = ?f and m = changed_reply, OF inv] hop
    by - (rule exI [of _ ?a], auto simp: f changed_reply_fields reply_arp_def request_arp_def gateway_arp_def gateway_heap_def)
qed

end
