(* ===== verification/Start.thy ===== *)
theory Start
  imports Forwarding ArpProtocol
begin

text \<open>
  The start of the router as a whole: from the command line and the answers of the kernel to the first round of the
  manager. \<^verbatim>\<open>main\<close> gets there, and the tables of the manager and of all workers agree when it does.
\<close>

section \<open>The tables are built\<close>

lemma next_hop_routes: "next_hop ` routes es = fst ` rib_hops es"
  by (force simp: routes_def rib_hops_def hops_def)

text \<open>From the routes of the kernel to the numbered table, with the interfaces before and after binding.\<close>

lemma tables_built:
  assumes rib: "wf_rib (entries t0)" "agg_clash_free (rev [1..<31]) (entries t0)" "nextHopMapping t0 = []"
    and bounds: "agg_in_bounds (rev [1..<31]) (entries t0)"
    and ifs: "\<And>r. r \<in> routes (entries t0) \<Longrightarrow> \<exists>p \<in> P. interface r = Some p"
    and card: "card (next_hop ` routes (entries t0)) \<le> 32768"
  obtains t1 es2 where "update (\<lambda>_. Inr t0) h t = Inr t1" "buildNextHopList h' t1 = Inr (t1\<lparr>entries := es2\<rparr>)"
    "wf_rib es2" "\<exists>s. print_table h' es2 = Inr s" "length (nextHopMapping t1) \<le> 32768"
    "nh_table_ok (of_nat (length (nextHopMapping t1)), nextHopMapping t1)"
    "\<And>nh. nh \<in> set (nextHopMapping t1) \<Longrightarrow> \<exists>p \<in> P. nh_interface nh = Some p"
proof -
  obtain es where es: "aggregate (entries t0) = Inr es" "wf_rib es"
    using aggregate_returns [OF rib(1,2) bounds] by blast
  let ?t = "t0\<lparr>entries := es\<rparr>"
  have sub: "rib_hops es \<subseteq> rib_hops (entries t0)" by (rule aggregate_hops [OF es(1)])
  have hop: "\<exists>p \<in> P. i = Some p" if "(g, i) \<in> rib_hops es" for g i
  proof -
    have "(g, i) \<in> rib_hops (entries t0)" using that sub by blast
    then obtain r where "r \<in> routes (entries t0)" "interface r = i" by (auto simp: rib_hops_def hops_def routes_def)
    then show ?thesis using ifs by blast
  qed
  have face: "\<exists>p \<in> P. interface r = Some p" if "r \<in> routes es" for r
    using that hop [of "next_hop r" "interface r"] by (auto simp: rib_hops_def hops_def routes_def)
  have "finite (fst ` rib_hops (entries t0))" by (simp add: rib_hops_def hops_def)
  then have "card (next_hop ` routes es) \<le> 32768"
    using card_mono [OF _ image_mono [OF sub, of fst]] card unfolding next_hop_routes by fastforce
  then obtain t1 where t1: "buildNextHopList h ?t = Inr t1" "length (nextHopMapping t1) \<le> 32768"
    using buildNextHopList_total [of ?t h] es(2) face rib(3) by (fastforce simp: wf_rib_def)
  have nm: "nextHopMapping ?t = []" using rib(3) by simp
  have ok: "nh_table_ok (of_nat (length (nextHopMapping t1)), nextHopMapping t1)"
    and n1: "list_all2 (list_all2 (numbered h (nextHopMapping t1))) es (entries t1)"
    using buildNextHopList_numbered [OF t1(1) nm] by auto
  have nhs: "\<exists>p \<in> P. nh_interface nh = Some p" if "nh \<in> set (nextHopMapping t1)" for nh
    using buildNextHopList_from [OF t1(1) nm] that hop by fastforce
  have "interface r \<noteq> None" if "r \<in> routes (entries t1)" for r
    using list_all2_routes(1) [OF n1 that] face numbered_fields(4) by fastforce
  moreover have len: "length (entries t1) = 33" using list_all2_lengthD [OF n1] es(2) by (simp add: wf_rib_def)
  ultimately obtain es2 where b2: "buildNextHopList h' t1 = Inr (t1\<lparr>entries := es2\<rparr>)"
    and n2: "list_all2 (list_all2 (renumbered h')) (entries t1) es2" and s: "\<exists>s. print_table h' es2 = Inr s"
    using numbering_again_total [OF ok t1(2), of h'] nhs list_all2_routes(1) [OF n1] by fastforce
  have s1: "list_all2 (list_all2 same_route) es (entries t1)"
    using n1 by (rule list_all2_mono) (auto elim!: list_all2_mono numbered_same)
  have s2: "list_all2 (list_all2 same_route) (entries t1) es2"
    using n2 by (rule list_all2_mono) (auto elim!: list_all2_mono renumbered_same)
  have wf2: "wf_rib es2" using wf_rib_same [OF s2 wf_rib_same [OF s1 es(2)]] .
  have "update (\<lambda>_. Inr t0) h t = Inr t1" using es(1) t1(1) by (simp add: update_def)
  from that [OF this b2 wf2 s t1(2) ok nhs] show thesis .
qed

section \<open>The ports are bound\<close>

lemma bind_ports_range:
  "netmapIndex (bind_ports ifs xs j h p) = netmapIndex (h p) \<or> (\<exists>i < length xs. netmapIndex (bind_ports ifs xs j h p) = of_nat (j + i))"
proof (induction xs arbitrary: j h)
  case (Cons x xs)
  have shift: "\<exists>i < length (x # xs). a = of_nat (j + i)" if "\<exists>i < length xs. a = of_nat (Suc j + i)" for a :: u32
    using that by (metis Suc_mono add_Suc_shift length_Cons)
  show ?case
  proof (cases "by_name h ifs x")
    case None
    then show ?thesis using Cons.IH [of "Suc j" h] shift by auto
  next
    case (Some q)
    have "netmapIndex (set_index q j h p) = netmapIndex (h p) \<or> netmapIndex (set_index q j h p) = of_nat (j + 0)"
      by (cases "p = q") auto
    then show ?thesis using Cons.IH [of "Suc j" "set_index q j h"] shift Some by (metis bind_ports.simps(2) length_Cons option.simps(5) zero_less_Suc)
  qed
qed simp

text \<open>The next hops are ready for the ARP table: none of them is on a port with index 65535.\<close>

lemma hops_ready_bound:
  assumes m: "nh_table_ok (k, m)" "length m \<le> 32768" "\<And>nh. nh \<in> set m \<Longrightarrow> \<exists>p \<in> set ifs. nh_interface nh = Some p"
    and unset: "\<And>p. p \<in> set ifs \<Longrightarrow> netmapIndex (h p) = uint32_t_max" and len: "length names < 65535"
  shows "hops_ready (bind_ports ifs names 0 h) m"
proof -
  have port: "netmapIndex (bind_ports ifs names 0 h p) \<noteq> ucast uint16_t_max" if "p \<in> set ifs" for p
  proof -
    have "uint32_t_max \<noteq> ucast uint16_t_max" by (simp add: uint32_t_max_def uint16_t_max_def)
    moreover have "(of_nat i :: u32) \<noteq> ucast uint16_t_max" if "i < length names" for i
      using of_nat_u32_eq [of i 65535] that len by (simp add: uint16_t_max_def)
    ultimately show ?thesis using bind_ports_range [of ifs names 0 h p] unset [OF that] by auto
  qed
  have "hop_ready (bind_ports ifs names 0 h) i (m ! i)" if i: "i < length m" for i
  proof -
    have "unat (nh_idx (m ! i)) = i" using m(1,2) i by (simp add: nh_table_ok_def unsigned_of_nat take_bit_nat_eq_self)
    moreover obtain p where "p \<in> set ifs" "nh_interface (m ! i) = Some p" using m(3) [OF nth_mem [OF i]] by blast
    ultimately show ?thesis using port by (simp add: hop_ready_def)
  qed
  then show ?thesis by (simp add: hops_ready_def list_all2_conv_all_nth)
qed

section \<open>The threads get their tables\<close>

text \<open>
  The manager and every worker use the same table: the trie is that of the numbered routes, and the current ARP table has
  an entry for each of their next hops.
\<close>

definition tables_agree :: "(u32 \<Rightarrow> nat \<Rightarrow> u32) \<Rightarrow> ('p, 'q, 'r, 'n) Router \<Rightarrow> routing_table \<Rightarrow> trie \<Rightarrow> bool" where
  "tables_agree ub s t lpm \<longleftrightarrow> man_table s = Some t \<and> curLPM s = Some lpm \<and> wf_rib (entries t) \<and> buildTrie ub (entries t) = Inr lpm \<and>
     arp_inv (iface_heap s) (\<lambda>_. t) (arpTable (man s)) \<and> routingTable (arpTable (man s)) = Some 0 \<and>
     length (workers s) = unat (numWorkers (man s)) \<and>
     (\<forall>w \<in> set (workers s). cur_lpm w = lpm \<and> cur_arp_table w = getCurrentTable (arpTable (man s)) \<and> w_interfaces w = man_interfaces s)"

lemma createCurrentTable_inv:
  assumes "hops_ready h (nextHopMapping (th rt))"
  shows "\<exists>a'. createCurrentTable h th rt a = Inr a' \<and> arp_inv h th a' \<and> routingTable a' = Some rt"
  unfolding createCurrentTable_ready [of h th rt a, OF assms] using assms
  by (auto simp: hops_of_def hop_entry_def hop_port_def arp_inv_def list_all2_conv_all_nth split: option.splits)

lemma init_start_ok:
  fixes names h ifs nw and newIn :: "nat \<Rightarrow> 'p" and newOut :: "nat \<Rightarrow> 'q" and os :: "('k, 'n, 'r) netmap_os"
  defines "h' \<equiv> bind_ports ifs names 0 h"
  assumes root: "geteuid os k = 0" and os: "os_ok os nm nw fuel bufs" "nw < 65536"
    and names: "\<And>x. x \<in> set names \<Longrightarrow> by_name h ifs x \<noteq> None" and lt: "lt h ifs = Some (Inr t1)"
    and t2: "buildNextHopList h' t1 = Inr t2" "print_table h' (entries t2) = Inr txt" "buildTrie ub (entries t2) = Inr lpm"
      "hops_ready h' (nextHopMapping t2)" "wf_rib (entries t2)"
  shows "\<exists>k' s1 s. initNetmap fuel nm os ub newIn newOut lt (k, new_Manager nw names h ifs) = Some (Inr (k', s1)) \<and>
    startWorkerThreads s1 = Inr s \<and> tables_agree ub s t2 lpm \<and> iface_heap s = h' \<and> man_interfaces s = ifs"
proof -
  let ?s = "(new_Manager nw names h ifs :: ('p, 'q, 'r, 'n) Router)\<lparr>man_table := Some t1, nmreq_root := root_request os nw\<rparr>"
  have s: "numWorkers (man ?s) = nw" "first_ring (man ?s)" "iface_heap ?s = h" "man_interfaces ?s = ifs" "inRings (man ?s) = []"
    "outRings (man ?s) = []" "workers ?s = []" by (simp_all add: new_Manager_def first_ring_def)
  obtain k' s1 j where b: "foldO (init_iface fuel nm os) names (k, 0, ?s) = Some (Inr (k', j, s1))"
    "iface_heap s1 = h'" "untouched ?s s1"
    using init_all_ok [OF os s(1,2), of names k 0] names unfolding s(3,4) h'_def by blast
  then have u: "man_interfaces s1 = ifs" "numWorkers (man s1) = nw" "inRings (man s1) = []" "outRings (man s1) = []" "workers s1 = []"
    using s by (simp_all add: untouched_def)
  obtain a where a: "createCurrentTable h' (\<lambda>_. t2) 0 (arpTable (man s1)) = Inr a" "arp_inv h' (\<lambda>_. t2) a" "routingTable a = Some 0"
    using createCurrentTable_inv [of h' "\<lambda>_. t2" 0 "arpTable (man s1)"] t2(4) by blast
  let ?s2 = "s1\<lparr>man_table := Some t2, curLPM := Some lpm, man := (man s1)\<lparr>inRings := replicate (unat nw) (newIn RING_SIZE),
      outRings := replicate (unat nw) (newOut RING_SIZE), numInterfaces := of_nat (length (netmapIfs s1))\<rparr>\<rparr>"
  have init: "initNetmap fuel nm os ub newIn newOut lt (k, new_Manager nw names h ifs) = Some (Inr (k', ?s2))"
    using root lt b t2 u by (simp add: initNetmap_def new_Manager_def Let_def)
  let ?s3 = "?s2\<lparr>man := (man ?s2)\<lparr>arpTable := a\<rparr>, workers := map (\<lambda>i. new_Worker lpm (getCurrentTable a) ifs (of_nat i)) [0..<unat nw]\<rparr>"
  have start: "startWorkerThreads ?s2 = Inr ?s3"
    using a(1) b(2) u by (simp add: startWorkerThreads_def deref_def word_gt_0 unat_eq_0)
  have "tables_agree ub ?s3 t2 lpm" using a(2,3) b(2) u t2(3,5) by (auto simp: tables_agree_def new_Worker_def)
  with init start b(2) u(1) show ?thesis by (intro exI [of _ k'] exI [of _ ?s2] exI [of _ ?s3]) simp
qed

section \<open>The whole start\<close>

text \<open>The routing table object for the interfaces of the manager.\<close>

lemma LinuxTable_built:
  assumes "opens sk" "cb_run_ok sk items" "answers sk items dumps fuel" "attrs_ok api" "unbound h ifs" "ifs \<noteq> []"
    and "\<forall>m \<in> set (dumps RTM_GETROUTE). unicast api m \<longrightarrow> kernel_iface api h ifs m \<noteq> None \<and> kernel_len api m \<le> 32"
    and "t0 = \<lparr>entries = kernel_buckets api h ifs (dumps RTM_GETROUTE), nextHopMapping = [], rt_interfaces = ifs\<rparr>"
    and "update (\<lambda>_. Inr t0) h \<lparr>entries = [], nextHopMapping = [], rt_interfaces = ifs\<rparr> = Inr t1"
  shows "\<exists>w'. LinuxTable fuel api sk h ifs w = Some (Inr (t1, w'))"
proof -
  let ?t = "\<lparr>entries = [], nextHopMapping = [], rt_interfaces = ifs\<rparr>"
  obtain w' where "updateInfo fuel api sk h w ?t = Some (Inr (t0, w'))"
    using updateInfo_ok [OF assms(1-4), of h ?t w] assms(5-8) by (auto simp del: upt_rec_numeral)
  then show ?thesis using assms(9) by (auto simp: LinuxTable_def setInterfaces_def)
qed

lemma kernel_routes_interface:
  assumes "\<forall>m \<in> set ms. unicast api m \<longrightarrow> kernel_iface api h ifs m \<noteq> None" "r \<in> routes (kernel_buckets api h ifs ms)"
  shows "\<exists>p \<in> set ifs. interface r = Some p"
proof -
  obtain m where m: "m \<in> set ms" "unicast api m" "r = kernel_route api h ifs m"
    using assms(2) by (auto simp: routes_def simp del: upt_rec_numeral)
  then obtain p where "kernel_iface api h ifs m = Some p" using assms(1) by blast
  then show ?thesis using m(3) by (auto simp: kernel_route_def kernel_iface_def bind_eq_Some_conv dest: find_oif_Some)
qed

text \<open>
  C8: The router starts. Let the command line name \<open>nw\<close> workers and interfaces the kernel has reported, none of them bound yet,
  let every unicast route of the kernel be over one of the reported interfaces, let the routes form a well-formed table that
  aggregates without a clash and without a level of exactly two routes that are merged, with one interface per gateway, and let netmap grant the rings. Then \<^verbatim>\<open>main\<close> reaches
  the loop of the manager: the \<open>i\<close>-th interface of the command line is port \<open>i\<close>, the manager and all its workers
  use the trie of the same numbered table and an ARP table with an entry for each of its next hops, and for every address the
  kernel's table sends to a gateway the trie gives the index of that gateway and of the kernel's interface.
\<close>

theorem main_starts_router:
  fixes api :: "('m, 'a) mnl_api" and newIn :: "nat \<Rightarrow> 'p" and newOut :: "nat \<Rightarrow> 'q" and os :: "('k, 'n, 'r) netmap_os"
  assumes "main_args ubi argv = Inr (nw, names)" "fillNetLink before fuel api sk h0 p0 w0 = Some (Inr (h, ifs, w))"
    and "opens sk'" "cb_run_ok sk' items" "answers sk' items dumps fuel" "attrs_ok api"
    and "ifs \<noteq> []" "\<forall>p \<in> set ifs. netmapIndex (h p) = uint32_t_max \<and> netlinkIndex (h p) \<noteq> uint32_t_max"
    and "\<forall>m \<in> set (dumps RTM_GETROUTE). unicast api m \<longrightarrow> kernel_iface api h ifs m \<noteq> None \<and> kernel_len api m \<le> 32"
    and "es = kernel_buckets api h ifs (dumps RTM_GETROUTE)" "wf_rib es" "agg_clash_free (rev [1..<31]) es \<and> agg_in_bounds (rev [1..<31]) es"
      "card (next_hop ` routes es) \<le> 32768" "gateways_ok es"
    and "geteuid os k = 0" "os_ok os nm nw fuel bufs" "nw < 65536"
    and "distinct names" "length names < 65535" "\<forall>x \<in> set names. by_name h ifs x \<noteq> None"
  shows "\<exists>(s :: ('p, 'q, 'r, 'n) Router) t lpm.
    main ubi before fuel api sk sk' nm os ub newIn newOut body envs h0 p0 w0 k argv =
      manager_loop (body (iface_heap s) (\<lambda>_. t)) envs s \<and> man_state s = M_RUN \<and> tables_agree ub s t lpm \<and>
    (\<forall>i < length names. find_iface (iface_heap s) (man_interfaces s) (of_nat i) = by_name h ifs (names ! i)) \<and>
    (\<forall>addr g p. forwards (routes es) addr (g, Some p) \<and> g \<noteq> 0 \<longrightarrow>
      (\<exists>i < length (nextHopMapping t). trie_route ub lpm addr = of_nat i \<and>
        nh_ip (nextHopMapping t ! i) = g \<and> nh_interface (nextHopMapping t ! i) = Some p))"
proof -
  let ?kt = "\<lparr>entries = es, nextHopMapping = [], rt_interfaces = ifs\<rparr>" and ?t = "\<lparr>entries = [], nextHopMapping = [], rt_interfaces = ifs\<rparr>"
  let ?h = "bind_ports ifs names 0 h"
  have face: "\<exists>p \<in> set ifs. interface r = Some p" if "r \<in> routes (entries ?kt)" for r
    using kernel_routes_interface [of "dumps RTM_GETROUTE" api h ifs r] assms(9,10) that by simp
  obtain t1 es2 where t1: "update (\<lambda>_. Inr ?kt) h ?t = Inr t1" and b2: "buildNextHopList ?h t1 = Inr (t1\<lparr>entries := es2\<rparr>)"
    and wf2: "wf_rib es2" and pr: "\<exists>txt. print_table ?h es2 = Inr txt" and len: "length (nextHopMapping t1) \<le> 32768"
    and ok: "nh_table_ok (of_nat (length (nextHopMapping t1)), nextHopMapping t1)"
    and nhs: "\<And>nh. nh \<in> set (nextHopMapping t1) \<Longrightarrow> \<exists>p \<in> set ifs. nh_interface nh = Some p"
    by (rule tables_built [of ?kt "set ifs" h ?t ?h]) (use assms(11-13) face in simp_all)
  let ?t2 = "t1\<lparr>entries := es2\<rparr>"
  have unb: "unbound h ifs" using assms(8) by (auto simp: unbound_def)
  obtain w' where lt: "LinuxTable fuel api sk' h ifs w = Some (Inr (t1, w'))"
    using LinuxTable_built [OF assms(3-6) unb assms(7,9) _ t1] assms(10) by blast
  obtain lpm where lpm: "buildTrie ub es2 = Inr lpm" using buildTrie_eq [of es2 ub] wf2 by (simp add: wf_rib_def)
  have ready: "hops_ready ?h (nextHopMapping t1)" using hops_ready_bound [OF ok len nhs] assms(8,19) by blast
  let ?lt = "\<lambda>h ifs. bindO (LinuxTable fuel api sk' h ifs w) (\<lambda>(t, _). Some (Inr t))"
  have names: "\<And>x. x \<in> set names \<Longrightarrow> by_name h ifs x \<noteq> None" using assms(20) by blast
  obtain str where str: "print_table ?h es2 = Inr str" using pr by blast
  have lt': "?lt h ifs = Some (Inr t1)" and t2: "print_table ?h (entries ?t2) = Inr str" "buildTrie ub (entries ?t2) = Inr lpm"
    "hops_ready ?h (nextHopMapping ?t2)" "wf_rib (entries ?t2)"
    using lt str lpm ready wf2 by simp_all
  obtain k' s1 and s :: "('p, 'q, 'r, 'n) Router" where
    s: "initNetmap fuel nm os ub newIn newOut ?lt (k, new_Manager nw names h ifs) = Some (Inr (k', s1))"
    "startWorkerThreads s1 = Inr s" "tables_agree ub s ?t2 lpm" "iface_heap s = ?h" "man_interfaces s = ifs"
    using init_start_ok [where lt = ?lt and newIn = newIn and newOut = newOut, OF assms(15-17) names lt' b2 t2] by blast
  let ?s = "s\<lparr>man_state := M_RUN\<rparr>"
  have "man_table s = Some ?t2" using s(3) by (simp add: tables_agree_def)
  then have "main ubi before fuel api sk sk' nm os ub newIn newOut body envs h0 p0 w0 k argv =
      manager_loop (body (iface_heap ?s) (\<lambda>_. ?t2)) envs ?s"
    using assms(1,2) s(1,2) by (simp add: main_def manager_run_def deref_def)
  moreover have "tables_agree ub ?s ?t2 lpm" using s(3) by (simp add: tables_agree_def)
  moreover have "find_iface ?h ifs (of_nat i) = by_name h ifs (names ! i)" if i: "i < length names" for i
  proof -
    obtain p where "by_name h ifs (names ! i) = Some p" using names [OF nth_mem [OF i]] by blast
    then show ?thesis using bind_ports_find [OF assms(18) _ i, of h ifs p] assms(8,19) by simp
  qed
  moreover have "\<exists>i < length (nextHopMapping ?t2). trie_route ub lpm addr = of_nat i \<and>
        nh_ip (nextHopMapping ?t2 ! i) = g \<and> nh_interface (nextHopMapping ?t2 ! i) = Some p"
    if "forwards (routes es) addr (g, Some p)" "g \<noteq> 0" for addr g p
    using tables_resolve [OF _ _ _ _ t1 b2, of addr g p ub lpm] that assms(11,12,14) lpm by auto
  ultimately show ?thesis using s(4,5) by (intro exI [of _ ?s] exI [of _ ?t2] exI [of _ lpm]) simp
qed

section \<open>A concrete start\<close>

text \<open>A machine with one interface and a default route.\<close>

definition boot_dumps :: "u16 \<Rightarrow> nl_msg list" where
  "boot_dumps ty =
     (if ty = RTM_GETROUTE then [\<lparr>m_index = 0, m_type = 1, m_dst_len = 0, m_attrs = [Attr 4 [2, 0, 0, 0], Attr 5 [10, 0, 0, 254]]\<rparr>]
      else test_dumps ty)"

definition boot_iface :: Interface where
  "boot_iface = \<lparr>if_mac = Mac 2 0 0 0 0 1, netlinkIndex = 2, netmapIndex = uint32_t_max, IPs = [0x0A000001], if_name = ''e''\<rparr>"

definition boot_rib :: rib where
  "boot_rib = [[test_route 0 0x0A0000FE 0 0]] @ replicate 32 []"

lemma boot_interfaces:
  "fillNetLink (<) 3 test_mnl (test_socket boot_dumps) (\<lambda>_. new_Interface) 0 [] = Some (Inr ((\<lambda>_. new_Interface)(0 := boot_iface), [0], []))"
proof -
  have ip: "htonl (rd32 (attr_mem (Attr 1 [10, 0, 0, 1])) 0) = 0x0A000001" by code_simp
  have mac: "rd_mac (attr_mem (Attr 1 [2, 0, 0, 0, 0, 1])) 0 = Mac 2 0 0 0 0 1" by code_simp
  have str: "attr_str (Attr 3 [101, 0]) = ''e''" by code_simp
  have fuel: "recv_loop 3 = recv_loop (Suc (Suc (Suc 0)))" by (simp add: numeral_3_eq_3)
  have dumps: "boot_dumps RTM_GETADDR = [\<lparr>m_index = 2, m_type = 0, m_dst_len = 0, m_attrs = [Attr 1 [10, 0, 0, 1], Attr 3 [101, 0]]\<rparr>]"
    "boot_dumps RTM_GETLINK = [\<lparr>m_index = 2, m_type = 0, m_dst_len = 0, m_attrs = [Attr 1 [2, 0, 0, 0, 0, 1]]\<rparr>]"
    by code_simp+
  show ?thesis
    using ip mac str
    by (simp add: fillNetLink_def getAllInterfaces_def nl_query_def fuel test_socket_def dumps data_cb_ip_def data_cb_link_def
        find_or_new_def test_mnl_def ifa_defs mnl_cb_defs new_Interface_def boot_iface_def Let_def del: attr_str.simps)
qed

lemma boot_routes: "kernel_buckets test_mnl ((\<lambda>_. new_Interface)(0 := boot_iface)) [0] (boot_dumps RTM_GETROUTE) = boot_rib"
  by code_simp

lemma boot_rib_facts: "wf_rib boot_rib" "agg_clash_free (rev [1..<31]) boot_rib \<and> agg_in_bounds (rev [1..<31]) boot_rib"
  "main_args (\<lambda>_. 0) [''ariadne'', ''e''] = Inr (1, [''e''])"
  by code_simp+

lemma boot_route: "routes boot_rib = {test_route 0 0x0A0000FE 0 0}"
  by (simp add: routes_def boot_rib_def)

lemma boot_gateways: "gateways_ok boot_rib" "card (next_hop ` routes boot_rib) \<le> 32768"
proof -
  show "gateways_ok boot_rib" by (simp add: gateways_ok_def rib_hops_def hops_def boot_rib_def)
  show "card (next_hop ` routes boot_rib) \<le> 32768" unfolding boot_route by simp
qed

lemma boot_forwards: "forwards (routes boot_rib) addr (0x0A0000FE, Some 0)"
  unfolding boot_route by (simp add: forwards_def is_best_def test_route_def covers_def plen_def)

lemma boot_kernel:
  "\<forall>m \<in> set (boot_dumps RTM_GETROUTE). unicast test_mnl m \<longrightarrow>
     kernel_iface test_mnl ((\<lambda>_. new_Interface)(0 := boot_iface)) [0] m \<noteq> None \<and> kernel_len test_mnl m \<le> 32"
  by code_simp

abbreviation boot :: "(unit, unit, unit, unit) Router result option" where
  "boot \<equiv> main (\<lambda>_. 0) (<) 3 test_mnl (test_socket boot_dumps) (test_socket boot_dumps) sample_nm sample_os (\<lambda>_ _. 0)
     (\<lambda>_. ()) (\<lambda>_. ()) (\<lambda>_ _ m. Some (Inr m)) [manager_stop, \<lambda>s. s] (\<lambda>_. new_Interface) 0 [] () [''ariadne'', ''e'']"

theorem main_starts_router_witness:
  "\<exists>s t lpm. boot = Some (Inr (manager_stop s)) \<and> tables_agree (\<lambda>_ _. 0) s t lpm \<and> find_iface (iface_heap s) (man_interfaces s) 0 = Some 0 \<and>
     (\<exists>i < length (nextHopMapping t). trie_route (\<lambda>_ _. 0) lpm 0x08080808 = of_nat i \<and> nh_ip (nextHopMapping t ! i) = 0x0A0000FE)"
proof -
  let ?h = "(\<lambda>_. new_Interface)(0 := boot_iface)"
  have ifs: "[0 :: iptr] \<noteq> []" "\<forall>p \<in> set [0]. netmapIndex (?h p) = uint32_t_max \<and> netlinkIndex (?h p) \<noteq> uint32_t_max"
    and nw: "geteuid sample_os () = 0" "(1 :: u32) < 65536"
    and names: "distinct [''e'']" "length [''e''] < 65535" "\<forall>x \<in> set [''e'']. by_name ?h [0] x \<noteq> None"
    by (simp_all add: boot_iface_def uint32_t_max_def sample_os_def)
  obtain s :: "(unit, unit, unit, unit) Router" and t lpm where
    main: "boot = manager_loop (\<lambda>m. Some (Inr m)) [manager_stop, \<lambda>s. s] s" and s: "man_state s = M_RUN" "tables_agree (\<lambda>_ _. 0) s t lpm"
    and ports: "\<forall>i < length [''e'']. find_iface (iface_heap s) (man_interfaces s) (of_nat i) = by_name ?h [0] ([''e''] ! i)"
    and fw: "\<forall>addr g p. forwards (routes boot_rib) addr (g, Some p) \<and> g \<noteq> 0 \<longrightarrow> (\<exists>i < length (nextHopMapping t).
      trie_route (\<lambda>_ _. 0) lpm addr = of_nat i \<and> nh_ip (nextHopMapping t ! i) = g \<and> nh_interface (nextHopMapping t ! i) = Some p)"
    using main_starts_router [where dumps = boot_dumps and items = "\<lambda>b. b" and h = ?h and sk' = "test_socket boot_dumps" and es = boot_rib
        and body = "\<lambda>_ _ m. Some (Inr m)" and envs = "[manager_stop, \<lambda>s. s]" and newIn = "\<lambda>_. ()" and newOut = "\<lambda>_. ()" and ub = "\<lambda>_ _. 0",
        OF boot_rib_facts(3) boot_interfaces test_opens test_cb_run_ok test_answers test_attrs_ok ifs boot_kernel
        boot_routes [symmetric] boot_rib_facts(1,2) boot_gateways(2,1) nw(1) sample_os_ok nw(2) names]
    by blast
  have "boot = Some (Inr (manager_stop s))" unfolding main using s(1) by (simp add: manager_stop_def)
  moreover have "find_iface (iface_heap s) (man_interfaces s) 0 = Some 0" using ports by (simp add: boot_iface_def)
  moreover have "(0x0A0000FE :: u32) \<noteq> 0" by simp
  then obtain i where "i < length (nextHopMapping t)" "trie_route (\<lambda>_ _. 0) lpm 0x08080808 = of_nat i" "nh_ip (nextHopMapping t ! i) = 0x0A0000FE"
    using fw boot_forwards by blast
  ultimately show ?thesis using s(2) by blast
qed

end
