(* ===== verification/ManagerBuffers.thy ===== *)
theory ManagerBuffers
  imports Manager ArpProtocol
begin

text \<open>
  Correctness of the manager: packet buffers are not duplicated and, as long as the queue to the workers
  has room for them, not lost; a round that no worker disturbs ends and accounts for every frame; what is received, sent and asked for.
\<close>

section \<open>Where the buffers are\<close>

definition ring_bufs :: "'r netmap_ring_scheme \<Rightarrow> u32 multiset" where
  "ring_bufs r = mset (map buf_idx (slots r))"

definition rings_bufs :: "'r netmap_ring_scheme list list \<Rightarrow> u32 multiset" where
  "rings_bufs rs = (\<Sum>row\<leftarrow>rs. \<Sum>r\<leftarrow>row. ring_bufs r)"

text \<open>
  All rings live in one memory region: the index of a buffer does not depend on the ring it is
  asked of, and it is the one the buffer's address was computed from.
\<close>

definition api_ok :: "'r netmap_api \<Rightarrow> (addr \<Rightarrow> u32) \<Rightarrow> bool" where
  "api_ok nm idx \<longleftrightarrow> (\<forall>r a. NETMAP_BUF_IDX nm r a = idx a) \<and> (\<forall>r i. idx (NETMAP_BUF nm r i) = i)"

abbreviation frame_bufs :: "(addr \<Rightarrow> u32) \<Rightarrow> frame multiset \<Rightarrow> u32 multiset" where
  "frame_bufs idx fs \<equiv> image_mset (\<lambda>f. idx (buf_ptr f)) fs"

lemma ring_bufs_update:
  assumes "i < length (slots r)" "buf_idx sl = b"
  shows "ring_bufs (r\<lparr>slots := (slots r)[i := sl]\<rparr>) + {#buf_idx (slots r ! i)#} = ring_bufs r + {#b#}"
proof -
  have "map buf_idx ((slots r)[i := sl]) = (map buf_idx (slots r))[i := b]" using assms(2) by (simp add: map_update)
  moreover have "buf_idx (slots r ! i) \<in># mset (map buf_idx (slots r))" using assms(1) by (metis nth_mem_mset length_map nth_map)
  ultimately show ?thesis using assms(1) by (simp add: ring_bufs_def mset_update)
qed

lemma ring_bufs_head [simp]: "ring_bufs (r\<lparr>head := x, cur := y\<rparr>) = ring_bufs r"
  by (simp add: ring_bufs_def)

lemma sum_list_update_add:
  "k < length xs \<Longrightarrow> sum_list (xs[k := x]) + xs ! k = sum_list xs + (x :: 'a::comm_monoid_add)"
proof (induction xs arbitrary: k)
  case (Cons y ys)
  then show ?case by (cases k) (simp_all add: ac_simps)
qed simp

lemma rings_bufs_set_ring:
  assumes "ring_at rs i j = Inr r"
  shows "rings_bufs (set_ring i j r' rs) + ring_bufs r = rings_bufs rs + ring_bufs r'"
proof -
  have b: "i < length rs" "j < length (rs ! i)" "r = rs ! i ! j"
    using assms by (auto simp: ring_at_def split: if_splits)
  let ?row = "\<lambda>row. \<Sum>r\<leftarrow>row. ring_bufs r"
  have 1: "?row ((rs ! i)[j := r']) + ring_bufs r = ?row (rs ! i) + ring_bufs r'"
    using sum_list_update_add [of j "map ring_bufs (rs ! i)" "ring_bufs r'"] b by (simp add: map_update)
  have 2: "rings_bufs (set_ring i j r' rs) + ?row (rs ! i) = rings_bufs rs + ?row ((rs ! i)[j := r'])"
    using sum_list_update_add [of i "map ?row rs" "?row ((rs ! i)[j := r'])"] b
    by (simp add: rings_bufs_def set_ring_def map_update)
  have "(rings_bufs (set_ring i j r' rs) + ring_bufs r) + ?row (rs ! i) =
      (rings_bufs (set_ring i j r' rs) + ?row (rs ! i)) + ring_bufs r" by (simp only: ac_simps)
  also have "\<dots> = rings_bufs rs + (?row ((rs ! i)[j := r']) + ring_bufs r)" unfolding 2 by (rule union_assoc)
  also have "\<dots> = (rings_bufs rs + ring_bufs r') + ?row (rs ! i)" unfolding 1 by (simp only: ac_simps)
  finally show ?thesis by (rule add_right_imp_eq)
qed

lemma ring_bufs_put:
  assumes "api_ok nm idx" "unat (head r) < length (slots r)"
  shows "ring_bufs (put_slot nm f r) + {#buf_idx (slots r ! unat (head r))#} = ring_bufs r + {#idx (buf_ptr f)#}"
  unfolding put_slot_def Let_def ring_bufs_head using assms by (intro ring_bufs_update) (auto simp: api_ok_def)

section \<open>Receiving\<close>

lemma rx_frame_bufs:
  assumes "api_ok nm idx" "rx_frame nm ifc (fs, r, free) = Inr (fs', r', free')"
  shows "frame_bufs idx (mset fs') + ring_bufs r' + mset free' = frame_bufs idx (mset fs) + ring_bufs r + mset free"
proof -
  let ?i = "unat (head r)"
  let ?sl = "(slots r ! ?i)\<lparr>buf_idx := last free, slot_flags := NS_BUF_CHANGED nm\<rparr>"
  have b: "?i < length (slots r)" "free \<noteq> []" and free': "free' = butlast free"
    and r': "ring_bufs r' = ring_bufs (r\<lparr>slots := (slots r)[?i := ?sl]\<rparr>)"
    and fs': "frame_bufs idx (mset fs') = frame_bufs idx (mset fs) + {#buf_idx (slots r ! ?i)#}"
    using assms by (auto simp: rx_frame_def Let_def api_ok_def split: if_splits)
  have "mset free = mset (butlast free) + {#last free#}"
    using b(2) by (metis append_butlast_last_id mset.simps mset_append)
  then show ?thesis unfolding fs' r' free' using ring_bufs_update [OF b(1), of ?sl "last free"]
    by (simp add: ac_simps)
qed

lemma rx_burst_bufs:
  assumes "api_ok nm idx"
  shows "rx_burst nm ifc n (fs, r, free) = Inr (fs', r', free') \<Longrightarrow>
    frame_bufs idx (mset fs') + ring_bufs r' + mset free' = frame_bufs idx (mset fs) + ring_bufs r + mset free"
proof (induction n arbitrary: fs r free)
  case (Suc n)
  then obtain fs1 r1 free1 where s: "rx_frame nm ifc (fs, r, free) = Inr (fs1, r1, free1)"
    and rest: "rx_burst nm ifc n (fs1, r1, free1) = Inr (fs', r', free')" by (auto elim!: bindE_InrE)
  show ?case using Suc.IH [OF rest] rx_frame_bufs [OF assms s] by simp
qed simp

text \<open>What the manager relies on of \<^verbatim>\<open>try_enqueue_bulk\<close>: all frames are added, or none and it says so.\<close>

definition enqb_ok :: "(frame list \<Rightarrow> 'p \<Rightarrow> bool \<times> 'p) \<Rightarrow> ('p \<Rightarrow> frame multiset) \<Rightarrow> bool" where
  "enqb_ok enqb elems \<longleftrightarrow> (\<forall>fs q. elems (snd (enqb fs q)) = (if fst (enqb fs q) then elems q + mset fs else elems q))"

text \<open>Buffers that a component holds, up to those that are lost when a queue is full.\<close>

definition keeps :: "bool \<Rightarrow> 'a multiset \<Rightarrow> 'a multiset \<Rightarrow> bool" where
  "keeps full X Y \<longleftrightarrow> Y \<subseteq># X \<and> (\<not> full \<longrightarrow> Y = X)"

lemma keeps_refl [simp]: "keeps full X X"
  by (simp add: keeps_def)

lemma keeps_trans: "keeps full X Y \<Longrightarrow> keeps full Y Z \<Longrightarrow> keeps full X Z"
  by (auto simp: keeps_def)

lemma keeps_add: "keeps full X Y \<Longrightarrow> keeps full (X + Z) (Y + Z)"
  by (auto simp: keeps_def)

text \<open>
  A queue with room for \<open>cap\<close> frames takes a burst that fits in. All bursts of a round come out of the free list, so that none is
  refused when the free list as a whole fits beside the frames that are waiting.
\<close>

definition has_room :: "(frame list \<Rightarrow> 'p \<Rightarrow> bool \<times> 'p) \<Rightarrow> ('p \<Rightarrow> frame multiset) \<Rightarrow> nat \<Rightarrow> bool" where
  "has_room enqb elems cap \<longleftrightarrow> (\<forall>fs q. size (elems q) + length fs \<le> cap \<longrightarrow> fst (enqb fs q))"

abbreviation may_refuse :: "(frame list \<Rightarrow> 'p \<Rightarrow> bool \<times> 'p) \<Rightarrow> ('p \<Rightarrow> frame multiset) \<Rightarrow> nat \<Rightarrow> 'p \<Rightarrow> u32 list \<Rightarrow> bool" where
  "may_refuse enqb elems cap q free \<equiv> \<not> (has_room enqb elems cap \<and> size (elems q) + length free \<le> cap)"

lemma rx_burst_frames:
  "rx_burst nm ifc n (fs, r, free) = Inr (fs', r', free') \<Longrightarrow> length fs' = length fs + n"
proof (induction n arbitrary: fs r free)
  case (Suc n)
  then obtain fs1 r1 free1 where s: "rx_frame nm ifc (fs, r, free) = Inr (fs1, r1, free1)"
    and rest: "rx_burst nm ifc n (fs1, r1, free1) = Inr (fs', r', free')" by (auto elim!: bindE_InrE)
  have "length fs1 = Suc (length fs)" using s by (auto simp: rx_frame_def Let_def split: if_splits)
  with Suc.IH [OF rest] show ?case by simp
qed simp

lemma keeps_chain:
  "keeps full X Y \<and> (\<not> full \<longrightarrow> \<not> full') \<Longrightarrow> keeps full' Y Z \<Longrightarrow> (\<not> full' \<Longrightarrow> \<not> full'') \<Longrightarrow>
   keeps full X Z \<and> (\<not> full \<longrightarrow> \<not> full'')"
  by (auto simp: keeps_def)

lemma rx_ring_invariant:
  assumes step: "\<And>q r free n fs r' free'. P q r free \<Longrightarrow> rx_burst nm ifc n ([], r, free) = Inr (fs, r', free') \<Longrightarrow>
      P (snd (enqb fs q)) r' free'"
  shows "rx_ring nm enqb ifc (recv, q, r, free) = Inr (recv', q', r', free') \<Longrightarrow> P q r free \<Longrightarrow>
    P q' r' free' \<and> (nm_ring_space nm r' = 0 \<or> burst_size nm r' free' = 0)"
proof (induction "length free" arbitrary: recv q r free rule: less_induct)
  case less
  let ?n = "burst_size nm r free"
  show ?case
  proof (cases "nm_ring_space nm r = 0 \<or> ?n = 0")
    case True
    then have "rx_ring nm enqb ifc (recv, q, r, free) = Inr (recv, q, r, free)"
      by (subst rx_ring.simps) (auto simp: Let_def)
    with less.prems True show ?thesis by auto
  next
    case False
    then obtain fs r1 free1 where b: "rx_burst nm ifc (unat ?n) ([], r, free) = Inr (fs, r1, free1)"
      and rest: "rx_ring nm enqb ifc (recv + ?n, snd (enqb fs q), r1, free1) = Inr (recv', q', r', free')"
      using less.prems(1) by (subst (asm) rx_ring.simps) (auto simp: Let_def split: sum.splits)
    have "length free1 < length free" using rx_burst_free [OF b] False unat_gt_0 [of ?n] by linarith
    then show ?thesis using less.hyps [OF _ rest] step [OF less.prems(2) b] by blast
  qed
qed

text \<open>One burst and its bulk enqueue.\<close>

lemma burst_bufs:
  assumes "api_ok nm idx" "enqb_ok enqb elems" "rx_burst nm ifc n ([], r, free) = Inr (fs, r', free')"
  shows "keeps (may_refuse enqb elems cap q free) (frame_bufs idx (elems q) + ring_bufs r + mset free)
      (frame_bufs idx (elems (snd (enqb fs q))) + ring_bufs r' + mset free')"
    and "\<not> may_refuse enqb elems cap q free \<Longrightarrow> \<not> may_refuse enqb elems cap (snd (enqb fs q)) free'"
proof -
  have e: "frame_bufs idx (mset fs) + ring_bufs r' + mset free' = ring_bufs r + mset free"
    using rx_burst_bufs [OF assms(1,3)] by simp
  have l: "length fs + length free' = length free" using rx_burst_free [OF assms(3)] rx_burst_frames [OF assms(3)] by simp
  have acc: "fst (enqb fs q)" if "\<not> may_refuse enqb elems cap q free"
    using that l by (auto simp: has_room_def)
  show "keeps (may_refuse enqb elems cap q free) (frame_bufs idx (elems q) + ring_bufs r + mset free)
      (frame_bufs idx (elems (snd (enqb fs q))) + ring_bufs r' + mset free')"
  proof (cases "fst (enqb fs q)")
    case True
    then have "frame_bufs idx (elems (snd (enqb fs q))) + ring_bufs r' + mset free' =
        frame_bufs idx (elems q) + (frame_bufs idx (mset fs) + ring_bufs r' + mset free')"
      using assms(2) by (simp add: enqb_ok_def ac_simps)
    then show ?thesis unfolding e by (simp add: ac_simps)
  next
    case False
    have "ring_bufs r' + mset free' \<subseteq># frame_bufs idx (mset fs) + (ring_bufs r' + mset free')" by simp
    also have "\<dots> = ring_bufs r + mset free" using e by (simp add: ac_simps)
    finally have "frame_bufs idx (elems q) + (ring_bufs r' + mset free') \<subseteq>#
        frame_bufs idx (elems q) + (ring_bufs r + mset free)" by (rule mset_subset_eq_mono_add [OF subset_mset.order_refl])
    moreover have "elems (snd (enqb fs q)) = elems q" using False assms(2) by (simp add: enqb_ok_def)
    moreover have "may_refuse enqb elems cap q free" using False acc by blast
    ultimately show ?thesis unfolding keeps_def by (simp add: ac_simps)
  qed
  assume "\<not> may_refuse enqb elems cap q free"
  then show "\<not> may_refuse enqb elems cap (snd (enqb fs q)) free'"
    using acc assms(2) l by (auto simp: enqb_ok_def)
qed

lemma rx_ring_bufs:
  assumes "api_ok nm idx" "enqb_ok enqb elems"
    and "rx_ring nm enqb ifc (recv, q, r, free) = Inr (recv', q', r', free')"
  shows "keeps (may_refuse enqb elems cap q free) (frame_bufs idx (elems q) + ring_bufs r + mset free)
      (frame_bufs idx (elems q') + ring_bufs r' + mset free') \<and>
    (\<not> may_refuse enqb elems cap q free \<longrightarrow> \<not> may_refuse enqb elems cap q' free')"
proof -
  let ?X = "frame_bufs idx (elems q) + ring_bufs r + mset free" and ?full = "may_refuse enqb elems cap q free"
  define P where "P q r free \<longleftrightarrow> keeps ?full ?X (frame_bufs idx (elems q) + ring_bufs r + mset free) \<and>
    (\<not> ?full \<longrightarrow> \<not> may_refuse enqb elems cap q free)" for q and r :: "'a netmap_ring_scheme" and free
  have step: "P (snd (enqb fs q)) r' free'" if p: "P q r free" and b: "rx_burst nm ifc n ([], r, free) = Inr (fs, r', free')"
    for q r free n fs r' free'
    using p unfolding P_def by (rule keeps_chain [OF _ burst_bufs [OF assms(1,2) b]])
  have "P q r free" by (simp add: P_def)
  then have "P q' r' free'" using rx_ring_invariant [of P, OF _ assms(3)] step by blast
  then show ?thesis unfolding P_def .
qed

section \<open>The whole of the manager\<close>

definition man_bufs ::
    "(addr \<Rightarrow> u32) \<Rightarrow> ('p \<Rightarrow> frame multiset) \<Rightarrow> ('q \<Rightarrow> frame multiset) \<Rightarrow> ('p, 'q, 'r) Manager \<Rightarrow> u32 multiset" where
  "man_bufs idx elemsP elemsQ s = mset (freeBufs s) + rings_bufs (netmapRxRings s) + rings_bufs (netmapTxRings s) +
     frame_bufs idx (elemsP (inRings s ! 0)) + frame_bufs idx (elemsQ (outRings s ! 0))"

abbreviation man_may_refuse ::
    "(frame list \<Rightarrow> 'p \<Rightarrow> bool \<times> 'p) \<Rightarrow> ('p \<Rightarrow> frame multiset) \<Rightarrow> nat \<Rightarrow> ('p, 'q, 'r) Manager \<Rightarrow> bool" where
  "man_may_refuse enqb elemsP cap s \<equiv> may_refuse enqb elemsP cap (inRings s ! 0) (freeBufs s)"

lemma rx_one_bufs:
  assumes "api_ok nm idx" "enqb_ok enqb elemsP" "rx_one nm enqb iw s = Inr s'"
  shows "keeps (man_may_refuse enqb elemsP cap s) (man_bufs idx elemsP elemsQ s) (man_bufs idx elemsP elemsQ s') \<and>
    (\<not> man_may_refuse enqb elemsP cap s \<longrightarrow> \<not> man_may_refuse enqb elemsP cap s')"
proof -
  obtain ifc w where iw: "iw = (ifc, w)" by (cases iw)
  obtain r recv q r' free where r: "ring_at (netmapRxRings s) ifc w = Inr r" and ne: "inRings s \<noteq> []"
    and rx: "rx_ring nm enqb (of_nat ifc) (statsNumRecv s, inRings s ! 0, r, freeBufs s) = Inr (recv, q, r', free)"
    and s': "s' = s\<lparr>statsNumRecv := recv, inRings := (inRings s)[0 := q], freeBufs := free,
               netmapRxRings := set_ring ifc w r' (netmapRxRings s)\<rparr>"
    using assms(3) iw by (auto simp: rx_one_def elim!: bindE_InrE split: if_splits)
  let ?rest = "rings_bufs (netmapTxRings s) + frame_bufs idx (elemsQ (outRings s ! 0))" and ?full = "man_may_refuse enqb elemsP cap s"
  let ?old = "frame_bufs idx (elemsP (inRings s ! 0)) + ring_bufs r + mset (freeBufs s)"
  let ?new = "frame_bufs idx (elemsP q) + ring_bufs r' + mset free"
  note rb = rx_ring_bufs [OF assms(1,2) rx, of cap]
  have k: "keeps ?full (?old + (?rest + rings_bufs (netmapRxRings s))) (?new + (?rest + rings_bufs (netmapRxRings s)))"
    by (rule keeps_add [OF conjunct1 [OF rb]])
  have o: "?old + (?rest + rings_bufs (netmapRxRings s)) = man_bufs idx elemsP elemsQ s + ring_bufs r"
    by (simp add: man_bufs_def ac_simps)
  have "?new + (?rest + rings_bufs (netmapRxRings s)) =
      frame_bufs idx (elemsP q) + mset free + ?rest + (rings_bufs (netmapRxRings s) + ring_bufs r')" by (simp add: ac_simps)
  also have "\<dots> = man_bufs idx elemsP elemsQ s' + ring_bufs r"
    unfolding rings_bufs_set_ring [OF r, symmetric] using ne by (simp add: s' man_bufs_def ac_simps)
  finally have "keeps ?full (man_bufs idx elemsP elemsQ s) (man_bufs idx elemsP elemsQ s')"
    using k unfolding o by (simp add: keeps_def)
  moreover have "inRings s' ! 0 = q" "freeBufs s' = free" using ne by (simp_all add: s')
  ultimately show ?thesis using conjunct2 [OF rb] by simp
qed

lemma rx_all_bufs:
  assumes "api_ok nm idx" "enqb_ok enqb elemsP" "rx_all nm enqb s = Inr s'"
  shows "keeps (man_may_refuse enqb elemsP cap s) (man_bufs idx elemsP elemsQ s) (man_bufs idx elemsP elemsQ s')"
proof -
  define I where "I t \<longleftrightarrow> keeps (man_may_refuse enqb elemsP cap s) (man_bufs idx elemsP elemsQ s) (man_bufs idx elemsP elemsQ t) \<and>
    (\<not> man_may_refuse enqb elemsP cap s \<longrightarrow> \<not> man_may_refuse enqb elemsP cap t)" for t :: "('b, 'c, 'a) Manager"
  have "I s'" using assms(3) unfolding rx_all_def
  proof (rule foldE_invariant [where I = I])
    show "I u'" if "I u" "rx_one nm enqb x u = Inr u'" for x u u'
      using that(1) unfolding I_def
      by (rule keeps_chain [OF _ conjunct1 [OF rx_one_bufs [OF assms(1,2) that(2)]]]) (use rx_one_bufs [OF assms(1,2) that(2)] in blast)
  qed (simp add: I_def)
  then show ?thesis unfolding I_def by blast
qed

section \<open>Sending\<close>

lemma learn_frame: "handleFrame h th (m, f, a) = Inr (m', f', a') \<Longrightarrow> buf_ptr f' = buf_ptr f"
  by (auto simp: handleFrame_def handleRequest_def Let_def elim!: bindE_InrE split: if_splits option.splits)

lemma prepareRequest_frame: "prepareRequest h a ip ifc (m, f) = Inr (m', f') \<Longrightarrow> buf_ptr f' = buf_ptr f \<and> iface f' = iface f"
  by (auto simp: prepareRequest_def Let_def split: option.splits list.splits)

text \<open>The part of the state that the handling of the flags leaves alone.\<close>

definition same_rings :: "('p, 'q, 'r) Manager \<Rightarrow> ('p, 'q, 'r) Manager \<Rightarrow> bool" where
  "same_rings s s' \<longleftrightarrow> inRings s' = inRings s \<and> outRings s' = outRings s \<and> freeBufs s' = freeBufs s \<and>
     numWorkers s' = numWorkers s \<and> numInterfaces s' = numInterfaces s \<and>
     netmapRxRings s' = netmapRxRings s \<and> netmapTxRings s' = netmapTxRings s \<and> statsNumRecv s' = statsNumRecv s \<and>
     statsNumDropped s' = statsNumDropped s \<and> statsNumDroppedRingSpace s' = statsNumDroppedRingSpace s \<and>
     statsNumTransmitted s' = statsNumTransmitted s"

lemma missing_mac_same:
  assumes "missing_mac h clk f s = Inr (f', s')"
  shows "same_rings s s' \<and> buf_ptr f' = buf_ptr f"
  using assms
  by (auto simp: missing_mac_def Let_def clock_now_def same_rings_def elim!: bindE_InrE
      split: option.splits if_splits dest!: prepareRequest_frame)

lemma tx_flags_same:
  assumes "tx_flags h th clk f (ringid, s) = Inr (f', ringid', s')"
  shows "same_rings s s' \<and> buf_ptr f' = buf_ptr f"
  using assms
  by (auto simp: tx_flags_def Let_def elim!: bindE_InrE split: if_splits dest!: missing_mac_same learn_frame)
    (auto simp: same_rings_def)

lemma tx_slot_bufs:
  assumes "api_ok nm idx" "tx_slot nm f ringid s = Inr s'"
  shows "man_bufs idx elemsP elemsQ s' = man_bufs idx elemsP elemsQ s + {#idx (buf_ptr f)#} \<and>
    inRings s' = inRings s \<and> outRings s' = outRings s"
proof -
  let ?i = "unat (iface f AND IFACE_ID)"
  obtain r where r: "ring_at (netmapTxRings s) ?i (unat ringid) = Inr r"
    using assms(2) unfolding tx_slot_def Let_def by (auto elim: bindE_InrE)
  note eq = assms(2) [unfolded tx_slot_def Let_def r bindE_simps]
  show ?thesis
  proof (cases "nm_ring_space nm r = 0")
    case True
    then show ?thesis using eq assms(1) by (auto simp: api_ok_def man_bufs_def ac_simps)
  next
    case False
    let ?b = "buf_idx (slots r ! unat (head r))"
    define f1 where "f1 = (if frame_len f < 60 then f\<lparr>frame_len := 60\<rparr> else f)"
    let ?r = "put_slot nm f1 r"
    have i: "unat (head r) < length (slots r)"
      and s': "s' = s\<lparr>freeBufs := freeBufs s @ [?b], netmapTxRings := set_ring ?i (unat ringid) ?r (netmapTxRings s),
        statsNumTransmitted := statsNumTransmitted s + 1\<rparr>"
      using eq False unfolding f1_def [symmetric] by (auto split: if_splits)
    have "idx (buf_ptr f1) = idx (buf_ptr f)" by (simp add: f1_def)
    then have rb: "ring_bufs ?r + {#?b#} = ring_bufs r + {#idx (buf_ptr f)#}"
      using ring_bufs_put [OF assms(1) i, of f1] by simp
    let ?rest = "mset (freeBufs s) + rings_bufs (netmapRxRings s) +
      frame_bufs idx (elemsP (inRings s ! 0)) + frame_bufs idx (elemsQ (outRings s ! 0))"
    have "man_bufs idx elemsP elemsQ s' + ring_bufs r =
        ?rest + {#?b#} + (rings_bufs (set_ring ?i (unat ringid) ?r (netmapTxRings s)) + ring_bufs r)"
      by (simp add: s' man_bufs_def ac_simps)
    also have "\<dots> = ?rest + rings_bufs (netmapTxRings s) + (ring_bufs ?r + {#?b#})"
      unfolding rings_bufs_set_ring [OF r] by (simp only: ac_simps)
    also have "\<dots> = (man_bufs idx elemsP elemsQ s + {#idx (buf_ptr f)#}) + ring_bufs r"
      unfolding rb man_bufs_def by (simp only: ac_simps)
    finally have "man_bufs idx elemsP elemsQ s' = man_bufs idx elemsP elemsQ s + {#idx (buf_ptr f)#}"
      by (rule add_right_imp_eq)
    moreover have "inRings s' = inRings s \<and> outRings s' = outRings s" by (simp add: s')
    ultimately show ?thesis by blast
  qed
qed

lemma tx_frame_bufs:
  assumes "api_ok nm idx" "tx_frame nm h th clk f (ringid, s) = Inr (ringid', s')"
  shows "man_bufs idx elemsP elemsQ s' = man_bufs idx elemsP elemsQ s + {#idx (buf_ptr f)#} \<and>
    inRings s' = inRings s \<and> outRings s' = outRings s"
proof -
  obtain f1 ringid1 s1 where t: "tx_flags h th clk f (ringid, s) = Inr (f1, ringid1, s1)"
    and rest: "(if iface f1 AND IFACE_DISCARD \<noteq> 0 then
       bindE (ring_at (netmapTxRings s1) 0 0) (\<lambda>ring.
       Inr (ringid1, s1\<lparr>statsNumDropped := statsNumDropped s1 + 1,
                      freeBufs := freeBufs s1 @ [NETMAP_BUF_IDX nm ring (buf_ptr f1)]\<rparr>))
     else
       let ringid = ringid1 + 1; ringid = (if ringid = numWorkers s1 then 0 else ringid) in
       bindE (tx_slot nm f1 ringid s1) (\<lambda>s. Inr (ringid, s))) = Inr (ringid', s')"
    using assms(2) by (auto simp: tx_frame_def elim: bindE_InrE)
  have same: "same_rings s s1" "buf_ptr f1 = buf_ptr f" using tx_flags_same [OF t] by auto
  then have b: "man_bufs idx elemsP elemsQ s1 = man_bufs idx elemsP elemsQ s" by (simp add: same_rings_def man_bufs_def)
  show ?thesis
  proof (cases "iface f1 AND IFACE_DISCARD = 0")
    case True
    then obtain i where "tx_slot nm f1 i s1 = Inr s'" using rest by (auto simp: Let_def elim!: bindE_InrE)
    from tx_slot_bufs [OF assms(1) this] b same
    show ?thesis by (auto simp: same_rings_def)
  next
    case False
    then show ?thesis using rest same b assms(1)
      by (auto simp: api_ok_def man_bufs_def same_rings_def elim!: bindE_InrE)
  qed
qed

text \<open>The counters: every frame is counted once.\<close>

definition sent_or_dropped :: "('p, 'q, 'r) Manager \<Rightarrow> u32" where
  "sent_or_dropped s = statsNumTransmitted s + statsNumDropped s + statsNumDroppedRingSpace s"

lemma tx_frame_counts:
  assumes "tx_frame nm h th clk f (ringid, s) = Inr (ringid', s')"
  shows "sent_or_dropped s' = sent_or_dropped s + 1"
proof -
  obtain f1 ringid1 s1 where t: "tx_flags h th clk f (ringid, s) = Inr (f1, ringid1, s1)"
    using assms by (auto simp: tx_frame_def elim: bindE_InrE)
  have "sent_or_dropped s1 = sent_or_dropped s" using tx_flags_same [OF t] by (simp add: same_rings_def sent_or_dropped_def)
  moreover have "sent_or_dropped s' = sent_or_dropped s1 + 1"
    using assms unfolding tx_frame_def t tx_slot_def Let_def
    by (auto simp: sent_or_dropped_def elim!: bindE_InrE split: if_splits)
  ultimately show ?thesis by simp
qed

lemma tx_frame_queues:
  assumes "tx_frame nm h th clk f (ringid, s) = Inr (ringid', s')"
  shows "outRings s' = outRings s"
proof -
  obtain f1 ringid1 s1 where t: "tx_flags h th clk f (ringid, s) = Inr (f1, ringid1, s1)"
    using assms by (auto simp: tx_frame_def elim: bindE_InrE)
  have "outRings s1 = outRings s" using tx_flags_same [OF t] by (simp add: same_rings_def)
  moreover have "outRings s' = outRings s1"
    using assms unfolding tx_frame_def t tx_slot_def Let_def by (auto elim!: bindE_InrE split: if_splits)
  ultimately show ?thesis by simp
qed

text \<open>
  What the manager relies on of \<^verbatim>\<open>try_dequeue\<close>: what it returns was an element. It may find nothing in a queue that is not
  empty; that it does not is a law of its own.
\<close>

definition deq1_ok :: "('q \<Rightarrow> (frame \<times> 'q) option) \<Rightarrow> ('q \<Rightarrow> frame multiset) \<Rightarrow> bool" where
  "deq1_ok deq elems \<longleftrightarrow> (\<forall>q f q'. deq q = Some (f, q') \<longrightarrow> elems q = add_mset f (elems q'))"

definition deq1_finds :: "('q \<Rightarrow> (frame \<times> 'q) option) \<Rightarrow> ('q \<Rightarrow> frame multiset) \<Rightarrow> bool" where
  "deq1_finds deq elems \<longleftrightarrow> (\<forall>q. elems q \<noteq> {#} \<longrightarrow> deq q \<noteq> None)"

lemma deq1_ok_Some: "deq1_ok deq elems \<Longrightarrow> deq q = Some (f, q') \<Longrightarrow> elems q = add_mset f (elems q')"
  unfolding deq1_ok_def by blast

lemma tx_all_step:
  assumes "tx_all (Suc fuel) nm deq h th clk (ringid, s) = Some (Inr s')" "deq (outRings s ! 0) = Some (f, q)"
  obtains ringid1 s1 where "tx_frame nm h th clk f (ringid, s\<lparr>outRings := (outRings s)[0 := q]\<rparr>) = Inr (ringid1, s1)"
    "tx_all fuel nm deq h th clk (ringid1, s1) = Some (Inr s')" "outRings s \<noteq> []"
  using assms by (auto split: sum.splits if_splits)

lemma tx_all_bufs:
  assumes "api_ok nm idx" "deq1_ok deq elemsQ"
  shows "tx_all fuel nm deq h th clk (ringid, s) = Some (Inr s') \<Longrightarrow>
    man_bufs idx elemsP elemsQ s' = man_bufs idx elemsP elemsQ s \<and> deq (outRings s' ! 0) = None \<and>
    (\<exists>gone. elemsQ (outRings s ! 0) = gone + elemsQ (outRings s' ! 0) \<and> sent_or_dropped s' = sent_or_dropped s + of_nat (size gone))"
proof (induction fuel arbitrary: ringid s)
  case (Suc fuel)
  show ?case
  proof (cases "deq (outRings s ! 0)")
    case None
    then show ?thesis using Suc.prems by (auto split: if_splits)
  next
    case (Some fq)
    then obtain f q where fq: "deq (outRings s ! 0) = Some (f, q)" by (cases fq) auto
    then have e: "elemsQ (outRings s ! 0) = add_mset f (elemsQ q)"
      by (rule deq1_ok_Some [OF assms(2)])
    let ?s = "s\<lparr>outRings := (outRings s)[0 := q]\<rparr>"
    obtain ringid1 s1 where t: "tx_frame nm h th clk f (ringid, ?s) = Inr (ringid1, s1)"
      and rest: "tx_all fuel nm deq h th clk (ringid1, s1) = Some (Inr s')" and ne: "outRings s \<noteq> []"
      by (rule tx_all_step [OF Suc.prems fq])
    have b: "man_bufs idx elemsP elemsQ s1 = man_bufs idx elemsP elemsQ s" and o: "outRings s1 ! 0 = q"
      using tx_frame_bufs [OF assms(1) t, of elemsP elemsQ] ne e by (auto simp: man_bufs_def ac_simps)
    have c: "sent_or_dropped s1 = sent_or_dropped s + 1"
      using tx_frame_counts [OF t] by (simp add: sent_or_dropped_def)
    from Suc.IH [OF rest] obtain gone where "elemsQ q = gone + elemsQ (outRings s' ! 0)"
      "sent_or_dropped s' = sent_or_dropped s1 + of_nat (size gone)" using o by auto
    then have "elemsQ (outRings s ! 0) = add_mset f gone + elemsQ (outRings s' ! 0) \<and>
        sent_or_dropped s' = sent_or_dropped s + of_nat (size (add_mset f gone))" using c e by (simp add: ac_simps)
    then show ?thesis using Suc.IH [OF rest] b by metis
  qed
qed simp

lemma tx_all_returns:
  assumes "deq1_ok deq elemsQ"
  shows "size (elemsQ (outRings s ! 0)) < fuel \<Longrightarrow> \<exists>r. tx_all fuel nm deq h th clk (ringid, s) = Some r"
proof (induction fuel arbitrary: ringid s)
  case (Suc fuel)
  show ?case
  proof (cases "outRings s = [] \<or> deq (outRings s ! 0) = None")
    case False
    then obtain f q where fq: "deq (outRings s ! 0) = Some (f, q)" and ne: "outRings s \<noteq> []" by auto
    then have e: "elemsQ (outRings s ! 0) = add_mset f (elemsQ q)"
      by (intro deq1_ok_Some [OF assms])
    let ?s = "s\<lparr>outRings := (outRings s)[0 := q]\<rparr>"
    show ?thesis
    proof (cases "tx_frame nm h th clk f (ringid, ?s)")
      case (Inr rs)
      then obtain ringid1 s1 where rs: "rs = (ringid1, s1)" by (cases rs)
      have "outRings s1 = (outRings s)[0 := q]" using tx_frame_queues [OF Inr [unfolded rs]] by simp
      then have "\<exists>r. tx_all fuel nm deq h th clk (ringid1, s1) = Some r"
        using Suc.IH [of s1 ringid1] Suc.prems e ne by simp
      then show ?thesis using fq ne Inr rs by simp
    qed (use fq ne in simp)
  qed auto
qed simp

section \<open>Receiving does not fail\<close>

text \<open>
  What the manager relies on of the ring functions: the successor of a slot number is a slot number,
  and the kernel keeps the head inside the ring.
\<close>

definition next_ok :: "'r netmap_api \<Rightarrow> bool" where
  "next_ok nm \<longleftrightarrow> (\<forall>r i. unat i < length (slots r) \<longrightarrow> unat (nm_ring_next nm r i) < length (slots r))"

definition ring_ok :: "'r netmap_ring_scheme \<Rightarrow> bool" where
  "ring_ok r \<longleftrightarrow> unat (head r) < length (slots r)"

lemma rx_frame_ok:
  assumes "next_ok nm" "ring_ok r" "free \<noteq> []"
  shows "\<exists>f r'. rx_frame nm ifc (fs, r, free) = Inr (fs @ [f], r', butlast free) \<and> ring_ok r'"
proof -
  let ?r = "r\<lparr>slots := (slots r)[unat (head r) := (slots r ! unat (head r))\<lparr>buf_idx := last free, slot_flags := NS_BUF_CHANGED nm\<rparr>]\<rparr>"
  have "unat (nm_ring_next nm ?r (head r)) < length (slots ?r)"
    using assms(1) [unfolded next_ok_def, rule_format, of "head r" ?r] assms(2) by (simp add: ring_ok_def)
  then show ?thesis using assms(2,3) by (auto simp: rx_frame_def Let_def ring_ok_def)
qed

lemma rx_burst_ok:
  assumes "next_ok nm"
  shows "ring_ok r \<Longrightarrow> n \<le> length free \<Longrightarrow>
    \<exists>fs' r' free'. rx_burst nm ifc n (fs, r, free) = Inr (fs', r', free') \<and> ring_ok r'"
proof (induction n arbitrary: fs r free)
  case (Suc n)
  then have "free \<noteq> []" by auto
  then obtain f r1 where f: "rx_frame nm ifc (fs, r, free) = Inr (fs @ [f], r1, butlast free)" and r1: "ring_ok r1"
    using rx_frame_ok [OF assms Suc.prems(1)] by blast
  show ?case using Suc.IH [OF r1, of "butlast free"] Suc.prems(2) f by simp
qed simp

lemma burst_size_le: "unat (burst_size nm r free) \<le> length free"
proof -
  have "unat (of_nat (length free) :: u32) \<le> length free" by (simp add: unat_of_nat take_bit_eq_mod)
  moreover have "unat (burst_size nm r free) \<le> unat (of_nat (length free) :: u32)"
    unfolding burst_size_def Let_def word_le_nat_alt [symmetric] by auto
  ultimately show ?thesis by linarith
qed

lemma rx_ring_total:
  assumes "next_ok nm"
  shows "ring_ok r \<Longrightarrow> \<exists>recv' q' r' free'. rx_ring nm enqb ifc (recv, q, r, free) = Inr (recv', q', r', free') \<and> ring_ok r'"
proof (induction "length free" arbitrary: recv q r free rule: less_induct)
  case less
  let ?n = "burst_size nm r free"
  show ?case
  proof (cases "nm_ring_space nm r = 0 \<or> ?n = 0")
    case True
    then have "rx_ring nm enqb ifc (recv, q, r, free) = Inr (recv, q, r, free)"
      by (subst rx_ring.simps) (auto simp: Let_def)
    with less.prems show ?thesis by blast
  next
    case False
    obtain fs r1 free1 where b: "rx_burst nm ifc (unat ?n) ([], r, free) = Inr (fs, r1, free1)" and r1: "ring_ok r1"
      using rx_burst_ok [OF assms less.prems burst_size_le] by blast
    have "length free1 < length free" using rx_burst_free [OF b] False unat_gt_0 [of ?n] by linarith
    then have "\<exists>recv' q' r' free'. rx_ring nm enqb ifc (recv + ?n, snd (enqb fs q), r1, free1) =
        Inr (recv', q', r', free') \<and> ring_ok r'" using less.hyps r1 by blast
    moreover have "rx_ring nm enqb ifc (recv, q, r, free) = rx_ring nm enqb ifc (recv + ?n, snd (enqb fs q), r1, free1)"
      using False b by (subst rx_ring.simps) (simp add: Let_def)
    ultimately show ?thesis by simp
  qed
qed

text \<open>The shape of the state: enough rings for every interface and worker, all heads inside.\<close>

definition rx_shape :: "('p, 'q, 'r) Manager \<Rightarrow> bool" where
  "rx_shape s \<longleftrightarrow> inRings s \<noteq> [] \<and> unat (numInterfaces s) \<le> length (netmapRxRings s) \<and>
     (\<forall>row \<in> set (netmapRxRings s). unat (numWorkers s) \<le> length row \<and> (\<forall>r \<in> set row. ring_ok r))"

lemma rx_one_shape:
  assumes "next_ok nm" "rx_shape s" "i < unat (numInterfaces s)" "w < unat (numWorkers s)"
  shows "\<exists>s'. rx_one nm enqb (i, w) s = Inr s' \<and> rx_shape s' \<and> numInterfaces s' = numInterfaces s \<and> numWorkers s' = numWorkers s"
proof -
  have i: "i < length (netmapRxRings s)" using assms(2,3) by (simp add: rx_shape_def)
  have row: "netmapRxRings s ! i \<in> set (netmapRxRings s)" using i by simp
  have w: "w < length (netmapRxRings s ! i)" using assms(2,4) row by (fastforce simp: rx_shape_def)
  have "ring_ok (netmapRxRings s ! i ! w)" using assms(2) row w nth_mem by (fastforce simp: rx_shape_def)
  then obtain recv q r free where rx: "rx_ring nm enqb (of_nat i) (statsNumRecv s, inRings s ! 0, netmapRxRings s ! i ! w, freeBufs s) =
      Inr (recv, q, r, free)" "ring_ok r"
    using rx_ring_total [OF assms(1), where r = "netmapRxRings s ! i ! w" and enqb = enqb and ifc = "of_nat i" and
      recv = "statsNumRecv s" and q = "inRings s ! 0" and free = "freeBufs s"] by blast
  let ?row = "(netmapRxRings s ! i)[w := r]"
  have "length ?row = length (netmapRxRings s ! i)" "\<forall>x \<in> set ?row. ring_ok x"
    using assms(2) row rx(2) by (auto simp: rx_shape_def dest!: set_update_subset_insert [THEN subsetD])
  then have "\<forall>row \<in> set ((netmapRxRings s)[i := ?row]). unat (numWorkers s) \<le> length row \<and> (\<forall>r \<in> set row. ring_ok r)"
    using assms(2) row by (auto simp: rx_shape_def dest!: set_update_subset_insert [THEN subsetD])
  then show ?thesis using rx i w assms(2) by (simp add: rx_one_def ring_at_def rx_shape_def set_ring_def)
qed

lemma rx_all_total:
  fixes s :: "('p, 'q, 'r) Manager"
  assumes "next_ok nm" "rx_shape s"
  shows "\<exists>s'. rx_all nm enqb s = Inr s' \<and> rx_shape s'"
proof -
  let ?I = "\<lambda>t :: ('p, 'q, 'r) Manager. rx_shape t \<and> numInterfaces t = numInterfaces s \<and> numWorkers t = numWorkers s"
  have "\<exists>s'. foldE (rx_one nm enqb) (List.product [0..<unat (numInterfaces s)] [0..<unat (numWorkers s)]) s = Inr s' \<and> ?I s'"
  proof (rule foldE_total)
    fix x :: "nat \<times> nat" and t :: "('p, 'q, 'r) Manager"
    assume x: "x \<in> set (List.product [0..<unat (numInterfaces s)] [0..<unat (numWorkers s)])" and t: "?I t"
    obtain i w where iw: "x = (i, w)" by (cases x)
    show "\<exists>s'. rx_one nm enqb x t = Inr s' \<and> ?I s'"
      using rx_one_shape [OF assms(1), of t i w enqb] x t unfolding iw by auto
  qed (use assms(2) in simp)
  then show ?thesis by (auto simp: rx_all_def)
qed

lemma rx_ring_count:
  "rx_ring nm enqb ifc (recv, q, r, free) = Inr (recv', q', r', free') \<Longrightarrow>
   recv' + of_nat (length free') = recv + of_nat (length free)"
proof (induction "length free" arbitrary: recv q r free rule: less_induct)
  case less
  let ?n = "burst_size nm r free"
  show ?case
  proof (cases "nm_ring_space nm r = 0 \<or> ?n = 0")
    case True
    then have "rx_ring nm enqb ifc (recv, q, r, free) = Inr (recv, q, r, free)"
      by (subst rx_ring.simps) (auto simp: Let_def)
    with less.prems show ?thesis by simp
  next
    case False
    then obtain fs r1 free1 where b: "rx_burst nm ifc (unat ?n) ([], r, free) = Inr (fs, r1, free1)"
      and rest: "rx_ring nm enqb ifc (recv + ?n, snd (enqb fs q), r1, free1) = Inr (recv', q', r', free')"
      using less.prems by (subst (asm) rx_ring.simps) (auto simp: Let_def split: sum.splits)
    have l: "length free = length free1 + unat ?n" using rx_burst_free [OF b] by simp
    then have "length free1 < length free" using False unat_gt_0 [of ?n] by linarith
    then show ?thesis using less.hyps [OF _ rest] unfolding l by (simp add: ac_simps)
  qed
qed

lemma burst_size_0:
  assumes "nm_ring_space nm r \<noteq> 0" "burst_size nm r free = 0" "length free < 2 ^ 32"
  shows "free = []"
proof -
  have "(of_nat (length free) :: u32) = 0"
    using assms(1,2) by (auto simp: burst_size_def Let_def MANAGER_BULK_SIZE_def min_def split: if_splits)
  then have "unat (of_nat (length free) :: u32) = 0" by simp
  then show ?thesis using assms(3) by (simp add: unat_of_nat take_bit_eq_mod)
qed

lemma rx_all_keeps:
  assumes "rx_all nm enqb s = Inr s'"
  shows "outRings s' = outRings s \<and> sent_or_dropped s' = sent_or_dropped s"
  using assms unfolding rx_all_def
  by (rule foldE_invariant [where I = "\<lambda>t. outRings t = outRings s \<and> sent_or_dropped t = sent_or_dropped s"])
    (auto simp: rx_one_def sent_or_dropped_def elim!: bindE_InrE split: if_splits)

text \<open>
  A resolved frame from a worker goes into the slot at the head of the next ring of its port,
  taking turns among the rings of the workers; the slot gets its buffer and a length of at least 60
  bytes, and the buffer that was in the slot becomes free.
\<close>

lemma tx_frame_resolved:
  assumes "api_ok nm idx" "iface f AND IFACE_ID = iface f"
    and "ring_at (netmapTxRings s) (unat (iface f)) (unat (if ringid + 1 = numWorkers s then 0 else ringid + 1)) = Inr r"
    and "ring_ok r" "nm_ring_space nm r \<noteq> 0"
  shows "\<exists>r'. tx_frame nm h th clk f (ringid, s) = Inr (if ringid + 1 = numWorkers s then 0 else ringid + 1,
      s\<lparr>freeBufs := freeBufs s @ [buf_idx (slots r ! unat (head r))], statsNumTransmitted := statsNumTransmitted s + 1,
        netmapTxRings := set_ring (unat (iface f)) (unat (if ringid + 1 = numWorkers s then 0 else ringid + 1)) r' (netmapTxRings s)\<rparr>) \<and>
    length (slots r') = length (slots r) \<and> buf_idx (slots r' ! unat (head r)) = idx (buf_ptr f) \<and>
    slot_len (slots r' ! unat (head r)) = max 60 (frame_len f) \<and>
    (\<forall>j. j \<noteq> unat (head r) \<longrightarrow> slots r' ! j = slots r ! j)"
proof -
  have "\<not> bit (iface f) 12" "\<not> bit (iface f) 13" "\<not> bit (iface f) 14" "\<not> bit (iface f) 15"
    using id_no_flag [of "iface f"] unfolding assms(2) by auto
  then have flags: "iface f AND IFACE_HOST = 0" "iface f AND IFACE_ARP = 0" "iface f AND IFACE_NOMAC = 0" "iface f AND IFACE_DISCARD = 0"
    using flag_test [of "iface f"] by auto
  let ?f = "if frame_len f < 60 then f\<lparr>frame_len := 60\<rparr> else f"
  have len: "frame_len ?f = max 60 (frame_len f)" "buf_ptr ?f = buf_ptr f" by (auto simp: max_def)
  have "slots (put_slot nm ?f r) = (slots r)[unat (head r) := (slots r ! unat (head r))\<lparr>buf_idx := idx (buf_ptr f),
      slot_flags := NS_BUF_CHANGED nm, slot_len := max 60 (frame_len f)\<rparr>]"
    using assms(1) unfolding put_slot_def Let_def len by (simp add: api_ok_def len)
  then show ?thesis using assms(3-5) flags
    by (intro exI [of _ "put_slot nm ?f r"])
      (auto simp: tx_frame_def tx_flags_def tx_slot_def assms(2) ring_ok_def Let_def)
qed

section \<open>Properties\<close>

text \<open>\<^verbatim>\<open>poll\<close> lets the kernel move the rings on, which leaves the buffer of every slot alone.\<close>

definition poll_ok :: "('r ports \<Rightarrow> int \<times> 'r ports) \<Rightarrow> bool" where
  "poll_ok kpoll \<longleftrightarrow> (\<forall>rx tx m. case kpoll (rx, tx, m) of (_, rx', tx', _) \<Rightarrow>
     rings_bufs rx' = rings_bufs rx \<and> rings_bufs tx' = rings_bufs tx)"

lemma manager_process_bufs:
  assumes "api_ok nm idx" "enqb_ok enqb elemsP" "deq1_ok deq elemsQ" "poll_ok kpoll"
    and "manager_process fuel nm kpoll enqb deq h th clk s = Some (Inr s')"
  shows "keeps (man_may_refuse enqb elemsP cap s) (man_bufs idx elemsP elemsQ s) (man_bufs idx elemsP elemsQ s')"
proof -
  obtain res rx tx m where k: "kpoll (netmapRxRings s, netmapTxRings s, memory s) = (res, rx, tx, m)"
    by (metis prod_cases4)
  let ?s = "s\<lparr>netmapRxRings := rx, netmapTxRings := tx, memory := m\<rparr>"
  obtain s1 where rx: "rx_all nm enqb ?s = Inr s1" and tx: "tx_all fuel nm deq h th clk (0, s1) = Some (Inr s')"
    using assms(5) k by (auto simp: manager_process_def split: sum.splits if_splits)
  have "rings_bufs rx = rings_bufs (netmapRxRings s) \<and> rings_bufs tx = rings_bufs (netmapTxRings s)"
    using assms(4) [unfolded poll_ok_def, rule_format, of "netmapRxRings s" "netmapTxRings s" "memory s"] k by simp
  then have "man_bufs idx elemsP elemsQ ?s = man_bufs idx elemsP elemsQ s" by (simp add: man_bufs_def)
  then show ?thesis
    using rx_all_bufs [OF assms(1,2) rx, of cap elemsQ] tx_all_bufs [OF assms(1,3) tx, of elemsP] by simp
qed

text \<open>
  C7: a round of the manager never duplicates a packet buffer: the buffers in the free list, in the
  slots of all rings and in the two queues are afterwards among those from before, none owned twice
  if none was. They are exactly the same ones if the queue to the workers takes up to \<open>cap\<close>
  frames and there is room for the whole free list beside the frames that wait in it, since no
  burst can then be refused.
\<close>

theorem manager_conserves_buffers:
  assumes "api_ok nm idx" "enqb_ok enqb elemsP" "deq1_ok deq elemsQ" "poll_ok kpoll"
    and "manager_process fuel nm kpoll enqb deq h th clk s = Some (Inr s')"
  shows "man_bufs idx elemsP elemsQ s' \<subseteq># man_bufs idx elemsP elemsQ s \<and>
    ((\<forall>b. count (man_bufs idx elemsP elemsQ s) b \<le> 1) \<longrightarrow> (\<forall>b. count (man_bufs idx elemsP elemsQ s') b \<le> 1)) \<and>
    (\<forall>cap. has_room enqb elemsP cap \<and> size (elemsP (inRings s ! 0)) + length (freeBufs s) \<le> cap \<longrightarrow>
      man_bufs idx elemsP elemsQ s' = man_bufs idx elemsP elemsQ s)"
proof (intro conjI impI allI)
  show sub: "man_bufs idx elemsP elemsQ s' \<subseteq># man_bufs idx elemsP elemsQ s"
    using manager_process_bufs [OF assms] unfolding keeps_def by blast
  show "count (man_bufs idx elemsP elemsQ s') b \<le> 1" if "\<forall>b. count (man_bufs idx elemsP elemsQ s) b \<le> 1" for b
    using that mset_subset_eq_count [OF sub] le_trans by blast
  show "man_bufs idx elemsP elemsQ s' = man_bufs idx elemsP elemsQ s"
    if "has_room enqb elemsP cap \<and> size (elemsP (inRings s ! 0)) + length (freeBufs s) \<le> cap" for cap
    using manager_process_bufs [OF assms, of cap] that unfolding keeps_def by blast
qed

text \<open>
  A router with one port and one worker, for the concrete instances. The ring functions are those
  of the library, with the tail of the ring as its own field.
\<close>

definition test_api :: "u32 netmap_api" where
  "test_api = \<lparr>nm_ring_space = (\<lambda>r. if netmap_ring.more r < head r then netmap_ring.more r - head r + of_nat (length (slots r))
       else netmap_ring.more r - head r),
     nm_ring_next = (\<lambda>r i. if unat i + 1 < length (slots r) then i + 1 else 0),
     NETMAP_BUF = (\<lambda>_ i. 2048 * unat i), NETMAP_BUF_IDX = (\<lambda>_ a. of_nat (a div 2048)), NS_BUF_CHANGED = 1\<rparr>"

definition test_ring :: "u32 list \<Rightarrow> u32 \<Rightarrow> u32 netmap_ring_scheme" where
  "test_ring bufs tail = \<lparr>slots = map (\<lambda>b. \<lparr>buf_idx = b, slot_len = 98, slot_flags = 0\<rparr>) bufs, head = 0, cur = 0, \<dots> = tail\<rparr>"

definition list_enqb :: "frame list \<Rightarrow> frame list \<Rightarrow> bool \<times> frame list" where
  "list_enqb fs q = (if length q + length fs \<le> 1024 then (True, q @ fs) else (False, q))"

definition list_deq1 :: "frame list \<Rightarrow> (frame \<times> frame list) option" where
  "list_deq1 q = (case q of [] \<Rightarrow> None | f # fs \<Rightarrow> Some (f, fs))"

definition test_manager :: "(frame list, frame list, u32) Manager" where
  "test_manager = \<lparr>inRings = [[]], outRings = [[\<lparr>buf_ptr = 2048 * 20, frame_len = 42, iface = 0, vlan = 0\<rparr>,
       \<lparr>buf_ptr = 2048 * 21, frame_len = 98, iface = IFACE_DISCARD, vlan = 0\<rparr>]], freeBufs = [1, 2, 3], numWorkers = 1,
     netmapRxRings = [[test_ring [4, 5, 6, 7] 2, test_ring [8] 0]], netmapTxRings = [[test_ring [9, 10] 1, test_ring [11] 0]],
     numInterfaces = 1, arpTable = new_ARPTable [1], statsNumRecv = 0, statsNumDropped = 0, statsNumDroppedRingSpace = 0,
     statsNumDroppedNoMac = 0, statsNumTransmitted = 0, missingMACs = (\<lambda>_. None), memory = (\<lambda>_. 0), ticks = 0\<rparr>"

lemma test_api_ok: "api_ok test_api (\<lambda>a. of_nat (a div 2048))"
  by (simp add: api_ok_def test_api_def)

lemma list_queue_ok: "enqb_ok list_enqb mset" "deq1_ok list_deq1 mset"
  by (auto simp: enqb_ok_def list_enqb_def deq1_ok_def list_deq1_def split: list.splits)

lemma list_queue_finds: "has_room list_enqb mset 1024" "deq1_finds list_deq1 mset"
  by (auto simp: has_room_def list_enqb_def deq1_finds_def list_deq1_def split: list.splits)

lemma test_poll_ok: "poll_ok (\<lambda>p. (1, p))"
  by (simp add: poll_ok_def)

lemma rx_burst_numeral: "rx_burst nm ifc (numeral k) s = bindE (rx_frame nm ifc s) (rx_burst nm ifc (pred_numeral k))"
  by (simp add: numeral_eq_Suc)

lemma tx_all_numeral:
  "tx_all (numeral k) nm deq h th clk (ringid, s) =
     (if outRings s = [] then Some (Inl OutOfBounds)
      else case deq (outRings s ! 0) of
        None \<Rightarrow> Some (Inr s)
      | Some (f, q) \<Rightarrow>
          case tx_frame nm h th clk f (ringid, s\<lparr>outRings := (outRings s)[0 := q]\<rparr>) of
            Inl e \<Rightarrow> Some (Inl e)
          | Inr rs \<Rightarrow> tx_all (pred_numeral k) nm deq h th clk rs)"
  by (simp add: numeral_eq_Suc)

lemma test_rx:
  "\<exists>recv r. rx_ring test_api list_enqb 0 (0, [], test_ring [4, 5, 6, 7] 2, [1, 2, 3]) =
     Inr (recv, [\<lparr>buf_ptr = 2048 * 4, frame_len = 98, iface = 0, vlan = 0\<rparr>, \<lparr>buf_ptr = 2048 * 5, frame_len = 98, iface = 0, vlan = 0\<rparr>],
       r, [1])"
  by (simp add: rx_ring.simps test_api_def test_ring_def burst_size_def MANAGER_BULK_SIZE_def list_enqb_def rx_frame_def
      rx_burst_numeral Let_def)

lemma test_ring_simps:
  "head (test_ring bs t) = 0" "slots (test_ring bs t) = map (\<lambda>b. \<lparr>buf_idx = b, slot_len = 98, slot_flags = 0\<rparr>) bs"
  "nm_ring_space test_api (test_ring bs t) = t" "NETMAP_BUF_IDX test_api r a = of_nat (a div 2048)"
  by (simp_all add: test_ring_def test_api_def)

lemma test_manager_round:
  "\<exists>s'. manager_process 3 test_api (\<lambda>p. (1, p)) list_enqb list_deq1 test_heap (\<lambda>_. test_table) (\<lambda>_. 0) test_manager = Some (Inr s') \<and>
     freeBufs s' = [1, 9, 21]"
  using test_rx
  by (auto simp: manager_process_def rx_all_def rx_one_def ring_at_def test_manager_def set_ring_def tx_all_numeral list_deq1_def
      tx_frame_def tx_flags_def iface_flags tx_slot_def Let_def test_ring_simps)

theorem manager_conserves_buffers_witness:
  "\<exists>s'. manager_process 3 test_api (\<lambda>p. (1, p)) list_enqb list_deq1 test_heap (\<lambda>_. test_table) (\<lambda>_. 0) test_manager = Some (Inr s') \<and>
     freeBufs s' = [1, 9, 21] \<and>
     man_bufs (\<lambda>a. of_nat (a div 2048)) mset mset s' = man_bufs (\<lambda>a. of_nat (a div 2048)) mset mset test_manager"
proof -
  obtain s' where s': "manager_process 3 test_api (\<lambda>p. (1, p)) list_enqb list_deq1 test_heap (\<lambda>_. test_table) (\<lambda>_. 0) test_manager = Some (Inr s')"
    "freeBufs s' = [1, 9, 21]" using test_manager_round by blast
  have "size (mset (inRings test_manager ! 0)) + length (freeBufs test_manager) \<le> 1024" by (simp add: test_manager_def)
  with s' show ?thesis
    using manager_conserves_buffers [OF test_api_ok list_queue_ok test_poll_ok s'(1)] list_queue_finds(1) by blast
qed

text \<open>
  C19: a round of the manager during which no worker adds frames to the queue of treated frames ends, with one more
  iteration than there are frames in it. Unless the round stopped the router, each frame that has
  left that queue was counted exactly once, as transmitted, dropped or dropped for lack of room, and
  the round ended because a dequeue found nothing, which means that the queue is empty if
  dequeueing finds what there is.
\<close>

theorem manager_round_ends:
  assumes "deq1_ok deq elemsQ" "api_ok nm idx" "size (elemsQ (outRings s ! 0)) < fuel"
  shows "\<exists>r. manager_process fuel nm kpoll enqb deq h th clk s = Some r \<and>
    (\<forall>s'. r = Inr s' \<longrightarrow>
       (\<exists>gone. elemsQ (outRings s ! 0) = gone + elemsQ (outRings s' ! 0) \<and> sent_or_dropped s' = sent_or_dropped s + of_nat (size gone)) \<and>
       deq (outRings s' ! 0) = None \<and> (deq1_finds deq elemsQ \<longrightarrow> elemsQ (outRings s' ! 0) = {#}))"
proof -
  obtain res rx tx m where k: "kpoll (netmapRxRings s, netmapTxRings s, memory s) = (res, rx, tx, m)"
    by (metis prod_cases4)
  let ?s = "s\<lparr>netmapRxRings := rx, netmapTxRings := tx, memory := m\<rparr>"
  show ?thesis
  proof (cases "res < 0 \<or> (\<exists>e. rx_all nm enqb ?s = Inl e)")
    case True
    then show ?thesis using k by (auto simp: manager_process_def)
  next
    case False
    then obtain s1 where rx: "rx_all nm enqb ?s = Inr s1" by (cases "rx_all nm enqb ?s") auto
    then have k1: "outRings s1 = outRings s" "sent_or_dropped s1 = sent_or_dropped s"
      using rx_all_keeps [OF rx] by (simp_all add: sent_or_dropped_def)
    then obtain r where r: "tx_all fuel nm deq h th clk (0, s1) = Some r"
      using tx_all_returns [OF assms(1), where s = s1 and fuel = fuel and nm = nm and h = h and th = th and clk = clk and ringid = 0] assms(3) by auto
    then have "manager_process fuel nm kpoll enqb deq h th clk s = Some r"
      using False k rx by (simp add: manager_process_def)
    moreover have "deq (outRings s' ! 0) = None \<and> (\<exists>gone. elemsQ (outRings s ! 0) = gone + elemsQ (outRings s' ! 0) \<and>
        sent_or_dropped s' = sent_or_dropped s + of_nat (size gone))" if "r = Inr s'" for s'
      using tx_all_bufs [OF assms(2,1), of fuel h th clk 0 s1 s'] r that k1 by simp
    ultimately show ?thesis unfolding deq1_finds_def by metis
  qed
qed

theorem manager_round_ends_witness:
  "\<exists>s'. manager_process 3 test_api (\<lambda>p. (1, p)) list_enqb list_deq1 test_heap (\<lambda>_. test_table) (\<lambda>_. 0) test_manager = Some (Inr s') \<and>
     outRings s' ! 0 = [] \<and> statsNumTransmitted s' + statsNumDropped s' + statsNumDroppedRingSpace s' = 2"
proof -
  let ?r = "manager_process 3 test_api (\<lambda>p. (1, p)) list_enqb list_deq1 test_heap (\<lambda>_. test_table) (\<lambda>_. 0) test_manager"
  have out: "size (mset (outRings test_manager ! 0)) = 2" "sent_or_dropped test_manager = 0"
    by (simp_all add: test_manager_def sent_or_dropped_def)
  obtain s' where s': "?r = Some (Inr s')" using test_manager_round by blast
  then obtain gone where g: "mset (outRings test_manager ! 0) = gone + mset (outRings s' ! 0)"
      "sent_or_dropped s' = sent_or_dropped test_manager + of_nat (size gone)" and e: "mset (outRings s' ! 0) = {#}"
    using manager_round_ends [OF list_queue_ok(2) test_api_ok, of test_manager 3 "\<lambda>p. (1, p)" list_enqb test_heap "\<lambda>_. test_table" "\<lambda>_. 0"]
      out(1) list_queue_finds(2) by auto
  then have "size gone = 2" using out(1) by (metis add.right_neutral)
  with g(2) e s' out(2) show ?thesis by (intro exI [of _ s']) (simp add: sent_or_dropped_def)
qed

text \<open>
  C21: receiving from a ring whose head is inside it never leaves the ring or the free list, and goes
  on until the ring is empty or no free buffer is left; the counter grows by the buffers used.
\<close>

theorem rx_ring_complete:
  assumes "next_ok nm" "ring_ok r" "length free < 2 ^ 32"
  shows "\<exists>recv' q' r' free'. rx_ring nm enqb ifc (recv, q, r, free) = Inr (recv', q', r', free') \<and> ring_ok r' \<and>
    (nm_ring_space nm r' = 0 \<or> free' = []) \<and> recv' + of_nat (length free') = recv + of_nat (length free)"
proof -
  obtain recv' q' r' free' where rx: "rx_ring nm enqb ifc (recv, q, r, free) = Inr (recv', q', r', free')" and ok: "ring_ok r'"
    using rx_ring_total [OF assms(1,2), where enqb = enqb and ifc = ifc and recv = recv and q = q and free = free] by blast
  have step: "length free' \<le> length free" if "length free0 \<le> length free" "rx_burst nm ifc n ([], r0, free0) = Inr (fs, r', free')"
    for n r0 free0 fs r' free'
    using rx_burst_free [OF that(2)] that(1) by simp
  have "length free' \<le> length free \<and> (nm_ring_space nm r' = 0 \<or> burst_size nm r' free' = 0)"
    using rx_ring_invariant [where P = "\<lambda>q r f. length f \<le> length free" and nm = nm and ifc = ifc and enqb = enqb, OF step rx] by simp
  then have "nm_ring_space nm r' = 0 \<or> free' = []" using burst_size_0 [of nm r' free'] assms(3) by auto
  then show ?thesis using rx ok rx_ring_count [OF rx] by blast
qed

lemma test_next_ok: "next_ok test_api"
  by (auto simp: next_ok_def test_api_def unat_word_ariths)

theorem rx_ring_complete_witness:
  "\<exists>recv' q' r' free'. rx_ring test_api list_enqb 0 (0, [], test_ring [4, 5, 6, 7] 2, [1, 2, 3]) = Inr (recv', q', r', free') \<and>
     (nm_ring_space test_api r' = 0 \<or> free' = [])"
  using rx_ring_complete [OF test_next_ok, of "test_ring [4, 5, 6, 7] 2" "[1, 2, 3]" list_enqb 0 0 "[]"]
  by (auto simp: ring_ok_def test_ring_simps)

text \<open>
  The frames without an address that the manager handles one after another. Between two of them it
  does other work, which may change everything but the table of requests, and the clock goes on. A frame that comes back without the mark
  for discarding is sent: the trace has the destination of the packet, the time at which the manager looked at
  it, the frame and what its buffer holds then.
\<close>

type_synonym sent_frame = "u32 \<times> int \<times> frame \<times> mem"

definition packet_dst :: "('p, 'q, 'r) Manager \<Rightarrow> frame \<Rightarrow> u32" where
  "packet_dst s f = d_ip (load_ipv4 (memory s) (buf_ptr f + sizeof_ether))"

inductive mac_run :: "iheap \<Rightarrow> (nat \<Rightarrow> int) \<Rightarrow> ('p, 'q, 'r) Manager \<Rightarrow> sent_frame list \<Rightarrow> ('p, 'q, 'r) Manager \<Rightarrow> bool" for h clk s where
  start: "mac_run h clk s [] s"
| call: "mac_run h clk s tr s1 \<Longrightarrow> missingMACs x = missingMACs s1 \<Longrightarrow> ticks s1 \<le> ticks x \<Longrightarrow> iface f AND IFACE_DISCARD = 0 \<Longrightarrow>
    missing_mac h clk f x = Inr (f', s2) \<Longrightarrow>
    mac_run h clk s (if iface f' AND IFACE_DISCARD \<noteq> 0 then tr else tr @ [(packet_dst x f, clk (ticks x), f', memory s2)]) s2"

definition is_request :: "iheap \<Rightarrow> u32 \<Rightarrow> frame \<Rightarrow> mem \<Rightarrow> bool" where
  "is_request h ip f m \<longleftrightarrow> frame_len f = 42 \<and> (\<exists>p front rest. netmapIndex (h p) = ucast (iface f AND IFACE_ID) \<and> IPs (h p) = front # rest \<and>
     load_ether m (buf_ptr f) = request_ether (if_mac (h p)) \<and>
     load_arp m (buf_ptr f + sizeof_ether) = request_arp (if_mac (h p)) (htonl front) ip)"

lemma prepareRequest_is_request:
  assumes "prepareRequest h a ip (iface f AND IFACE_ID) (m, f) = Inr (m', f')"
  shows "is_request h ip f' m' \<and> iface f' = iface f"
proof -
  obtain p front rest where "find_iface h (arp_interfaces a) (ucast (iface f AND IFACE_ID)) = Some p" "IPs (h p) = front # rest"
    "load_ether m' (buf_ptr f) = request_ether (if_mac (h p))"
    "load_arp m' (buf_ptr f + sizeof_ether) = request_arp (if_mac (h p)) (htonl front) ip" "f' = f\<lparr>frame_len := 42\<rparr>"
    by (rule prepareRequest_InrE [OF assms])
  then show ?thesis by (auto simp: is_request_def dest!: find_iface_Some intro!: exI [of _ p])
qed

lemma id_unmarked: "(x AND IFACE_ID) AND IFACE_DISCARD = 0"
  using id_no_flag [of x] flag_test [of "x AND IFACE_ID"] by auto

text \<open>A call either marks the frame, because a request was sent less than half a second ago, or makes it a request.\<close>

lemma missing_mac_cases:
  assumes "missing_mac h clk f x = Inr (f', s')" "iface f AND IFACE_DISCARD = 0"
  obtains (early) mr where "missingMACs x (packet_dst x f) = Some mr" "iface f' AND IFACE_DISCARD \<noteq> 0" "missingMACs s' = missingMACs x"
  | (asked) mr where "iface f' AND IFACE_DISCARD = 0" "is_request h (packet_dst x f) f' (memory s')"
      "\<And>old. missingMACs x (packet_dst x f) = Some old \<Longrightarrow> 500000000 \<le> clk (ticks x) - mr_time old"
      "missingMACs s' = (missingMACs x)(packet_dst x f \<mapsto> mr)" "mr_time mr \<in> {clk (ticks x), clk (Suc (ticks x))}"
proof (cases "missingMACs x (packet_dst x f)")
  case None
  let ?f = "f\<lparr>iface := iface f AND IFACE_ID\<rparr>"
  obtain m where m: "prepareRequest h (arpTable x) (packet_dst x f) (iface ?f AND IFACE_ID) (memory x, ?f) = Inr (m, f')"
    and s': "s' = x\<lparr>ticks := Suc (ticks x), memory := m,
      missingMACs := (missingMACs x)(packet_dst x f \<mapsto> \<lparr>mr_ip = packet_dst x f, mr_iface = iface ?f, mr_time = clk (ticks x)\<rparr>)\<rparr>"
    using assms(1) None by (auto simp: missing_mac_def packet_dst_def clock_now_def Let_def and.assoc elim!: bindE_InrE)
  show thesis using prepareRequest_is_request [OF m] None
    by (intro asked [of "\<lparr>mr_ip = packet_dst x f, mr_iface = iface ?f, mr_time = clk (ticks x)\<rparr>"]) (simp_all add: s' id_unmarked)
next
  case (Some old)
  show thesis
  proof (cases "clk (ticks x) - mr_time old < 500000000")
    case True
    then have "f' = f\<lparr>iface := iface f OR IFACE_DISCARD\<rparr>" "missingMACs s' = missingMACs x"
      using assms(1) Some by (auto simp: missing_mac_def packet_dst_def clock_now_def Let_def)
    moreover have "bit ((iface f OR IFACE_DISCARD) AND IFACE_DISCARD) 15" by (simp add: bit_and_iff bit_or_iff bit_flags)
    then have "(iface f OR IFACE_DISCARD) AND IFACE_DISCARD \<noteq> 0" by auto
    ultimately show thesis using Some by (intro early) simp_all
  next
    case False
    then obtain m where m: "prepareRequest h (arpTable x) (packet_dst x f) (iface f AND IFACE_ID) (memory x, f) = Inr (m, f')"
      and s': "s' = x\<lparr>ticks := Suc (Suc (ticks x)), memory := m,
        missingMACs := (missingMACs x)(packet_dst x f \<mapsto> old\<lparr>mr_time := clk (Suc (ticks x))\<rparr>)\<rparr>"
      using assms(1) Some by (auto simp: missing_mac_def packet_dst_def clock_now_def Let_def elim!: bindE_InrE)
    show thesis using prepareRequest_is_request [OF m] False Some assms(2)
      by (intro asked [of "old\<lparr>mr_time := clk (Suc (ticks x))\<rparr>"]) (simp_all add: s')
  qed
qed

text \<open>The time of the entry of an address is not before that of any request sent for it.\<close>

lemma mac_run_inv:
  assumes "mono clk" "missingMACs s = Map.empty"
  shows "mac_run h clk s tr s' \<Longrightarrow>
    (\<forall>e \<in> set tr. \<exists>mr. missingMACs s' (fst e) = Some mr \<and> fst (snd e) \<le> mr_time mr) \<and> dom (missingMACs s') \<subseteq> fst ` set tr \<and>
    (\<forall>(ip, t, f, m) \<in> set tr. is_request h ip f m) \<and>
    sorted_wrt (\<lambda>d e. fst d = fst e \<longrightarrow> 500000000 \<le> fst (snd e) - fst (snd d)) tr"
proof (induction rule: mac_run.induct)
  case (call tr s1 x f f' s2)
  let ?ip = "packet_dst x f"
  show ?case
  proof (rule missing_mac_cases [OF call.hyps(5,4)], goal_cases early asked)
    case (early mr)
    then show ?thesis using call.IH call.hyps(2) by simp
  next
    case (asked mr)
    have now: "clk (ticks x) \<le> mr_time mr" using asked(5) monoD [OF assms(1), of "ticks x" "Suc (ticks x)"] by auto
    have gap: "500000000 \<le> clk (ticks x) - fst (snd e)" if "e \<in> set tr" "fst e = ?ip" for e
      using call.IH that asked(3) call.hyps(2) by fastforce
    have "\<exists>mr. missingMACs s2 (fst e) = Some mr \<and> fst (snd e) \<le> mr_time mr" if "e \<in> set tr" for e
      using call.IH that gap [OF that] now asked(4) call.hyps(2) by (cases "fst e = ?ip") force+
    moreover have "dom (missingMACs s2) \<subseteq> insert ?ip (fst ` set tr)" using call.IH asked(4) call.hyps(2) by auto
    moreover have "missingMACs s2 ?ip = Some mr" using asked(4) by simp
    ultimately show ?thesis using call.IH gap now asked(1,2) by (simp add: sorted_wrt_append)
  qed
qed (use assms(2) in simp)



text \<open>
  C37: a frame that is marked for the host addresses a ring beyond the last one: the number of the
  host ring is incremented before it is used.
\<close>

theorem tx_host_out_of_bounds:
  assumes "iface f AND IFACE_HOST \<noteq> 0" "iface f AND IFACE_DISCARD = 0" "numWorkers s < 0xFFFFFFFF"
    and "\<And>row. row \<in> set (netmapTxRings s) \<Longrightarrow> length row = unat (numWorkers s) + 1"
  shows "tx_frame nm h th clk f (ringid, s) = Inl OutOfBounds"
proof -
  have n: "unat (numWorkers s + 1) = unat (numWorkers s) + 1"
    using assms(3) unat_add_lem [of "numWorkers s" 1] by (simp add: word_less_nat_alt)
  then have "numWorkers s + 1 \<noteq> numWorkers s" by auto
  moreover have "ring_at (netmapTxRings s) i (unat (numWorkers s + 1)) = Inl OutOfBounds" for i
    using assms(4) n by (auto simp: ring_at_def)
  ultimately show ?thesis using assms(1,2) by (simp add: tx_frame_def tx_flags_def tx_slot_def Let_def)
qed

theorem tx_host_out_of_bounds_witness:
  "tx_frame test_api test_heap (\<lambda>_. test_table) (\<lambda>_. 0) (new_frame\<lparr>iface := IFACE_HOST\<rparr>) (0, test_manager) = Inl OutOfBounds"
  by (rule tx_host_out_of_bounds) (auto simp: test_manager_def iface_flags)

end
