(* ===== verification/ManagerSteps.thy ===== *)
theory ManagerSteps
  imports ManagerBuffers
begin

text \<open>
  \<^verbatim>\<open>Manager::process\<close> (\<^verbatim>\<open>src/manager.cpp\<close>) in single steps, for its interleaving with the other threads. A step ends at the
  next point where the manager touches something it shares: it polls, looks at a ring, moves one buffer from
  a ring into the local burst, hands the burst to the queue of the workers, takes one frame from the queue of treated frames, or puts that frame into
  its ring. The local variables of the function are in the program counter. Shown: no step duplicates a
  buffer, counting those the manager holds in its local variables, and an uninterrupted round is a run of these steps.
\<close>

section \<open>Steps\<close>

text \<open>
  \<open>Poll\<close>: before \<^verbatim>\<open>poll\<close>. \<open>Receive xs\<close>: at the \<^verbatim>\<open>while\<close> loop of the first of the rings \<open>xs\<close> that are left. \<open>Burst x xs n fs\<close>: in the inner loop on
  ring \<open>x\<close>, with the frames \<open>fs\<close> in the local array and \<open>n\<close> still to come. \<open>Transmit ringid\<close>: before \<^verbatim>\<open>try_dequeue\<close>.
  \<open>Send ringid f\<close>: with the frame \<open>f\<close> in hand.
\<close>

datatype man_pc =
    Poll
  | Receive "(nat \<times> nat) list"
  | Burst "nat \<times> nat" "(nat \<times> nat) list" nat "frame list"
  | Transmit u32
  | Send u32 frame

fun man_step ::
    "'r netmap_api \<Rightarrow> ('r ports \<Rightarrow> int \<times> 'r ports) \<Rightarrow> (frame list \<Rightarrow> 'p \<Rightarrow> bool \<times> 'p) \<Rightarrow> ('q \<Rightarrow> (frame \<times> 'q) option) \<Rightarrow>
     iheap \<Rightarrow> rtheap \<Rightarrow> (nat \<Rightarrow> int) \<Rightarrow> man_pc \<times> ('p, 'q, 'r) Manager \<Rightarrow> (man_pc \<times> ('p, 'q, 'r) Manager) result" where
  "man_step nm kpoll enqb deq h th clk (Poll, s) =
     (let (res, rx, tx, m) = kpoll (netmapRxRings s, netmapTxRings s, memory s);
          s = s\<lparr>netmapRxRings := rx, netmapTxRings := tx, memory := m\<rparr> in
      if res < 0 then Inl (Fatal ''poll() failed'')
      else Inr (Receive (List.product [0..<unat (numInterfaces s)] [0..<unat (numWorkers s)]), s))"
| "man_step nm kpoll enqb deq h th clk (Receive [], s) = Inr (Transmit 0, s)"
| "man_step nm kpoll enqb deq h th clk (Receive ((ifc, worker) # xs), s) =
     bindE (ring_at (netmapRxRings s) ifc worker) (\<lambda>ring.
     let numFrames = burst_size nm ring (freeBufs s) in
     if nm_ring_space nm ring = 0 \<or> numFrames = 0 then Inr (Receive xs, s)
     else Inr (Burst (ifc, worker) xs (unat numFrames) [], s\<lparr>statsNumRecv := statsNumRecv s + numFrames\<rparr>))"
| "man_step nm kpoll enqb deq h th clk (Burst (ifc, worker) xs (Suc n) fs, s) =
     bindE (ring_at (netmapRxRings s) ifc worker) (\<lambda>ring.
     bindE (rx_frame nm (of_nat ifc) (fs, ring, freeBufs s)) (\<lambda>(fs, ring, free).
     Inr (Burst (ifc, worker) xs n fs, s\<lparr>freeBufs := free, netmapRxRings := set_ring ifc worker ring (netmapRxRings s)\<rparr>)))"
| "man_step nm kpoll enqb deq h th clk (Burst x xs 0 fs, s) =
     (if inRings s = [] then Inl OutOfBounds
      else Inr (Receive (x # xs), s\<lparr>inRings := (inRings s)[0 := snd (enqb fs (inRings s ! 0))]\<rparr>))"
| "man_step nm kpoll enqb deq h th clk (Transmit ringid, s) =
     (if outRings s = [] then Inl OutOfBounds
      else case deq (outRings s ! 0) of
        None \<Rightarrow> Inr (Poll, s)
      | Some (f, q) \<Rightarrow> Inr (Send ringid f, s\<lparr>outRings := (outRings s)[0 := q]\<rparr>))"
| "man_step nm kpoll enqb deq h th clk (Send ringid f, s) =
     bindE (tx_frame nm h th clk f (ringid, s)) (\<lambda>(ringid, s). Inr (Transmit ringid, s))"

section \<open>Buffers in the hands of the manager\<close>

fun pc_frames :: "man_pc \<Rightarrow> frame list" where
  "pc_frames (Burst x xs n fs) = fs"
| "pc_frames (Send ringid f) = [f]"
| "pc_frames pc = []"

definition hand_bufs ::
    "(addr \<Rightarrow> u32) \<Rightarrow> ('p \<Rightarrow> frame multiset) \<Rightarrow> ('q \<Rightarrow> frame multiset) \<Rightarrow> man_pc \<times> ('p, 'q, 'r) Manager \<Rightarrow> u32 multiset" where
  "hand_bufs idx elemsP elemsQ x = man_bufs idx elemsP elemsQ (snd x) + frame_bufs idx (mset (pc_frames (fst x)))"

lemma burst_step_bufs:
  assumes "api_ok nm idx" "ring_at (netmapRxRings s) i w = Inr r" "rx_frame nm ifc (fs, r, freeBufs s) = Inr (fs', r', free)"
  shows "man_bufs idx elemsP elemsQ (s\<lparr>freeBufs := free, netmapRxRings := set_ring i w r' (netmapRxRings s)\<rparr>) + frame_bufs idx (mset fs') =
    man_bufs idx elemsP elemsQ s + frame_bufs idx (mset fs)"
proof -
  let ?rest = "rings_bufs (netmapTxRings s) + frame_bufs idx (elemsP (inRings s ! 0)) + frame_bufs idx (elemsQ (outRings s ! 0))"
  let ?rs = "set_ring i w r' (netmapRxRings s)"
  have "(mset free + rings_bufs ?rs + ?rest + frame_bufs idx (mset fs')) + ring_bufs r =
      (rings_bufs ?rs + ring_bufs r) + (mset free + ?rest + frame_bufs idx (mset fs'))" by (simp only: ac_simps)
  also have "\<dots> = rings_bufs (netmapRxRings s) + ?rest + (frame_bufs idx (mset fs') + ring_bufs r' + mset free)"
    unfolding rings_bufs_set_ring [OF assms(2)] by (simp only: ac_simps)
  also have "\<dots> = (mset (freeBufs s) + rings_bufs (netmapRxRings s) + ?rest + frame_bufs idx (mset fs)) + ring_bufs r"
    unfolding rx_frame_bufs [OF assms(1,3)] by (simp only: ac_simps)
  finally have "mset free + rings_bufs ?rs + ?rest + frame_bufs idx (mset fs') =
      mset (freeBufs s) + rings_bufs (netmapRxRings s) + ?rest + frame_bufs idx (mset fs)" by (rule add_right_imp_eq)
  then show ?thesis by (simp add: man_bufs_def ac_simps)
qed

lemma man_step_bufs:
  assumes "api_ok nm idx" "enqb_ok enqb elemsP" "deq1_ok deq elemsQ" "poll_ok kpoll"
    and "man_step nm kpoll enqb deq h th clk (pc, s) = Inr x"
  shows "hand_bufs idx elemsP elemsQ x \<subseteq># hand_bufs idx elemsP elemsQ (pc, s)"
proof (cases pc)
  case Poll
  obtain res rx tx m where k: "kpoll (netmapRxRings s, netmapTxRings s, memory s) = (res, rx, tx, m)" by (metis prod_cases4)
  have "rings_bufs rx = rings_bufs (netmapRxRings s) \<and> rings_bufs tx = rings_bufs (netmapTxRings s)"
    using assms(4) [unfolded poll_ok_def, rule_format, of "netmapRxRings s" "netmapTxRings s" "memory s"] k by simp
  with assms(5) Poll k show ?thesis by (auto simp: hand_bufs_def man_bufs_def Let_def split: if_splits)
next
  case (Receive xs)
  then show ?thesis using assms(5)
    by (cases xs) (auto simp: hand_bufs_def man_bufs_def Let_def elim!: bindE_InrE split: if_splits)
next
  case (Burst y xs n fs)
  obtain i w where y: "y = (i, w)" by (cases y)
  show ?thesis
  proof (cases n)
    case 0
    then have ne: "inRings s \<noteq> []" and x: "x = (Receive (y # xs), s\<lparr>inRings := (inRings s)[0 := snd (enqb fs (inRings s ! 0))]\<rparr>)"
      using assms(5) Burst y by (auto split: if_splits)
    have "elemsP (snd (enqb fs (inRings s ! 0))) \<subseteq># elemsP (inRings s ! 0) + mset fs" using assms(2) by (simp add: enqb_ok_def)
    then have "frame_bufs idx (elemsP (snd (enqb fs (inRings s ! 0)))) \<subseteq># frame_bufs idx (elemsP (inRings s ! 0) + mset fs)"
      by (rule image_mset_subseteq_mono)
    then show ?thesis using ne Burst by (simp add: hand_bufs_def x man_bufs_def ac_simps)
  next
    case (Suc k)
    obtain r fs' r' free where r: "ring_at (netmapRxRings s) i w = Inr r" "rx_frame nm (of_nat i) (fs, r, freeBufs s) = Inr (fs', r', free)"
      and x: "x = (Burst y xs k fs', s\<lparr>freeBufs := free, netmapRxRings := set_ring i w r' (netmapRxRings s)\<rparr>)"
      using assms(5) Burst Suc y by (auto elim!: bindE_InrE)
    show ?thesis using burst_step_bufs [OF assms(1) r, of elemsP elemsQ] Burst by (simp add: hand_bufs_def x)
  qed
next
  case (Transmit ringid)
  then show ?thesis using assms(5) deq1_ok_Some [OF assms(3), of "outRings s ! 0"]
    by (auto simp: hand_bufs_def man_bufs_def split: if_splits option.splits)
next
  case (Send ringid f)
  then obtain i s' where t: "tx_frame nm h th clk f (ringid, s) = Inr (i, s')" and x: "x = (Transmit i, s')"
    using assms(5) by (auto elim!: bindE_InrE)
  show ?thesis using tx_frame_bufs [OF assms(1) t, of elemsP elemsQ] Send by (simp add: hand_bufs_def x)
qed

section \<open>A whole round\<close>

inductive man_run for nm kpoll enqb deq h th clk where
  refl: "man_run nm kpoll enqb deq h th clk x x"
| step: "man_step nm kpoll enqb deq h th clk x = Inr y \<Longrightarrow> man_run nm kpoll enqb deq h th clk y z \<Longrightarrow> man_run nm kpoll enqb deq h th clk x z"

lemma man_run_trans:
  "man_run nm kpoll enqb deq h th clk x y \<Longrightarrow> man_run nm kpoll enqb deq h th clk y z \<Longrightarrow> man_run nm kpoll enqb deq h th clk x z"
  by (induction rule: man_run.induct) (auto intro: man_run.step)

lemma set_ring_at:
  assumes "ring_at rs i w = Inr r"
  shows "ring_at (set_ring i w r1 rs) i w = Inr r1" "set_ring i w r2 (set_ring i w r1 rs) = set_ring i w r2 rs" "set_ring i w r rs = rs"
  using assms by (auto simp: ring_at_def set_ring_def split: if_splits)

lemma burst_run:
  assumes "rx_burst nm (of_nat i) n (fs, r, freeBufs s) = Inr (fs', r', free)" "ring_at (netmapRxRings s) i w = Inr r"
  shows "man_run nm kpoll enqb deq h th clk (Burst (i, w) xs n fs, s)
    (Burst (i, w) xs 0 fs', s\<lparr>freeBufs := free, netmapRxRings := set_ring i w r' (netmapRxRings s)\<rparr>)"
  using assms
proof (induction n arbitrary: fs r s)
  case 0
  then have "fs' = fs" "r' = r" "free = freeBufs s" by simp_all
  then show ?case using 0(2) by (simp add: set_ring_at(3) man_run.refl)
next
  case (Suc n)
  obtain fs1 r1 free1 where 1: "rx_frame nm (of_nat i) (fs, r, freeBufs s) = Inr (fs1, r1, free1)"
    and rest: "rx_burst nm (of_nat i) n (fs1, r1, free1) = Inr (fs', r', free)" using Suc.prems(1) by (auto elim!: bindE_InrE)
  let ?s = "s\<lparr>freeBufs := free1, netmapRxRings := set_ring i w r1 (netmapRxRings s)\<rparr>"
  have "man_step nm kpoll enqb deq h th clk (Burst (i, w) xs (Suc n) fs, s) = Inr (Burst (i, w) xs n fs1, ?s)"
    using 1 Suc.prems(2) by simp
  moreover have "man_run nm kpoll enqb deq h th clk (Burst (i, w) xs n fs1, ?s)
      (Burst (i, w) xs 0 fs', ?s\<lparr>freeBufs := free, netmapRxRings := set_ring i w r' (netmapRxRings ?s)\<rparr>)"
    using rest set_ring_at(1) [OF Suc.prems(2)] by (intro Suc.IH [of fs1 r1 ?s]) simp_all
  ultimately show ?case using set_ring_at(2) [OF Suc.prems(2)] by (simp add: man_run.step)
qed

lemma ring_run:
  assumes "rx_ring nm enqb (of_nat i) (statsNumRecv s, inRings s ! 0, r, freeBufs s) = Inr (recv, q, r', free)"
    and "ring_at (netmapRxRings s) i w = Inr r" "inRings s \<noteq> []"
  shows "man_run nm kpoll enqb deq h th clk (Receive ((i, w) # xs), s) (Receive xs, s\<lparr>statsNumRecv := recv, inRings := (inRings s)[0 := q],
    freeBufs := free, netmapRxRings := set_ring i w r' (netmapRxRings s)\<rparr>)"
  using assms
proof (induction "length (freeBufs s)" arbitrary: s r rule: less_induct)
  case less
  let ?n = "burst_size nm r (freeBufs s)"
  show ?case
  proof (cases "nm_ring_space nm r = 0 \<or> ?n = 0")
    case True
    then have "rx_ring nm enqb (of_nat i) (statsNumRecv s, inRings s ! 0, r, freeBufs s) = Inr (statsNumRecv s, inRings s ! 0, r, freeBufs s)"
      by (subst rx_ring.simps) (auto simp: Let_def)
    then have "recv = statsNumRecv s" "q = inRings s ! 0" "r' = r" "free = freeBufs s" using less.prems(1) by auto
    then show ?thesis using True less.prems(2) by (auto simp: set_ring_at(3) Let_def intro!: man_run.step [OF _ man_run.refl])
  next
    case False
    then obtain fs r1 free1 where b: "rx_burst nm (of_nat i) (unat ?n) ([], r, freeBufs s) = Inr (fs, r1, free1)"
      and rest: "rx_ring nm enqb (of_nat i) (statsNumRecv s + ?n, snd (enqb fs (inRings s ! 0)), r1, free1) = Inr (recv, q, r', free)"
      using less.prems(1) by (subst (asm) rx_ring.simps) (auto simp: Let_def split: sum.splits)
    let ?s0 = "s\<lparr>statsNumRecv := statsNumRecv s + ?n\<rparr>"
    let ?s1 = "?s0\<lparr>freeBufs := free1, netmapRxRings := set_ring i w r1 (netmapRxRings s)\<rparr>"
    let ?s2 = "?s1\<lparr>inRings := (inRings s)[0 := snd (enqb fs (inRings s ! 0))]\<rparr>"
    have 1: "man_step nm kpoll enqb deq h th clk (Receive ((i, w) # xs), s) = Inr (Burst (i, w) xs (unat ?n) [], ?s0)"
      using False less.prems(2) by (simp add: Let_def)
    have 2: "man_run nm kpoll enqb deq h th clk (Burst (i, w) xs (unat ?n) [], ?s0) (Burst (i, w) xs 0 fs, ?s1)"
      using burst_run [of nm i "unat ?n" "[]" r ?s0 fs r1 free1 w] b less.prems(2) by simp
    have 3: "man_step nm kpoll enqb deq h th clk (Burst (i, w) xs 0 fs, ?s1) = Inr (Receive ((i, w) # xs), ?s2)" using less.prems(3) by simp
    have "length free1 < length (freeBufs s)" using rx_burst_free [OF b] False unat_gt_0 [of ?n] by linarith
    then have 4: "man_run nm kpoll enqb deq h th clk (Receive ((i, w) # xs), ?s2) (Receive xs, ?s2\<lparr>statsNumRecv := recv,
        inRings := (inRings ?s2)[0 := q], freeBufs := free, netmapRxRings := set_ring i w r' (netmapRxRings ?s2)\<rparr>)"
      using rest set_ring_at(1) [OF less.prems(2)] less.prems(3) by (intro less.hyps [of ?s2 r1]) simp_all
    have "man_run nm kpoll enqb deq h th clk (Receive ((i, w) # xs), s) (Receive xs, ?s2\<lparr>statsNumRecv := recv,
        inRings := (inRings ?s2)[0 := q], freeBufs := free, netmapRxRings := set_ring i w r' (netmapRxRings ?s2)\<rparr>)"
      using 1 man_run_trans [OF 2 man_run.step [OF 3 4]] by (rule man_run.step)
    then show ?thesis using set_ring_at(2) [OF less.prems(2)] by simp
  qed
qed

lemma receive_run:
  "foldE (rx_one nm enqb) xs s = Inr s' \<Longrightarrow> man_run nm kpoll enqb deq h th clk (Receive xs, s) (Receive [], s')"
proof (induction xs arbitrary: s)
  case (Cons y xs)
  obtain i w where y: "y = (i, w)" by (cases y)
  obtain s1 where s1: "rx_one nm enqb y s = Inr s1" and rest: "foldE (rx_one nm enqb) xs s1 = Inr s'"
    using Cons.prems by (auto elim!: bindE_InrE)
  obtain r recv q r' free where "ring_at (netmapRxRings s) i w = Inr r" "inRings s \<noteq> []"
    "rx_ring nm enqb (of_nat i) (statsNumRecv s, inRings s ! 0, r, freeBufs s) = Inr (recv, q, r', free)"
    "s1 = s\<lparr>statsNumRecv := recv, inRings := (inRings s)[0 := q], freeBufs := free, netmapRxRings := set_ring i w r' (netmapRxRings s)\<rparr>"
    using s1 y by (auto simp: rx_one_def elim!: bindE_InrE split: if_splits)
  then have "man_run nm kpoll enqb deq h th clk (Receive (y # xs), s) (Receive xs, s1)" using ring_run y by metis
  then show ?case using man_run_trans Cons.IH [OF rest] by blast
qed (simp add: man_run.refl)

lemma transmit_run:
  "tx_all fuel nm deq h th clk (ringid, s) = Some (Inr s') \<Longrightarrow> man_run nm kpoll enqb deq h th clk (Transmit ringid, s) (Poll, s')"
proof (induction fuel arbitrary: ringid s)
  case (Suc fuel)
  show ?case
  proof (cases "deq (outRings s ! 0)")
    case None
    then have "outRings s \<noteq> []" "s' = s" using Suc.prems by (auto split: if_splits)
    then show ?thesis using None by (auto intro!: man_run.step [OF _ man_run.refl])
  next
    case (Some fq)
    then obtain f q where fq: "deq (outRings s ! 0) = Some (f, q)" by (cases fq) auto
    obtain i s1 where t: "tx_frame nm h th clk f (ringid, s\<lparr>outRings := (outRings s)[0 := q]\<rparr>) = Inr (i, s1)"
      and rest: "tx_all fuel nm deq h th clk (i, s1) = Some (Inr s')" and ne: "outRings s \<noteq> []"
      by (rule tx_all_step [OF Suc.prems fq])
    have "man_step nm kpoll enqb deq h th clk (Transmit ringid, s) = Inr (Send ringid f, s\<lparr>outRings := (outRings s)[0 := q]\<rparr>)"
      using fq ne by simp
    moreover have "man_step nm kpoll enqb deq h th clk (Send ringid f, s\<lparr>outRings := (outRings s)[0 := q]\<rparr>) = Inr (Transmit i, s1)"
      using t by simp
    ultimately show ?thesis using Suc.IH [OF rest] by (blast intro: man_run.step)
  qed
qed simp

text \<open>What \<^verbatim>\<open>process\<close> does when no other thread intervenes is a run of its steps, from one \<^verbatim>\<open>poll\<close> to the next.\<close>

lemma process_is_run:
  assumes "manager_process fuel nm kpoll enqb deq h th clk s = Some (Inr s')"
  shows "man_run nm kpoll enqb deq h th clk (Poll, s) (Poll, s')"
proof -
  obtain res rx tx m where k: "kpoll (netmapRxRings s, netmapTxRings s, memory s) = (res, rx, tx, m)" by (metis prod_cases4)
  let ?s = "s\<lparr>netmapRxRings := rx, netmapTxRings := tx, memory := m\<rparr>"
  obtain s1 where rx: "rx_all nm enqb ?s = Inr s1" and tx: "tx_all fuel nm deq h th clk (0, s1) = Some (Inr s')" and res: "\<not> res < 0"
    using assms k by (auto simp: manager_process_def split: sum.splits if_splits)
  have "man_step nm kpoll enqb deq h th clk (Poll, s) = Inr (Receive (List.product [0..<unat (numInterfaces s)] [0..<unat (numWorkers s)]), ?s)"
    using k res by simp
  moreover have "man_run nm kpoll enqb deq h th clk (Receive (List.product [0..<unat (numInterfaces s)] [0..<unat (numWorkers s)]), ?s) (Receive [], s1)"
    using rx by (intro receive_run) (simp add: rx_all_def)
  moreover have "man_run nm kpoll enqb deq h th clk (Receive [], s1) (Poll, s')"
    using transmit_run [OF tx] by (auto intro: man_run.step)
  ultimately show ?thesis using man_run.step man_run_trans by metis
qed

end
