(* ===== verification/System.thy ===== *)
theory System
  imports WorkerPath ManagerSteps
begin

text \<open>
  The threads of the router together. The manager, the workers and the statistics thread run concurrently and share the two
  queues, the packet memory and the ARP table. A state is the manager's state with its program counter and, for each worker, the
  frames of the batch that are left and the treated frame that is not passed on yet. A step is one step of the manager,
  the fetch of a batch, the treatment of one frame, the enqueueing of a treated frame, or one pass of the
  statistics thread: every access to a queue, every move of a buffer and every treatment of a frame is a step of its own. Any
  interleaving of these is a run. The kernel behind \<^verbatim>\<open>poll\<close> and the clock behave differently in every step.
\<close>

section \<open>Steps\<close>

record ('p, 'q, 'r) env =
  e_nm :: "'r netmap_api"
  e_enqb :: "frame list \<Rightarrow> 'p \<Rightarrow> bool \<times> 'p"
  e_deq :: "nat \<Rightarrow> 'p \<Rightarrow> frame list \<times> 'p"
  e_enq :: "frame \<Rightarrow> 'q \<Rightarrow> bool \<times> 'q"
  e_deq1 :: "'q \<Rightarrow> (frame \<times> 'q) option"
  e_ub :: "u32 \<Rightarrow> nat \<Rightarrow> u32"
  e_heap :: iheap
  e_tables :: rtheap

type_synonym thread = "Worker \<times> frame list \<times> frame option"

record ('p, 'q, 'r) sys =
  s_man :: "('p, 'q, 'r) Manager"
  s_pc :: man_pc
  s_workers :: "thread list"

text \<open>
  The loop of \<^verbatim>\<open>Worker::process\<close> as steps on the shared state: \<^verbatim>\<open>try_dequeue_bulk\<close>, the body of the loop over the batch up to
  \<^verbatim>\<open>try_enqueue\<close>, and \<^verbatim>\<open>try_enqueue\<close>.
\<close>

definition fetch :: "('p, 'q, 'r) env \<Rightarrow> nat \<Rightarrow> ('p, 'q, 'r) sys \<Rightarrow> ('p, 'q, 'r) sys option" where
  "fetch e i s =
     (let (w, batch, out) = s_workers s ! i; (fs, q) = e_deq e WORKER_BULK_SIZE (inRings (s_man s) ! 0);
          s = s\<lparr>s_man := (s_man s)\<lparr>inRings := (inRings (s_man s))[0 := q]\<rparr>\<rparr> in
      if batch \<noteq> [] \<or> out \<noteq> None then None
      else if fs = [] then Some s
      else Some (s\<lparr>s_workers := (s_workers s)[i := (w\<lparr>statsNumBatches := statsNumBatches w + 1,
          statsNumFrames := statsNumFrames w + of_nat (length fs)\<rparr>, fs, None)]\<rparr>))"

definition treat :: "('p, 'q, 'r) env \<Rightarrow> nat \<Rightarrow> ('p, 'q, 'r) sys \<Rightarrow> ('p, 'q, 'r) sys option" where
  "treat e i s =
     (case s_workers s ! i of
        (w, f # fs, None) \<Rightarrow>
          let w = w\<lparr>statsNumBytes := statsNumBytes w + ucast (frame_len f)\<rparr> in
          (case process_frame (e_ub e) (e_heap e) (arpTable (s_man s)) w (memory (s_man s)) f of
             Inl _ \<Rightarrow> None
           | Inr (m, f, out) \<Rightarrow>
               Some (s\<lparr>s_man := (s_man s)\<lparr>memory := m\<rparr>, s_workers := (s_workers s)[i := (w, fs, if out then Some f else None)]\<rparr>))
      | _ \<Rightarrow> None)"

definition pass :: "('p, 'q, 'r) env \<Rightarrow> nat \<Rightarrow> ('p, 'q, 'r) sys \<Rightarrow> ('p, 'q, 'r) sys option" where
  "pass e i s =
     (case s_workers s ! i of
        (w, fs, Some f) \<Rightarrow>
          Some (s\<lparr>s_man := (s_man s)\<lparr>outRings := (outRings (s_man s))[0 := snd (e_enq e f (outRings (s_man s) ! 0))]\<rparr>,
            s_workers := (s_workers s)[i := (w, fs, None)]\<rparr>)
      | _ \<Rightarrow> None)"

text \<open>The whole body of that loop, which a worker that is not interrupted executes as one.\<close>

definition work :: "('p, 'q, 'r) env \<Rightarrow> nat \<Rightarrow> ('p, 'q, 'r) sys \<Rightarrow> ('p, 'q, 'r) sys option" where
  "work e i s =
     (case s_workers s ! i of
        (w, f # fs, None) \<Rightarrow>
          (case process_one (e_ub e) (e_enq e) (e_heap e) (arpTable (s_man s)) f (w, memory (s_man s), outRings (s_man s) ! 0) of
            Inl _ \<Rightarrow> None
          | Inr (w, m, q) \<Rightarrow>
              Some (s\<lparr>s_man := (s_man s)\<lparr>memory := m, outRings := (outRings (s_man s))[0 := q]\<rparr>,
                s_workers := (s_workers s)[i := (w, fs, None)]\<rparr>))
      | _ \<Rightarrow> None)"

definition clear_stats :: "('p, 'q, 'r) sys \<Rightarrow> ('p, 'q, 'r) sys" where
  "clear_stats s = s\<lparr>s_man := snd (manager_print_stats (s_man s)),
     s_workers := map (\<lambda>(w, fs). (snd (printAndClearStats w), fs)) (s_workers s)\<rparr>"

inductive sys_step :: "('p, 'q, 'r) env \<Rightarrow> ('p, 'q, 'r) sys \<Rightarrow> ('p, 'q, 'r) sys \<Rightarrow> bool" for e where
  manager: "poll_ok kpoll \<Longrightarrow>
    man_step (e_nm e) kpoll (e_enqb e) (e_deq1 e) (e_heap e) (e_tables e) clk (s_pc s, s_man s) = Inr (pc, m) \<Longrightarrow>
    sys_step e s (s\<lparr>s_pc := pc, s_man := m\<rparr>)"
| fetch: "i < length (s_workers s) \<Longrightarrow> inRings (s_man s) \<noteq> [] \<Longrightarrow> fetch e i s = Some s' \<Longrightarrow> sys_step e s s'"
| treat: "i < length (s_workers s) \<Longrightarrow> treat e i s = Some s' \<Longrightarrow> sys_step e s s'"
| pass: "i < length (s_workers s) \<Longrightarrow> outRings (s_man s) \<noteq> [] \<Longrightarrow> pass e i s = Some s' \<Longrightarrow> sys_step e s s'"
| stats: "sys_step e s (clear_stats s)"

inductive reaches :: "('p, 'q, 'r) env \<Rightarrow> ('p, 'q, 'r) sys \<Rightarrow> ('p, 'q, 'r) sys \<Rightarrow> bool" for e where
  refl: "reaches e s s"
| step: "reaches e s s' \<Longrightarrow> sys_step e s' s'' \<Longrightarrow> reaches e s s''"

lemma reaches_trans: "reaches e s' s'' \<Longrightarrow> reaches e s s' \<Longrightarrow> reaches e s s''"
  by (induction rule: reaches.induct) (auto intro: reaches.step)

text \<open>Uninterrupted pieces of the threads are runs.\<close>

lemma treat_Some:
  "treat e i s = Some s' \<longleftrightarrow> (\<exists>w f fs m f' out. s_workers s ! i = (w, f # fs, None) \<and>
     process_frame (e_ub e) (e_heap e) (arpTable (s_man s)) (w\<lparr>statsNumBytes := statsNumBytes w + ucast (frame_len f)\<rparr>) (memory (s_man s)) f =
       Inr (m, f', out) \<and>
     s' = s\<lparr>s_man := (s_man s)\<lparr>memory := m\<rparr>, s_workers := (s_workers s)[i :=
       (w\<lparr>statsNumBytes := statsNumBytes w + ucast (frame_len f)\<rparr>, fs, if out then Some f' else None)]\<rparr>)"
proof (cases "\<exists>w f fs. s_workers s ! i = (w, f # fs, None)")
  case True
  then obtain w f fs where w: "s_workers s ! i = (w, f # fs, None)" by blast
  show ?thesis
    by (cases "process_frame (e_ub e) (e_heap e) (arpTable (s_man s)) (w\<lparr>statsNumBytes := statsNumBytes w + ucast (frame_len f)\<rparr>) (memory (s_man s)) f")
      (auto simp: treat_def w Let_def split del: if_split)
next
  case False
  then show ?thesis by (auto simp: treat_def split: prod.splits list.splits option.splits)
qed

lemma pass_Some:
  "pass e i s = Some s' \<longleftrightarrow> (\<exists>w fs f. s_workers s ! i = (w, fs, Some f) \<and>
     s' = s\<lparr>s_man := (s_man s)\<lparr>outRings := (outRings (s_man s))[0 := snd (e_enq e f (outRings (s_man s) ! 0))]\<rparr>,
       s_workers := (s_workers s)[i := (w, fs, None)]\<rparr>)"
  unfolding pass_def by (auto split: prod.splits option.splits)

lemma work_Some:
  "work e i s = Some s' \<longleftrightarrow> (\<exists>w f fs w' m' q'. s_workers s ! i = (w, f # fs, None) \<and>
     process_one (e_ub e) (e_enq e) (e_heap e) (arpTable (s_man s)) f (w, memory (s_man s), outRings (s_man s) ! 0) = Inr (w', m', q') \<and>
     s' = s\<lparr>s_man := (s_man s)\<lparr>memory := m', outRings := (outRings (s_man s))[0 := q']\<rparr>, s_workers := (s_workers s)[i := (w', fs, None)]\<rparr>)"
  unfolding work_def by (auto split: prod.splits list.splits option.splits sum.splits)

lemma process_one_Inr:
  "process_one ub enq h a f (w, m, q) = Inr (w', m', q') \<longleftrightarrow> w' = w\<lparr>statsNumBytes := statsNumBytes w + ucast (frame_len f)\<rparr> \<and>
     (\<exists>f' out. process_frame ub h a w' m f = Inr (m', f', out) \<and> q' = (if out then snd (enq f' q) else q))"
  by (auto simp: process_one_def Let_def bindE_Inr_iff)

lemma work_is_run:
  assumes "i < length (s_workers s)" "outRings (s_man s) \<noteq> []" "work e i s = Some s'"
  shows "reaches e s s'"
proof -
  obtain w f fs w' m f' out where w: "s_workers s ! i = (w, f # fs, None)" "w' = w\<lparr>statsNumBytes := statsNumBytes w + ucast (frame_len f)\<rparr>"
      "process_frame (e_ub e) (e_heap e) (arpTable (s_man s)) w' (memory (s_man s)) f = Inr (m, f', out)"
    and s': "s' = s\<lparr>s_man := (s_man s)\<lparr>memory := m, outRings := (outRings (s_man s))[0 := if out then snd (e_enq e f' (outRings (s_man s) ! 0)) else outRings (s_man s) ! 0]\<rparr>,
      s_workers := (s_workers s)[i := (w', fs, None)]\<rparr>"
    using assms(3) unfolding work_Some process_one_Inr by blast
  let ?s = "s\<lparr>s_man := (s_man s)\<lparr>memory := m\<rparr>, s_workers := (s_workers s)[i := (w', fs, if out then Some f' else None)]\<rparr>"
  have "treat e i s = Some ?s" unfolding treat_Some using w by blast
  then have 1: "reaches e s ?s" using assms(1) by (intro reaches.step [OF reaches.refl] sys_step.treat)
  show ?thesis
  proof (cases out)
    case True
    then have "pass e i ?s = Some s'" using assms(1) unfolding pass_Some s' by simp
    then have "sys_step e ?s s'" using assms(1,2) by (intro sys_step.pass [of i]) simp_all
    with 1 show ?thesis by (rule reaches.step)
  next
    case False
    then show ?thesis using 1 list_update_id [of "outRings (s_man s)" 0] by (simp add: s')
  qed
qed

lemma man_run_reaches:
  assumes "poll_ok kpoll"
  shows "man_run (e_nm e) kpoll (e_enqb e) (e_deq1 e) (e_heap e) (e_tables e) clk x y \<Longrightarrow> s_pc s = fst x \<Longrightarrow> s_man s = snd x \<Longrightarrow>
    reaches e s (s\<lparr>s_pc := fst y, s_man := snd y\<rparr>)"
proof (induction arbitrary: s rule: man_run.induct)
  case (refl x)
  then have "s\<lparr>s_pc := fst x, s_man := snd x\<rparr> = s" by (cases s) simp
  then show ?case by (simp add: reaches.refl)
next
  case (step x y z)
  let ?s = "s\<lparr>s_pc := fst y, s_man := snd y\<rparr>"
  have "sys_step e s ?s" using step.hyps(1) step.prems by (intro sys_step.manager [OF assms]) simp
  then have "reaches e s ?s" by (rule reaches.step [OF reaches.refl])
  moreover have "reaches e ?s (?s\<lparr>s_pc := fst z, s_man := snd z\<rparr>)" by (rule step.IH) simp_all
  ultimately show ?case using reaches_trans by fastforce
qed

lemma manager_round_is_run:
  assumes "poll_ok kpoll" "s_pc s = Poll"
    and "manager_process fuel (e_nm e) kpoll (e_enqb e) (e_deq1 e) (e_heap e) (e_tables e) clk (s_man s) = Some (Inr m)"
  shows "reaches e s (s\<lparr>s_man := m\<rparr>)"
proof -
  have "reaches e s (s\<lparr>s_pc := Poll, s_man := m\<rparr>)"
    using man_run_reaches [OF assms(1) process_is_run [OF assms(3)], of s] assms(2) by simp
  moreover have "s\<lparr>s_pc := Poll, s_man := m\<rparr> = s\<lparr>s_man := m\<rparr>" using assms(2) by (cases s) simp
  ultimately show ?thesis by simp
qed

section \<open>Owners of buffers\<close>

text \<open>
  The frames a thread holds: the manager those in its local variables, a worker the rest of its batch and the frame it has
  treated. All buffers of the system are those of the rings, the queues and the free list and those in the hands
  of the threads.
\<close>

definition held :: "thread \<Rightarrow> frame list" where
  "held x = (case x of (w, fs, out) \<Rightarrow> fs @ (case out of None \<Rightarrow> [] | Some f \<Rightarrow> [f]))"

definition batch_bufs :: "(addr \<Rightarrow> u32) \<Rightarrow> thread \<Rightarrow> u32 multiset" where
  "batch_bufs idx x = frame_bufs idx (mset (held x))"

definition pc_bufs :: "(addr \<Rightarrow> u32) \<Rightarrow> man_pc \<Rightarrow> u32 multiset" where
  "pc_bufs idx pc = frame_bufs idx (mset (pc_frames pc))"

definition sys_bufs :: "(addr \<Rightarrow> u32) \<Rightarrow> ('p \<Rightarrow> frame multiset) \<Rightarrow> ('q \<Rightarrow> frame multiset) \<Rightarrow> ('p, 'q, 'r) sys \<Rightarrow> u32 multiset" where
  "sys_bufs idx elemsP elemsQ s = man_bufs idx elemsP elemsQ (s_man s) + pc_bufs idx (s_pc s) + (\<Sum>x\<leftarrow>s_workers s. batch_bufs idx x)"

text \<open>What the threads rely on of netmap and of the concurrent queues.\<close>

definition env_ok :: "('p, 'q, 'r) env \<Rightarrow> (addr \<Rightarrow> u32) \<Rightarrow> ('p \<Rightarrow> frame multiset) \<Rightarrow> ('q \<Rightarrow> frame multiset) \<Rightarrow> bool" where
  "env_ok e idx elemsP elemsQ \<longleftrightarrow> api_ok (e_nm e) idx \<and> enqb_ok (e_enqb e) elemsP \<and> deq1_ok (e_deq1 e) elemsQ \<and>
     deq_ok (e_deq e) elemsP \<and> enq_ok (e_enq e) elemsQ"

lemma workers_update:
  assumes "i < length ws"
  shows "(\<Sum>x\<leftarrow>ws[i := y]. batch_bufs idx x) + batch_bufs idx (ws ! i) = (\<Sum>x\<leftarrow>ws. batch_bufs idx x) + batch_bufs idx y"
  using sum_list_update_add [of i "map (batch_bufs idx) ws" "batch_bufs idx y"] assms by (simp add: map_update)

lemma process_frame_buf: "process_frame ub h a w m f = Inr (m', f', out) \<Longrightarrow> buf_ptr f' = buf_ptr f"
  by (auto simp: process_frame_def Let_def bindE_Inr_iff dest!: forward_footprint split: option.splits if_splits prod.splits)

lemma fetch_bufs:
  assumes "env_ok e idx elemsP elemsQ" "i < length (s_workers s)" "inRings (s_man s) \<noteq> []" "fetch e i s = Some s'"
  shows "sys_bufs idx elemsP elemsQ s' = sys_bufs idx elemsP elemsQ s"
proof -
  let ?m = "s_man s" and ?ws = "s_workers s"
  obtain w where w: "?ws ! i = (w, [], None)" using assms(4) by (cases "?ws ! i") (auto simp: fetch_def Let_def split: prod.splits if_splits)
  obtain fs q where d: "e_deq e WORKER_BULK_SIZE (inRings ?m ! 0) = (fs, q)" by (cases "e_deq e WORKER_BULK_SIZE (inRings ?m ! 0)")
  have s': "\<exists>w'. s' = s\<lparr>s_man := ?m\<lparr>inRings := (inRings ?m)[0 := q]\<rparr>, s_workers := ?ws[i := (w', fs, None)]\<rparr>"
  proof (cases "fs = []")
    case True
    then have "s' = s\<lparr>s_man := ?m\<lparr>inRings := (inRings ?m)[0 := q]\<rparr>, s_workers := ?ws[i := (w, fs, None)]\<rparr>"
      using assms(4) w d list_update_id [of ?ws i] by (cases s) (auto simp: fetch_def Let_def)
    then show ?thesis ..
  qed (use assms(4) w d in \<open>auto simp: fetch_def Let_def\<close>)
  then obtain w' where s': "s' = s\<lparr>s_man := ?m\<lparr>inRings := (inRings ?m)[0 := q]\<rparr>, s_workers := ?ws[i := (w', fs, None)]\<rparr>" ..
  have "deq_ok (e_deq e) elemsP" using assms(1) by (simp add: env_ok_def)
  then have e: "elemsP (inRings ?m ! 0) = mset fs + elemsP q"
    using d unfolding deq_ok_def by (metis fst_conv snd_conv)
  have M: "man_bufs idx elemsP elemsQ (s_man s') + frame_bufs idx (mset fs) = man_bufs idx elemsP elemsQ ?m"
    using assms(3) by (simp add: man_bufs_def s' e ac_simps)
  have W: "(\<Sum>x\<leftarrow>s_workers s'. batch_bufs idx x) = (\<Sum>x\<leftarrow>?ws. batch_bufs idx x) + frame_bufs idx (mset fs)"
    using workers_update [OF assms(2), where y = "(w', fs, None)" and idx = idx] w by (simp add: s' batch_bufs_def held_def)
  have "s_pc s' = s_pc s" by (simp add: s')
  then show ?thesis unfolding sys_bufs_def W M [symmetric] by (simp only: ac_simps)
qed

lemma worker_hand_bufs:
  assumes "i < length ws" "batch_bufs idx y + L = batch_bufs idx (ws ! i)"
  shows "(\<Sum>x\<leftarrow>ws[i := y]. batch_bufs idx x) + L = (\<Sum>x\<leftarrow>ws. batch_bufs idx x)"
proof -
  have "(\<Sum>x\<leftarrow>ws[i := y]. batch_bufs idx x) + L + batch_bufs idx y = (\<Sum>x\<leftarrow>ws. batch_bufs idx x) + batch_bufs idx y"
    using workers_update [OF assms(1), where y = y and idx = idx] unfolding assms(2) [symmetric] by (simp only: ac_simps)
  then show ?thesis by (rule add_right_imp_eq)
qed

lemma treat_bufs:
  assumes "i < length (s_workers s)" "treat e i s = Some s'"
  shows "sys_bufs idx elemsP elemsQ s' \<subseteq># sys_bufs idx elemsP elemsQ s"
proof -
  obtain w f fs w' m f' out where w: "s_workers s ! i = (w, f # fs, None)"
    and p: "process_frame (e_ub e) (e_heap e) (arpTable (s_man s)) w' (memory (s_man s)) f = Inr (m, f', out)"
    and s': "s' = s\<lparr>s_man := (s_man s)\<lparr>memory := m\<rparr>, s_workers := (s_workers s)[i := (w', fs, if out then Some f' else None)]\<rparr>"
    using assms(2) unfolding treat_Some by blast
  let ?y = "(w', fs, if out then Some f' else None)" and ?L = "if out then {#} else {#idx (buf_ptr f)#}"
  have "batch_bufs idx ?y + ?L = batch_bufs idx (s_workers s ! i)"
    using w process_frame_buf [OF p] by (simp add: batch_bufs_def held_def)
  from worker_hand_bufs [OF assms(1) this] have W: "(\<Sum>x\<leftarrow>s_workers s'. batch_bufs idx x) + ?L = (\<Sum>x\<leftarrow>s_workers s. batch_bufs idx x)"
    by (simp add: s')
  have M: "man_bufs idx elemsP elemsQ (s_man s') = man_bufs idx elemsP elemsQ (s_man s)" "s_pc s' = s_pc s" by (simp_all add: s' man_bufs_def)
  show ?thesis unfolding sys_bufs_def W [symmetric] M by simp
qed

lemma pass_bufs:
  assumes "env_ok e idx elemsP elemsQ" "i < length (s_workers s)" "outRings (s_man s) \<noteq> []" "pass e i s = Some s'"
  shows "sys_bufs idx elemsP elemsQ s' \<subseteq># sys_bufs idx elemsP elemsQ s"
proof -
  let ?m = "s_man s" and ?q = "\<lambda>f. snd (e_enq e f (outRings (s_man s) ! 0))"
  obtain w fs f where w: "s_workers s ! i = (w, fs, Some f)"
    and s': "s' = s\<lparr>s_man := ?m\<lparr>outRings := (outRings ?m)[0 := ?q f]\<rparr>, s_workers := (s_workers s)[i := (w, fs, None)]\<rparr>"
    using assms(4) unfolding pass_Some by blast
  let ?b = "{#idx (buf_ptr f)#}"
  have "batch_bufs idx (w, fs, None) + ?b = batch_bufs idx (s_workers s ! i)" using w by (simp add: batch_bufs_def held_def)
  from worker_hand_bufs [OF assms(2) this] have W: "(\<Sum>x\<leftarrow>s_workers s'. batch_bufs idx x) + ?b = (\<Sum>x\<leftarrow>s_workers s. batch_bufs idx x)"
    by (simp add: s')
  have "enq_ok (e_enq e) elemsQ" using assms(1) by (simp add: env_ok_def)
  then have "frame_bufs idx (elemsQ (?q f)) \<subseteq># frame_bufs idx (elemsQ (outRings ?m ! 0)) + ?b" by (simp add: enq_ok_def)
  then have M: "man_bufs idx elemsP elemsQ (s_man s') \<subseteq># man_bufs idx elemsP elemsQ ?m + ?b"
    using assms(3) by (simp add: man_bufs_def s')
  have "man_bufs idx elemsP elemsQ (s_man s') + (pc_bufs idx (s_pc s) + (\<Sum>x\<leftarrow>s_workers s'. batch_bufs idx x)) \<subseteq>#
      (man_bufs idx elemsP elemsQ ?m + ?b) + (pc_bufs idx (s_pc s) + (\<Sum>x\<leftarrow>s_workers s'. batch_bufs idx x))"
    using M by (rule mset_subset_eq_mono_add) simp
  moreover have "s_pc s' = s_pc s" by (simp add: s')
  ultimately show ?thesis unfolding sys_bufs_def W [symmetric] by (simp only: ac_simps)
qed

lemma clear_stats_bufs: "sys_bufs idx elemsP elemsQ (clear_stats s) = sys_bufs idx elemsP elemsQ s"
  by (simp add: sys_bufs_def clear_stats_def man_bufs_def manager_print_stats_def batch_bufs_def held_def o_def case_prod_beta)

lemma sys_step_bufs:
  assumes "env_ok e idx elemsP elemsQ" "sys_step e s s'"
  shows "sys_bufs idx elemsP elemsQ s' \<subseteq># sys_bufs idx elemsP elemsQ s"
  using assms(2)
proof cases
  case (manager kpoll clk pc m)
  have ok: "api_ok (e_nm e) idx" "enqb_ok (e_enqb e) elemsP" "deq1_ok (e_deq1 e) elemsQ" using assms(1) by (simp_all add: env_ok_def)
  have "man_bufs idx elemsP elemsQ m + pc_bufs idx pc \<subseteq># man_bufs idx elemsP elemsQ (s_man s) + pc_bufs idx (s_pc s)"
    using man_step_bufs [OF ok manager(2,3)] by (simp add: hand_bufs_def pc_bufs_def)
  then show ?thesis by (simp add: manager(1) sys_bufs_def)
next
  case (fetch i)
  then show ?thesis using fetch_bufs [OF assms(1)] by simp
next
  case (treat i)
  then show ?thesis using treat_bufs by blast
next
  case (pass i)
  then show ?thesis using pass_bufs [OF assms(1)] by simp
next
  case stats
  then show ?thesis by (simp add: clear_stats_bufs)
qed

lemma reaches_bufs:
  assumes "env_ok e idx elemsP elemsQ"
  shows "reaches e s s' \<Longrightarrow> sys_bufs idx elemsP elemsQ s' \<subseteq># sys_bufs idx elemsP elemsQ s"
proof (induction rule: reaches.induct)
  case (step s s' s'')
  show ?case using sys_step_bufs [OF assms step.hyps(2)] step.IH by (rule subset_mset.order_trans)
qed simp

section \<open>Exclusive ownership\<close>

lemma count_batch_le:
  assumes "i < length ws"
  shows "count (batch_bufs idx (ws ! i)) b \<le> count (\<Sum>x\<leftarrow>ws. batch_bufs idx x) b"
  using workers_update [OF assms, where y = "(undefined, [], None)" and idx = idx]
  by (simp add: batch_bufs_def [of idx "(undefined, [], None)"] held_def) (metis count_union le_add2)

lemma count_two_batches_le:
  assumes "i < length ws" "j < length ws" "i \<noteq> j"
  shows "count (batch_bufs idx (ws ! i)) b + count (batch_bufs idx (ws ! j)) b \<le> count (\<Sum>x\<leftarrow>ws. batch_bufs idx x) b"
proof -
  let ?ws = "ws[i := (undefined, [], None)]"
  have "(\<Sum>x\<leftarrow>ws. batch_bufs idx x) = (\<Sum>x\<leftarrow>?ws. batch_bufs idx x) + batch_bufs idx (ws ! i)"
    using workers_update [OF assms(1), where y = "(undefined, [], None)" and idx = idx] by (simp add: batch_bufs_def [of idx "(undefined, [], None)"] held_def)
  moreover have "count (batch_bufs idx (?ws ! j)) b \<le> count (\<Sum>x\<leftarrow>?ws. batch_bufs idx x) b"
    by (rule count_batch_le) (simp add: assms(2))
  ultimately show ?thesis using assms(3) by simp
qed

lemma hands_exclusive:
  assumes "env_ok e idx elemsP elemsQ" "reaches e s s'" "\<forall>b. count (sys_bufs idx elemsP elemsQ s) b \<le> 1"
  shows "set_mset (pc_bufs idx (s_pc s')) \<inter> set_mset (man_bufs idx elemsP elemsQ (s_man s')) = {}"
    and "i < length (s_workers s') \<Longrightarrow> set_mset (batch_bufs idx (s_workers s' ! i)) \<inter>
      (set_mset (man_bufs idx elemsP elemsQ (s_man s')) \<union> set_mset (pc_bufs idx (s_pc s'))) = {}"
    and "i < length (s_workers s') \<Longrightarrow> j < length (s_workers s') \<Longrightarrow> i \<noteq> j \<Longrightarrow>
      set_mset (batch_bufs idx (s_workers s' ! i)) \<inter> set_mset (batch_bufs idx (s_workers s' ! j)) = {}"
proof -
  have one: "count (man_bufs idx elemsP elemsQ (s_man s')) b + count (pc_bufs idx (s_pc s')) b + count (\<Sum>x\<leftarrow>s_workers s'. batch_bufs idx x) b \<le> 1" for b
    using mset_subset_eq_count [OF reaches_bufs [OF assms(1,2)], of b] assms(3) [rule_format, of b] by (simp add: sys_bufs_def)
  have disj: "set_mset A \<inter> set_mset B = {}" if "\<And>b. count A b + count B b \<le> 1" for A B :: "u32 multiset"
  proof (rule ccontr)
    assume "set_mset A \<inter> set_mset B \<noteq> {}"
    then obtain b where "0 < count A b" "0 < count B b" by auto
    then show False using that [of b] by linarith
  qed
  show "set_mset (pc_bufs idx (s_pc s')) \<inter> set_mset (man_bufs idx elemsP elemsQ (s_man s')) = {}"
    using one by (intro disj) (metis add.commute add_leD1)
  show "set_mset (batch_bufs idx (s_workers s' ! i)) \<inter> (set_mset (man_bufs idx elemsP elemsQ (s_man s')) \<union> set_mset (pc_bufs idx (s_pc s'))) = {}"
    if i: "i < length (s_workers s')"
  proof -
    have "count (batch_bufs idx (s_workers s' ! i)) b + count (man_bufs idx elemsP elemsQ (s_man s')) b \<le> 1"
      "count (batch_bufs idx (s_workers s' ! i)) b + count (pc_bufs idx (s_pc s')) b \<le> 1" for b
      using one [of b] count_batch_le [OF i, of idx b] by linarith+
    then show ?thesis using disj by blast
  qed
  show "set_mset (batch_bufs idx (s_workers s' ! i)) \<inter> set_mset (batch_bufs idx (s_workers s' ! j)) = {}"
    if "i < length (s_workers s')" "j < length (s_workers s')" "i \<noteq> j"
  proof (rule disj)
    fix b
    show "count (batch_bufs idx (s_workers s' ! i)) b + count (batch_bufs idx (s_workers s' ! j)) b \<le> 1"
      using one [of b] count_two_batches_le [OF that, of idx b] by linarith
  qed
qed

text \<open>
  C5: In every run of the router, however the steps of its threads are interleaved and whatever the kernel does behind \<^verbatim>\<open>poll\<close>, a packet
  buffer has at most one owner, if this was so at the start. Owners are the rings, the queues and the free list, the manager for the frames of the burst it
  is collecting or the frame it is sending, and each worker for the frames of its batch and the one it has treated. So no buffer is in the
  hands of a thread while it is in a ring, in a queue or in the free list, the manager and a worker never hold the same buffer, and
  neither do two workers. Buffers are never made up.
\<close>

theorem buffers_have_one_owner:
  assumes "env_ok e idx elemsP elemsQ" "reaches e s s'" "\<forall>b. count (sys_bufs idx elemsP elemsQ s) b \<le> 1"
  shows "sys_bufs idx elemsP elemsQ s' \<subseteq># sys_bufs idx elemsP elemsQ s \<and>
    (\<forall>b. count (sys_bufs idx elemsP elemsQ s') b \<le> 1) \<and>
    set_mset (pc_bufs idx (s_pc s')) \<inter> set_mset (man_bufs idx elemsP elemsQ (s_man s')) = {} \<and>
    (\<forall>i < length (s_workers s'). set_mset (batch_bufs idx (s_workers s' ! i)) \<inter>
      (set_mset (man_bufs idx elemsP elemsQ (s_man s')) \<union> set_mset (pc_bufs idx (s_pc s'))) = {}) \<and>
    (\<forall>i < length (s_workers s'). \<forall>j < length (s_workers s'). i \<noteq> j \<longrightarrow>
      set_mset (batch_bufs idx (s_workers s' ! i)) \<inter> set_mset (batch_bufs idx (s_workers s' ! j)) = {})"
proof -
  have sub: "sys_bufs idx elemsP elemsQ s' \<subseteq># sys_bufs idx elemsP elemsQ s" by (rule reaches_bufs [OF assms(1,2)])
  have "\<forall>b. count (sys_bufs idx elemsP elemsQ s') b \<le> 1" using assms(3) mset_subset_eq_count [OF sub] le_trans by blast
  with sub show ?thesis using hands_exclusive [OF assms] by blast
qed

section \<open>Whole rounds of a worker\<close>

lemma batch_steps:
  assumes "i < length (s_workers s)" "outRings (s_man s) \<noteq> []" "s_workers s ! i = (w, fs, None)"
    and "foldE (process_one (e_ub e) (e_enq e) (e_heap e) (arpTable (s_man s))) fs (w, memory (s_man s), outRings (s_man s) ! 0) = Inr (w', m', q')"
  shows "reaches e s (s\<lparr>s_man := (s_man s)\<lparr>memory := m', outRings := (outRings (s_man s))[0 := q']\<rparr>,
    s_workers := (s_workers s)[i := (w', [], None)]\<rparr>)"
  using assms
proof (induction fs arbitrary: s w)
  case Nil
  then have "(s_workers s)[i := (w', [], None)] = s_workers s" "(outRings (s_man s))[0 := q'] = outRings (s_man s)" "m' = memory (s_man s)"
    using list_update_id [of "s_workers s" i] list_update_id [of "outRings (s_man s)" 0] by auto
  then show ?case by (simp add: reaches.refl)
next
  case (Cons f fs)
  let ?m = "s_man s"
  obtain w1 m1 q1 where p: "process_one (e_ub e) (e_enq e) (e_heap e) (arpTable ?m) f (w, memory ?m, outRings ?m ! 0) = Inr (w1, m1, q1)"
    and rest: "foldE (process_one (e_ub e) (e_enq e) (e_heap e) (arpTable ?m)) fs (w1, m1, q1) = Inr (w', m', q')"
    using Cons.prems(4) by (auto simp: bindE_Inr_iff)
  let ?s = "s\<lparr>s_man := ?m\<lparr>memory := m1, outRings := (outRings ?m)[0 := q1]\<rparr>, s_workers := (s_workers s)[i := (w1, fs, None)]\<rparr>"
  have "work e i s = Some ?s" using Cons.prems(3) p by (simp add: work_def)
  then have "reaches e s ?s" using Cons.prems(1,2) by (intro work_is_run)
  moreover have "reaches e ?s (?s\<lparr>s_man := (s_man ?s)\<lparr>memory := m', outRings := (outRings (s_man ?s))[0 := q']\<rparr>,
      s_workers := (s_workers ?s)[i := (w', [], None)]\<rparr>)"
    using Cons.prems(1,2) rest by (intro Cons.IH [of ?s w1]) simp_all
  ultimately show ?case using reaches_trans by fastforce
qed

text \<open>
  A worker's round of \<^verbatim>\<open>process\<close> that is not interrupted is a run of the interleaved system: what holds of all runs holds of the
  rounds as the code composes them.
\<close>

lemma worker_round_is_run:
  assumes "i < length (s_workers s)" "inRings (s_man s) \<noteq> []" "outRings (s_man s) \<noteq> []" "s_workers s ! i = (w, [], None)"
    and "process fuel (e_ub e) (e_deq e) (e_enq e) (e_heap e) (arpTable (s_man s))
      (w, memory (s_man s), inRings (s_man s) ! 0, outRings (s_man s) ! 0) = Some (Inr (w', m', inq, outq))"
  shows "reaches e s (s\<lparr>s_man := (s_man s)\<lparr>inRings := (inRings (s_man s))[0 := inq], outRings := (outRings (s_man s))[0 := outq], memory := m'\<rparr>,
    s_workers := (s_workers s)[i := (w', [], None)]\<rparr>)"
  using assms
proof (induction fuel arbitrary: s w)
  case (Suc fuel)
  let ?m = "s_man s" and ?ws = "s_workers s"
  obtain fs q where d: "e_deq e WORKER_BULK_SIZE (inRings ?m ! 0) = (fs, q)" by (cases "e_deq e WORKER_BULK_SIZE (inRings ?m ! 0)")
  have step: "reaches e s s1" if "fetch e i s = Some s1" for s1
    using that Suc.prems(1,2) by (intro reaches.step [OF reaches.refl] sys_step.fetch)
  show ?case
  proof (cases "fs = []")
    case True
    then have "w' = w" "m' = memory ?m" "inq = q" "outq = outRings ?m ! 0" using Suc.prems(5) d by auto
    moreover have "?ws[i := (w, [], None)] = ?ws" "(outRings ?m)[0 := outRings ?m ! 0] = outRings ?m"
      using Suc.prems(4) list_update_id [of ?ws i] by simp_all
    ultimately show ?thesis using True d Suc.prems(4) by (intro step) (simp add: fetch_def)
  next
    case False
    let ?w = "w\<lparr>statsNumBatches := statsNumBatches w + 1, statsNumFrames := statsNumFrames w + of_nat (length fs)\<rparr>"
    let ?s = "s\<lparr>s_man := ?m\<lparr>inRings := (inRings ?m)[0 := q]\<rparr>, s_workers := ?ws[i := (?w, fs, None)]\<rparr>"
    obtain w1 m1 q1 where b: "foldE (process_one (e_ub e) (e_enq e) (e_heap e) (arpTable ?m)) fs (?w, memory ?m, outRings ?m ! 0) = Inr (w1, m1, q1)"
      and rest: "process fuel (e_ub e) (e_deq e) (e_enq e) (e_heap e) (arpTable ?m) (w1, m1, q, q1) = Some (Inr (w', m', inq, outq))"
      using Suc.prems(5) d False by (auto simp: Let_def split: sum.splits)
    have 1: "reaches e s ?s" using False d Suc.prems(4) by (intro step) (simp add: fetch_def)
    let ?t = "?s\<lparr>s_man := (s_man ?s)\<lparr>memory := m1, outRings := (outRings (s_man ?s))[0 := q1]\<rparr>, s_workers := (s_workers ?s)[i := (w1, [], None)]\<rparr>"
    have 2: "reaches e ?s ?t" using Suc.prems(1,3) b by (intro batch_steps [where w = ?w and fs = fs]) simp_all
    have "reaches e ?t (?t\<lparr>s_man := (s_man ?t)\<lparr>inRings := (inRings (s_man ?t))[0 := inq], outRings := (outRings (s_man ?t))[0 := outq],
        memory := m'\<rparr>, s_workers := (s_workers ?t)[i := (w', [], None)]\<rparr>)"
      using Suc.prems(1-3) rest by (intro Suc.IH [of ?t w1]) simp_all
    from reaches_trans [OF this reaches_trans [OF 2 1]] show ?thesis by simp
  qed
qed simp

section \<open>A concrete system\<close>

definition test_env :: "(frame list, frame list, u32) env" where
  "test_env = \<lparr>e_nm = test_api, e_enqb = list_enqb, e_deq = list_deq, e_enq = list_enq, e_deq1 = list_deq1, e_ub = (\<lambda>_ _. 0),
     e_heap = test_heap, e_tables = (\<lambda>_. test_table)\<rparr>"

abbreviation test_worker :: Worker where
  "test_worker \<equiv> new_Worker new_Internal 0 [1, 2] 0"

definition test_sys :: "(frame list, frame list, u32) sys" where
  "test_sys = \<lparr>s_man = test_manager, s_pc = Poll, s_workers = [(test_worker, [], None)]\<rparr>"

lemma list_enq_ok: "enq_ok list_enq mset"
  by (simp add: enq_ok_def list_enq_def)

lemma test_env_ok: "env_ok test_env (\<lambda>a. of_nat (a div 2048)) mset mset"
  using test_api_ok list_queue_ok list_deq_ok list_enq_ok by (simp add: env_ok_def test_env_def)

lemma test_sys_bufs:
  "sys_bufs (\<lambda>a. of_nat (a div 2048)) mset mset test_sys = mset [1, 2, 3, 4, 5, 6, 7, 8, 9, 10, 11, 20, 21]"
  by (simp add: sys_bufs_def test_sys_def test_manager_def man_bufs_def rings_bufs_def ring_bufs_def test_ring_def batch_bufs_def held_def pc_bufs_def)

text \<open>The manager in the middle of a burst: it has taken buffer 4 from the first slot of the ring, and buffer 3 is there instead.\<close>

lemma test_burst:
  "\<exists>n f s'. man_run test_api (\<lambda>p. (1, p)) list_enqb list_deq1 test_heap (\<lambda>_. test_table) (\<lambda>_. 0) (Poll, test_manager) (Burst (0, 0) [] n [f], s') \<and>
     of_nat (buf_ptr f div 2048) = (4 :: u32) \<and> freeBufs s' = [1, 2]"
proof -
  let ?step = "man_step test_api (\<lambda>p. (1, p)) list_enqb list_deq1 test_heap (\<lambda>_. test_table) (\<lambda>_. 0)"
  let ?s = "test_manager\<lparr>statsNumRecv := 2\<rparr>"
  have 1: "?step (Poll, test_manager) = Inr (Receive [(0, 0)], test_manager)" by (simp add: test_manager_def)
  have 2: "?step (Receive [(0, 0)], test_manager) = Inr (Burst (0, 0) [] 2 [], ?s)"
    by (simp add: test_manager_def ring_at_def burst_size_def MANAGER_BULK_SIZE_def test_ring_simps Let_def)
  have 3: "\<exists>f s'. ?step (Burst (0, 0) [] (Suc 1) [], ?s) = Inr (Burst (0, 0) [] 1 [f], s') \<and> of_nat (buf_ptr f div 2048) = (4 :: u32) \<and> freeBufs s' = [1, 2]"
    by (simp add: test_manager_def ring_at_def rx_frame_def test_ring_simps) (simp add: test_api_def)
  then obtain f s' where f: "?step (Burst (0, 0) [] 2 [], ?s) = Inr (Burst (0, 0) [] 1 [f], s')" "of_nat (buf_ptr f div 2048) = (4 :: u32)" "freeBufs s' = [1, 2]"
    unfolding Suc_1 by blast
  show ?thesis using man_run.step [OF 1 man_run.step [OF 2 man_run.step [OF f(1) man_run.refl]]] f(2,3) by blast
qed

theorem buffers_have_one_owner_witness:
  "\<exists>s'. reaches test_env test_sys s' \<and> pc_bufs (\<lambda>a. of_nat (a div 2048)) (s_pc s') = {#4#} \<and> freeBufs (s_man s') = [1, 2] \<and>
     sys_bufs (\<lambda>a. of_nat (a div 2048)) mset mset s' \<subseteq># mset [1, 2, 3, 4, 5, 6, 7, 8, 9, 10, 11, 20, 21] \<and>
     4 \<notin># man_bufs (\<lambda>a. of_nat (a div 2048)) mset mset (s_man s')"
proof -
  let ?idx = "\<lambda>a :: addr. of_nat (a div 2048) :: u32"
  obtain n f m where m: "man_run test_api (\<lambda>p. (1, p)) list_enqb list_deq1 test_heap (\<lambda>_. test_table) (\<lambda>_. 0) (Poll, test_manager) (Burst (0, 0) [] n [f], m)"
    "?idx (buf_ptr f) = 4" "freeBufs m = [1, 2]" using test_burst by blast
  let ?s = "test_sys\<lparr>s_pc := Burst (0, 0) [] n [f], s_man := m\<rparr>"
  have reach: "reaches test_env test_sys ?s"
    using man_run_reaches [OF test_poll_ok, of test_env "\<lambda>_. 0" "(Poll, test_manager)" "(Burst (0, 0) [] n [f], m)" test_sys] m(1)
    by (simp add: test_env_def test_sys_def)
  have dist: "distinct [1, 2, 3, 4, 5, 6, 7, 8, 9, 10, 11, 20, 21 :: u32]" by code_simp
  have cnt: "\<forall>b. count (sys_bufs ?idx mset mset test_sys) b \<le> 1"
    using dist unfolding test_sys_bufs distinct_count_atmost_1 by simp
  have pc: "pc_bufs ?idx (s_pc ?s) = {#4#}" using m(2) by (simp add: pc_bufs_def)
  have "sys_bufs ?idx mset mset ?s \<subseteq># mset [1, 2, 3, 4, 5, 6, 7, 8, 9, 10, 11, 20, 21] \<and>
      set_mset (pc_bufs ?idx (s_pc ?s)) \<inter> set_mset (man_bufs ?idx mset mset (s_man ?s)) = {}"
    using buffers_have_one_owner [OF test_env_ok reach cnt] unfolding test_sys_bufs by blast
  then show ?thesis using reach pc m(3) by (intro exI [of _ ?s]) simp
qed

end
