(* ===== verification/Isolation.thy ===== *)
theory Isolation
  imports System
begin

text \<open>
  The workers do not disturb each other. What a worker does with a frame depends on the headers of that frame only and writes only them, so that steps of
  different workers on buffers that do not overlap commute.
\<close>

section \<open>The headers of a frame\<close>

text \<open>The ethernet header and the largest IPv4 header: everything of a frame that a worker reads.\<close>

definition same_headers :: "addr \<Rightarrow> mem \<Rightarrow> mem \<Rightarrow> bool" where
  "same_headers p m m' \<longleftrightarrow> (\<forall>x. p \<le> x \<and> x < p + 74 \<longrightarrow> m' x = m x)"

lemma ihl_le: "unat (ihl h) \<le> 15"
proof -
  have "ihl h \<le> 0x0F" unfolding ihl_def by (rule word_and_le1)
  then show ?thesis by (simp add: word_le_nat_alt)
qed

lemma same_headers_loads:
  assumes "same_headers p m m'"
  shows "load_ether m' p = load_ether m p" "load_ipv4 m' (p + sizeof_ether) = load_ipv4 m (p + sizeof_ether)"
  using assms
  by (intro eth.load_unchanged ip.load_unchanged; simp add: same_headers_def sizeof_ether_def sizeof_ipv4_def)+

lemma same_headers_sum:
  assumes "same_headers p m m'"
  shows "hdr_sum m' (p + sizeof_ether) = hdr_sum m (p + sizeof_ether)"
proof -
  have "rd16 m' (p + sizeof_ether + 2 * i) = rd16 m (p + sizeof_ether + 2 * i)"
    if "i < unat (ihl (load_ipv4 m (p + sizeof_ether))) * 2" for i
    using that assms ihl_le [of "load_ipv4 m (p + sizeof_ether)"]
    by (intro f16.load_unchanged) (simp add: same_headers_def sizeof_ether_def)
  then show ?thesis unfolding hdr_sum_def same_headers_loads(2) [OF assms]
    by (intro arg_cong [where f = sum_list] map_cong refl) (auto simp only: set_upt atLeastLessThan_iff if_True if_False split: if_split)
qed

lemma same_headers_verified:
  assumes "same_headers p m m'"
  shows "verified m' (p + sizeof_ether) len = verified m (p + sizeof_ether) len"
proof -
  let ?p = "p + sizeof_ether"
  have "unat (ntohs (fst (IPv4HdrChecksum m' ?p))) = unat (ntohs (fst (IPv4HdrChecksum m ?p)))"
    using checksum_value(1) same_headers_sum [OF assms] by metis
  then have "fst (IPv4HdrChecksum m' ?p) = fst (IPv4HdrChecksum m ?p)"
    by (metis ntohs_htons(2) unsigned_word_eqI)
  then show ?thesis unfolding verified_def same_headers_loads(2) [OF assms] by simp
qed

lemma forward_local:
  assumes "same_headers (buf_ptr f) m m2" "forward ub h a w q m f = Inr (m', f')"
  shows "\<exists>m2'. forward ub h a w q m2 f = Inr (m2', f') \<and> same_headers (buf_ptr f) m' m2'"
proof -
  let ?p = "buf_ptr f + sizeof_ether"
  note loads = same_headers_loads [OF assms(1)]
  have ip: "same_headers (buf_ptr f) (store_ipv4 ?p x m) (store_ipv4 ?p x m2)" for x
    using assms(1) unfolding same_headers_def by (auto intro: ip.store_agree)
  then have eth: "same_headers (buf_ptr f) (store_ether (buf_ptr f) y (store_ipv4 ?p x m)) (store_ether (buf_ptr f) y (store_ipv4 ?p x m2))" for x y
    unfolding same_headers_def by (auto intro: eth.store_agree)
  let ?ix = "trie_route ub (cur_lpm w) (ntohl (d_ip (load_ipv4 m ?p)))"
  have ix: "?ix \<noteq> NH_INVALID" using assms(2) by (auto simp: forward_eq Let_def)
  then obtain nh where nh: "lookup_hop a (cur_arp_table w) ?ix (ntohl (d_ip (load_ipv4 m ?p))) = Inr nh"
    using assms(2) by (auto simp: forward_eq Let_def bindE_Inr_iff)
  show ?thesis
  proof (cases "nextHop_valid nh")
    case True
    then show ?thesis using assms(2) eth ix nh unfolding forward_eq Let_def loads by auto
  next
    case False
    then have "netmapInterface nh \<noteq> uint16_t_max" using assms(2) ix nh by (auto simp: forward_eq Let_def)
    with False show ?thesis using assms(2) ip ix nh unfolding forward_eq Let_def loads by auto
  qed
qed

text \<open>Frame rule of the worker: equal headers, equal treatment.\<close>

lemma process_frame_local:
  assumes "same_headers (buf_ptr f) m m2" "process_frame ub h a w m f = Inr (m', f', out)"
  shows "\<exists>m2'. process_frame ub h a w m2 f = Inr (m2', f', out) \<and> same_headers (buf_ptr f) m' m2'"
proof -
  obtain q where q: "find_iface h (w_interfaces w) (ucast (iface f AND IFACE_ID)) = Some q" by (rule process_frame_port [OF assms(2)])
  note same = same_headers_loads [OF assms(1)] same_headers_verified [OF assms(1), of "frame_len f"]
  show ?thesis
  proof (cases "ethertype (load_ether m (buf_ptr f)) = htons 0x0800")
    case True
    then have "ethertype (load_ether m2 (buf_ptr f)) = htons 0x0800" using same(1) by simp
    note eqs = process_frame_ipv4 [OF q True, of ub a] process_frame_ipv4 [OF q this, of ub a]
    show ?thesis using assms forward_local [OF assms(1), of ub h a w q] unfolding eqs same
      by (auto simp: bindE_Inr_iff split: if_splits)
  next
    case False
    then have neq: "ethertype (load_ether m2 (buf_ptr f)) \<noteq> htons 0x0800" using same(1) by simp
    show ?thesis using assms process_frame_other [OF q False, of ub a] process_frame_other [OF q neq, of ub a] same(1) by auto
  qed
qed

lemma process_frame_writes:
  assumes "process_frame ub h a w m f = Inr (m', f', out)" "x < buf_ptr f \<or> buf_ptr f + 74 \<le> x"
  shows "m' x = m x"
proof -
  have "\<forall>x. x < buf_ptr f \<or> buf_ptr f + 34 \<le> x \<longrightarrow> m' x = m x"
    using assms(1)
    by (auto simp: process_frame_def Let_def bindE_Inr_iff IPv4HdrVerification_eq dest!: forward_footprint split: option.splits if_splits prod.splits)
  with assms(2) show ?thesis by auto
qed

section \<open>Two frames\<close>

definition apart :: "addr \<Rightarrow> addr \<Rightarrow> bool" where
  "apart p q \<longleftrightarrow> p + 74 \<le> q \<or> q + 74 \<le> p"

lemma frames_commute:
  assumes "apart (buf_ptr f) (buf_ptr g)"
    and f: "process_frame ub h a w m f = Inr (m1, f', o1)" and g: "process_frame ub h a v m1 g = Inr (m12, g', o2)"
  shows "\<exists>m2. process_frame ub h a v m g = Inr (m2, g', o2) \<and> process_frame ub h a w m2 f = Inr (m12, f', o1)"
proof -
  let ?f = "buf_ptr f" and ?g = "buf_ptr g"
  have out: "x < ?f \<or> ?f + 74 \<le> x" if "?g \<le> x" "x < ?g + 74" for x using assms(1) that by (auto simp: apart_def)
  have "same_headers ?g m1 m" using process_frame_writes [OF f out] by (simp add: same_headers_def)
  then obtain m2 where m2: "process_frame ub h a v m g = Inr (m2, g', o2)" "same_headers ?g m12 m2"
    using process_frame_local [OF _ g] by blast
  have "same_headers ?f m m2" unfolding same_headers_def
  proof (intro allI impI)
    fix x assume "?f \<le> x \<and> x < ?f + 74"
    then show "m2 x = m x" using assms(1) by (intro process_frame_writes [OF m2(1)]) (auto simp: apart_def)
  qed
  then obtain m21 where m21: "process_frame ub h a w m2 f = Inr (m21, f', o1)" "same_headers ?f m1 m21"
    using process_frame_local [OF _ f] by blast
  have "m21 = m12"
  proof
    fix x
    consider "?f \<le> x" "x < ?f + 74" | "?g \<le> x" "x < ?g + 74" | "x < ?f \<or> ?f + 74 \<le> x" "x < ?g \<or> ?g + 74 \<le> x" by linarith
    then show "m21 x = m12 x"
    proof cases
      case 1
      then have "x < ?g \<or> ?g + 74 \<le> x" using assms(1) by (auto simp: apart_def)
      then show ?thesis using m21(2) 1 process_frame_writes [OF g] by (simp add: same_headers_def)
    next
      case 2
      then show ?thesis using m2(2) process_frame_writes [OF m21(1) out] by (simp add: same_headers_def)
    next
      case 3
      then show ?thesis
        using process_frame_writes [OF m21(1)] process_frame_writes [OF m2(1)] process_frame_writes [OF f] process_frame_writes [OF g] by simp
    qed
  qed
  with m2(1) m21(1) show ?thesis by blast
qed

section \<open>Two workers\<close>

lemma enq_both:
  assumes "enq_ok enq elems" "\<forall>f q. fst (enq f q)"
  shows "elems (snd (enq f q)) = add_mset f (elems q)"
  using assms by (simp add: enq_ok_def)

lemma works_commute:
  assumes env: "enq_ok (e_enq e) elemsQ"
    and ij: "i < length (s_workers s)" "j < length (s_workers s)" "i \<noteq> j" "outRings (s_man s) \<noteq> []"
    and apart: "\<And>f g. f \<in> set (held (s_workers s ! i)) \<Longrightarrow> g \<in> set (held (s_workers s ! j)) \<Longrightarrow> apart (buf_ptr f) (buf_ptr g)"
    and steps: "work e i s = Some s1" "work e j s1 = Some s12"
  shows "\<exists>s2 s21. work e j s = Some s2 \<and> work e i s2 = Some s21 \<and>
    s21\<lparr>s_man := (s_man s21)\<lparr>outRings := outRings (s_man s12)\<rparr>\<rparr> = s12 \<and>
    ((\<forall>f q. fst (e_enq e f q)) \<longrightarrow> elemsQ (outRings (s_man s21) ! 0) = elemsQ (outRings (s_man s12) ! 0))"
proof -
  let ?m = "s_man s" and ?ws = "s_workers s" and ?P = "process_frame (e_ub e) (e_heap e) (arpTable (s_man s))"
  let ?enq = "\<lambda>out f q. if out then snd (e_enq e f q) else q" and ?q = "outRings (s_man s) ! 0"
  obtain w f fs w' m1 f' o1 where
    f: "?ws ! i = (w, f # fs, None)" "w' = w\<lparr>statsNumBytes := statsNumBytes w + ucast (frame_len f)\<rparr>" "?P w' (memory ?m) f = Inr (m1, f', o1)"
    and s1: "s1 = s\<lparr>s_man := ?m\<lparr>memory := m1, outRings := (outRings ?m)[0 := ?enq o1 f' ?q]\<rparr>, s_workers := ?ws[i := (w', fs, None)]\<rparr>"
    using steps(1) unfolding work_Some process_one_Inr by blast
  obtain v g gs v' m12 g' o2 where
    g: "?ws ! j = (v, g # gs, None)" "v' = v\<lparr>statsNumBytes := statsNumBytes v + ucast (frame_len g)\<rparr>" "?P v' m1 g = Inr (m12, g', o2)"
    and s12: "s12 = s1\<lparr>s_man := (s_man s1)\<lparr>memory := m12, outRings := (outRings (s_man s1))[0 := ?enq o2 g' (outRings (s_man s1) ! 0)]\<rparr>,
      s_workers := (s_workers s1)[j := (v', gs, None)]\<rparr>"
    using steps(2) ij(3) s1 unfolding work_Some process_one_Inr by auto
  have "apart (buf_ptr f) (buf_ptr g)" using apart f(1) g(1) by (simp add: held_def)
  then obtain m2 where m2: "?P v' (memory ?m) g = Inr (m2, g', o2)" "?P w' m2 f = Inr (m12, f', o1)" using frames_commute f(3) g(3) by metis
  let ?s2 = "s\<lparr>s_man := ?m\<lparr>memory := m2, outRings := (outRings ?m)[0 := ?enq o2 g' ?q]\<rparr>, s_workers := ?ws[j := (v', gs, None)]\<rparr>"
  let ?s21 = "s\<lparr>s_man := ?m\<lparr>memory := m12, outRings := (outRings ?m)[0 := ?enq o1 f' (?enq o2 g' ?q)]\<rparr>, s_workers := ?ws[j := (v', gs, None), i := (w', fs, None)]\<rparr>"
  have "work e j s = Some ?s2" unfolding work_Some process_one_Inr using g(1,2) m2(1) by blast
  moreover have "work e i ?s2 = Some ?s21" unfolding work_Some process_one_Inr using f(1,2) m2(2) ij(3,4) by auto
  moreover have "?s21\<lparr>s_man := (s_man ?s21)\<lparr>outRings := outRings (s_man s12)\<rparr>\<rparr> = s12"
    using ij(3) by (simp add: s12 s1 list_update_swap [of j i])
  moreover have "elemsQ (outRings (s_man ?s21) ! 0) = elemsQ (outRings (s_man s12) ! 0)" if "\<forall>f q. fst (e_enq e f q)"
    using enq_both [OF env that] ij(4) by (simp add: s12 s1)
  ultimately show ?thesis by blast
qed

section \<open>Frames are in netmap buffers\<close>

text \<open>The frames the workers get are the netmap buffers that \<^verbatim>\<open>rx_frame\<close> took from the rings.\<close>

definition at_buffer :: "'r netmap_api \<Rightarrow> frame \<Rightarrow> bool" where
  "at_buffer nm f \<longleftrightarrow> (\<exists>r i. buf_ptr f = NETMAP_BUF nm r i)"

fun burst_frames :: "man_pc \<Rightarrow> frame list" where
  "burst_frames (Burst x xs n fs) = fs"
| "burst_frames pc = []"

definition sys_framed :: "('p, 'q, 'r) env \<Rightarrow> ('p \<Rightarrow> frame multiset) \<Rightarrow> ('p, 'q, 'r) sys \<Rightarrow> bool" where
  "sys_framed e elemsP s \<longleftrightarrow> (\<forall>f. f \<in># elemsP (inRings (s_man s) ! 0) \<longrightarrow> at_buffer (e_nm e) f) \<and>
     (\<forall>f \<in> set (burst_frames (s_pc s)). at_buffer (e_nm e) f) \<and> (\<forall>x \<in> set (s_workers s). \<forall>f \<in> set (held x). at_buffer (e_nm e) f)"

lemma at_bufferI: "buf_ptr f = NETMAP_BUF nm r i \<Longrightarrow> at_buffer nm f"
  unfolding at_buffer_def by blast

lemma man_step_framed:
  assumes "api_ok nm idx" "enqb_ok enqb elems" "man_step nm kpoll enqb deq h th clk (pc, s) = Inr (pc', s')"
    and "\<forall>f. f \<in># elems (inRings s ! 0) \<longrightarrow> at_buffer nm f" "\<forall>f \<in> set (burst_frames pc). at_buffer nm f"
  shows "(\<forall>f. f \<in># elems (inRings s' ! 0) \<longrightarrow> at_buffer nm f) \<and> (\<forall>f \<in> set (burst_frames pc'). at_buffer nm f)"
proof (cases pc)
  case Poll
  then show ?thesis using assms(3,4) by (auto simp: Let_def split: prod.splits if_splits)
next
  case (Receive xs)
  then show ?thesis using assms(3,4) by (cases xs) (auto simp: Let_def elim!: bindE_InrE split: if_splits)
next
  case (Burst y xs n fs)
  obtain i w where y: "y = (i, w)" by (cases y)
  show ?thesis
  proof (cases n)
    case 0
    then have "inRings s \<noteq> []" "pc' = Receive (y # xs)" "inRings s' ! 0 = snd (enqb fs (inRings s ! 0))"
      using assms(3) Burst y by (auto split: if_splits)
    then show ?thesis using assms(2,4,5) Burst by (auto simp: enqb_ok_def)
  next
    case (Suc k)
    obtain r fs' r' free where r: "rx_frame nm (of_nat i) (fs, r, freeBufs s) = Inr (fs', r', free)"
      and x: "pc' = Burst y xs k fs'" "inRings s' = inRings s" using assms(3) Burst Suc y by (auto elim!: bindE_InrE)
    obtain f where "fs' = fs @ [f]" "buf_ptr f = NETMAP_BUF nm r (buf_idx (slots r ! unat (head r)))"
      using r by (auto simp: rx_frame_def Let_def split: if_splits)
    then show ?thesis using assms(4,5) Burst x by (auto intro: at_bufferI)
  qed
next
  case (Transmit ringid)
  then show ?thesis using assms(3,4) by (auto split: if_splits option.splits)
next
  case (Send ringid f)
  then obtain i where t: "tx_frame nm h th clk f (ringid, s) = Inr (i, s')" "pc' = Transmit i" using assms(3) by (auto elim!: bindE_InrE)
  have "inRings s' = inRings s" using tx_frame_bufs [OF assms(1) t(1)] by blast
  with t(2) assms(4) show ?thesis by simp
qed

lemma held_update:
  assumes "\<forall>x \<in> set ws. \<forall>f \<in> set (held x). P f" "\<forall>f \<in> set (held y). P f"
  shows "\<forall>x \<in> set (ws[i := y]). \<forall>f \<in> set (held x). P f"
  using assms by (auto dest!: set_update_subset_insert [THEN subsetD])

lemma sys_step_framed:
  assumes "env_ok e idx elemsP elemsQ" "sys_step e s s'" "sys_framed e elemsP s"
  shows "sys_framed e elemsP s'"
  using assms(2)
proof cases
  case (manager kpoll clk pc m)
  have ok: "api_ok (e_nm e) idx" "enqb_ok (e_enqb e) elemsP" using assms(1) by (simp_all add: env_ok_def)
  have fr: "\<forall>f. f \<in># elemsP (inRings (s_man s) ! 0) \<longrightarrow> at_buffer (e_nm e) f" "\<forall>f \<in> set (burst_frames (s_pc s)). at_buffer (e_nm e) f"
    and ws: "\<forall>x \<in> set (s_workers s). \<forall>f \<in> set (held x). at_buffer (e_nm e) f" using assms(3) unfolding sys_framed_def by blast+
  show ?thesis using man_step_framed [OF ok manager(3) fr] ws unfolding manager(1) sys_framed_def by simp
next
  case (fetch i)
  let ?m = "s_man s"
  obtain fs q where d: "e_deq e WORKER_BULK_SIZE (inRings ?m ! 0) = (fs, q)" by (cases "e_deq e WORKER_BULK_SIZE (inRings ?m ! 0)")
  have "elemsP (inRings ?m ! 0) = mset fs + elemsP q"
    using d assms(1) unfolding env_ok_def deq_ok_def by (metis fst_conv snd_conv)
  then have fs: "\<forall>f \<in> set fs. at_buffer (e_nm e) f" "\<forall>f. f \<in># elemsP q \<longrightarrow> at_buffer (e_nm e) f" using assms(3) by (auto simp: sys_framed_def)
  have "\<forall>x \<in> set ((s_workers s)[i := (w, fs, None)]). \<forall>f \<in> set (held x). at_buffer (e_nm e) f" for w
    using assms(3) fs(1) by (intro held_update) (auto simp: sys_framed_def held_def)
  then show ?thesis using fetch d assms(3) fs(2)
    by (auto simp: fetch_def Let_def sys_framed_def split: prod.splits if_splits)
next
  case (treat i)
  then obtain w f fs w' m f' out where w: "s_workers s ! i = (w, f # fs, None)"
    and p: "process_frame (e_ub e) (e_heap e) (arpTable (s_man s)) w' (memory (s_man s)) f = Inr (m, f', out)"
    and s': "s' = s\<lparr>s_man := (s_man s)\<lparr>memory := m\<rparr>, s_workers := (s_workers s)[i := (w', fs, if out then Some f' else None)]\<rparr>"
    unfolding treat_Some by blast
  have "(w, f # fs, None) \<in> set (s_workers s)" using w treat(1) by (metis nth_mem)
  then have "\<forall>g \<in> set (held (w, f # fs, None)). at_buffer (e_nm e) g" using assms(3) unfolding sys_framed_def by blast
  then have "\<forall>g \<in> set (held (w', fs, if out then Some f' else None)). at_buffer (e_nm e) g"
    using process_frame_buf [OF p] by (auto simp: held_def at_buffer_def)
  then have "\<forall>x \<in> set (s_workers s'). \<forall>g \<in> set (held x). at_buffer (e_nm e) g"
    using held_update [of "s_workers s" "at_buffer (e_nm e)" "(w', fs, if out then Some f' else None)" i] assms(3)
    unfolding s' sys_framed_def by (simp split del: if_split)
  then show ?thesis using assms(3) by (simp add: sys_framed_def) (simp add: s')
next
  case (pass i)
  then obtain w fs f q where w: "s_workers s ! i = (w, fs, Some f)"
    and s': "s' = s\<lparr>s_man := (s_man s)\<lparr>outRings := q\<rparr>, s_workers := (s_workers s)[i := (w, fs, None)]\<rparr>"
    unfolding pass_Some by blast
  have "(w, fs, Some f) \<in> set (s_workers s)" using w pass(1) by (metis nth_mem)
  then have "\<forall>g \<in> set (held (w, fs, Some f)). at_buffer (e_nm e) g" using assms(3) unfolding sys_framed_def by blast
  then have "\<forall>g \<in> set (held (w, fs, None)). at_buffer (e_nm e) g" by (simp add: held_def)
  then have "\<forall>x \<in> set (s_workers s'). \<forall>g \<in> set (held x). at_buffer (e_nm e) g"
    using held_update [of "s_workers s" "at_buffer (e_nm e)" "(w, fs, None)" i] assms(3) unfolding s' sys_framed_def by simp
  then show ?thesis using assms(3) by (simp add: sys_framed_def) (simp add: s')
next
  case stats
  then show ?thesis using assms(3) by (auto simp: sys_framed_def clear_stats_def manager_print_stats_def held_def)
qed

lemma reaches_framed:
  assumes "env_ok e idx elemsP elemsQ"
  shows "reaches e s s' \<Longrightarrow> sys_framed e elemsP s \<Longrightarrow> sys_framed e elemsP s'"
  by (induction rule: reaches.induct) (auto intro: sys_step_framed [OF assms])

section \<open>Properties\<close>

text \<open>Netmap buffers with different indices lie in different places.\<close>

definition spaced :: "'r netmap_api \<Rightarrow> bool" where
  "spaced nm \<longleftrightarrow> (\<forall>r i r' j. i \<noteq> j \<longrightarrow> apart (NETMAP_BUF nm r i) (NETMAP_BUF nm r' j))"

lemma batches_apart:
  assumes "env_ok e idx elemsP elemsQ" "spaced (e_nm e)" "reaches e s0 s" "\<forall>b. count (sys_bufs idx elemsP elemsQ s0) b \<le> 1" "sys_framed e elemsP s0"
    and "i < length (s_workers s)" "j < length (s_workers s)" "i \<noteq> j" "f \<in> set (held (s_workers s ! i))" "g \<in> set (held (s_workers s ! j))"
  shows "apart (buf_ptr f) (buf_ptr g)"
proof -
  have "sys_framed e elemsP s" by (rule reaches_framed [OF assms(1,3,5)])
  then have "at_buffer (e_nm e) f" "at_buffer (e_nm e) g" using assms(6,7,9,10) nth_mem unfolding sys_framed_def by metis+
  then obtain r x r' y where b: "buf_ptr f = NETMAP_BUF (e_nm e) r x" "buf_ptr g = NETMAP_BUF (e_nm e) r' y" unfolding at_buffer_def by blast
  have "idx (buf_ptr f) \<in># batch_bufs idx (s_workers s ! i)" "idx (buf_ptr g) \<in># batch_bufs idx (s_workers s ! j)"
    using assms(9,10) by (simp_all add: batch_bufs_def)
  then have "idx (buf_ptr f) \<noteq> idx (buf_ptr g)" using hands_exclusive(3) [OF assms(1,3,4,6,7,8)] by auto
  moreover have "idx (buf_ptr f) = x" "idx (buf_ptr g) = y" using assms(1) b by (simp_all add: env_ok_def api_ok_def)
  ultimately show ?thesis using assms(2) b unfolding spaced_def by simp
qed

text \<open>
  C6: the workers do not disturb each other. In every reachable state of the router, if worker \<open>i\<close> treats its next frame and then worker \<open>j\<close> its own, the
  other order is possible too and leads to the same packet memory, the same workers, tables and rings; only the order in the queue to the manager
  differs, and not its content as long as it has room.
\<close>

theorem workers_commute:
  assumes "env_ok e idx elemsP elemsQ" "spaced (e_nm e)" "reaches e s0 s" "\<forall>b. count (sys_bufs idx elemsP elemsQ s0) b \<le> 1" "sys_framed e elemsP s0"
    and "i < length (s_workers s)" "j < length (s_workers s)" "i \<noteq> j" "outRings (s_man s) \<noteq> []"
    and "work e i s = Some s1" "work e j s1 = Some s12"
  shows "\<exists>s2 s21. work e j s = Some s2 \<and> work e i s2 = Some s21 \<and>
    s21\<lparr>s_man := (s_man s21)\<lparr>outRings := outRings (s_man s12)\<rparr>\<rparr> = s12 \<and>
    ((\<forall>f q. fst (e_enq e f q)) \<longrightarrow> elemsQ (outRings (s_man s21) ! 0) = elemsQ (outRings (s_man s12) ! 0))"
  using assms(1) by (intro works_commute [OF _ assms(6-9) batches_apart [OF assms(1-8)] assms(10,11)]) (simp add: env_ok_def)

text \<open>Two workers with a frame each.\<close>

definition two_sys :: "(frame list, frame list, u32) sys" where
  "two_sys = \<lparr>s_man = test_manager, s_pc = Poll,
     s_workers = [(test_worker, [test_frame], None), (test_worker, [test_frame\<lparr>buf_ptr := 81920\<rparr>], None)]\<rparr>"

lemma work_discards:
  assumes "s_workers s ! i = (test_worker, f # fs, None)" "memory (s_man s) = (\<lambda>_. 0)" "iface f = 2"
  shows "\<exists>s' w. work test_env i s = Some s' \<and> s_workers s' = (s_workers s)[i := (w, fs, None)] \<and> memory (s_man s') = (\<lambda>_. 0)"
proof -
  have "find_iface test_heap [1, 2] (ucast (2 AND IFACE_ID)) = Some 2" "ethertype (load_ether (\<lambda>_. 0) p) \<noteq> htons 0x0800"
    "ethertype (load_ether (\<lambda>_. 0) p) \<noteq> htons 0x0806" for p
    by (code_simp, simp_all add: load_ether_def rd16_def htons_def)
  then have "process_frame (\<lambda>_ _. 0) test_heap a (test_worker\<lparr>statsNumBytes := n\<rparr>) (\<lambda>_. 0) f = Inr (\<lambda>_. 0, f\<lparr>iface := IFACE_DISCARD\<rparr>, True)" for a n
    using assms(3) by (simp add: process_frame_def new_Worker_def)
  then show ?thesis using assms(1,2) by (auto simp: work_def process_one_def test_env_def Let_def new_Worker_def)
qed

lemma two_sys_bufs: "\<forall>b. count (sys_bufs (\<lambda>a. of_nat (a div 2048)) mset mset two_sys) b \<le> 1"
proof -
  have "sys_bufs (\<lambda>a. of_nat (a div 2048)) mset mset two_sys = mset [1, 2, 3, 4, 5, 6, 7, 8, 9, 10, 11, 20, 21, 0, 40]"
    by (simp add: sys_bufs_def two_sys_def test_manager_def man_bufs_def rings_bufs_def ring_bufs_def test_ring_def batch_bufs_def held_def pc_bufs_def new_frame_def)
  moreover have "distinct [1, 2, 3, 4, 5, 6, 7, 8, 9, 10, 11, 20, 21, 0, 40 :: u32]" by code_simp
  ultimately show ?thesis unfolding distinct_count_atmost_1 by simp
qed

lemma spaced_test: "spaced test_api"
  unfolding spaced_def
proof (intro allI impI)
  fix r r' :: "u32 netmap_ring_scheme" and i j :: u32 assume "i \<noteq> j"
  then have "unat i \<noteq> unat j" using unsigned_word_eqI by blast
  then show "apart (NETMAP_BUF test_api r i) (NETMAP_BUF test_api r' j)" by (auto simp: apart_def test_api_def)
qed

theorem workers_commute_witness:
  "\<exists>s1 s12 s2 s21. work test_env 0 two_sys = Some s1 \<and> work test_env 1 s1 = Some s12 \<and>
     work test_env 1 two_sys = Some s2 \<and> work test_env 0 s2 = Some s21 \<and>
     s21\<lparr>s_man := (s_man s21)\<lparr>outRings := outRings (s_man s12)\<rparr>\<rparr> = s12"
proof -
  have two: "s_workers two_sys ! 0 = (test_worker, [test_frame], None)" "s_workers two_sys ! 1 = (test_worker, [test_frame\<lparr>buf_ptr := 81920\<rparr>], None)"
    "memory (s_man two_sys) = (\<lambda>_. 0)" "0 < length (s_workers two_sys)" "1 < length (s_workers two_sys)" "outRings (s_man two_sys) \<noteq> []"
    by (simp_all add: two_sys_def test_manager_def)
  obtain s1 w where s1: "work test_env 0 two_sys = Some s1" "s_workers s1 = (s_workers two_sys)[0 := (w, [], None)]" "memory (s_man s1) = (\<lambda>_. 0)"
    using work_discards [OF two(1,3)] by auto
  then have "s_workers s1 ! 1 = (test_worker, [test_frame\<lparr>buf_ptr := 81920\<rparr>], None)" using two(2) by simp
  from work_discards [OF this s1(3)] obtain s12 where s12: "work test_env 1 s1 = Some s12" by auto
  have framed: "sys_framed test_env mset two_sys"
  proof -
    have "at_buffer test_api test_frame" by (rule at_bufferI [of _ _ undefined 0]) (simp add: test_api_def new_frame_def)
    moreover have "at_buffer test_api (test_frame\<lparr>buf_ptr := 81920\<rparr>)" by (rule at_bufferI [of _ _ undefined 40]) (simp add: test_api_def)
    ultimately show ?thesis by (simp add: sys_framed_def two_sys_def test_manager_def test_env_def held_def)
  qed
  have sp: "spaced (e_nm test_env)" using spaced_test by (simp add: test_env_def)
  show ?thesis
    using workers_commute [OF test_env_ok sp reaches.refl two_sys_bufs framed two(4,5) _ two(6) s1(1) s12] s1(1) s12 by auto
qed

end
