(* ===== verification/PacketPath.thy ===== *)
theory PacketPath
  imports Isolation
begin

text \<open>
  The way of a packet through the router, from the slot of the ring it was received in to the slot of the ring it leaves by: a round of the
  manager, the fetch and the treatment of the frame by a worker and a second round of the manager, composed as a run of the threads.
\<close>

section \<open>One frame in the rings\<close>

text \<open>The frame at the head of a ring of port \<open>a\<close>, and the ring after \<^verbatim>\<open>process\<close> took it and left buffer \<open>b\<close> in its place.\<close>

definition received :: "'r netmap_api \<Rightarrow> nat \<Rightarrow> 'r netmap_ring_scheme \<Rightarrow> frame" where
  "received nm a r = \<lparr>buf_ptr = NETMAP_BUF nm r (buf_idx (slots r ! unat (head r))), frame_len = slot_len (slots r ! unat (head r)),
     iface = of_nat a, vlan = 0\<rparr>"

definition advanced :: "'r netmap_api \<Rightarrow> u32 \<Rightarrow> 'r netmap_ring_scheme \<Rightarrow> 'r netmap_ring_scheme" where
  "advanced nm b r =
     (let r' = r\<lparr>slots := (slots r)[unat (head r) := (slots r ! unat (head r))\<lparr>buf_idx := b, slot_flags := NS_BUF_CHANGED nm\<rparr>]\<rparr>;
          nxt = nm_ring_next nm r' (head r)
      in r'\<lparr>head := nxt, cur := nxt\<rparr>)"

lemma rx_frame_eq:
  assumes "ring_ok r" "free \<noteq> []"
  shows "rx_frame nm (of_nat a) (fs, r, free) = Inr (fs @ [received nm a r], advanced nm (last free) r, butlast free)"
  using assms by (simp add: rx_frame_def received_def advanced_def ring_ok_def Let_def)

lemma rx_ring_single:
  assumes "ring_ok r" "free \<noteq> []" "length free < 2 ^ 32" "nm_ring_space nm r = 1" "nm_ring_space nm (advanced nm (last free) r) = 0"
  shows "rx_ring nm enqb (of_nat a) (recv, q, r, free) =
    Inr (recv + 1, snd (enqb [received nm a r] q), advanced nm (last free) r, butlast free)"
proof -
  have "burst_size nm r free \<noteq> 0" using burst_size_0 [of nm r free] assms(2-4) by auto
  moreover have "min 1 (of_nat (length free)) \<le> (1 :: u32)" by simp
  then have "\<not> MANAGER_BULK_SIZE < min 1 (of_nat (length free))" unfolding MANAGER_BULK_SIZE_def by (simp only: not_less) (erule order_trans, simp)
  then have "burst_size nm r free \<le> 1" by (simp add: burst_size_def assms(4))
  ultimately have "unat (burst_size nm r free) = unat (1 :: u32)" using unat_gt_0 [of "burst_size nm r free"] by (simp add: word_le_nat_alt)
  then have "burst_size nm r free = 1" by (rule unsigned_word_eqI)
  then have "rx_ring nm enqb (of_nat a) (recv, q, r, free) =
      rx_ring nm enqb (of_nat a) (recv + 1, snd (enqb [received nm a r] q), advanced nm (last free) r, butlast free)"
    using assms(1,2,4) rx_frame_eq [of r free nm a "[]"] by (subst rx_ring.simps) simp
  also have "\<dots> = Inr (recv + 1, snd (enqb [received nm a r] q), advanced nm (last free) r, butlast free)"
    using assms(5) by (subst rx_ring.simps) simp
  finally show ?thesis .
qed

section \<open>Rounds of an idle manager\<close>

definition rx_ids :: "('p, 'q, 'r) Manager \<Rightarrow> (nat \<times> nat) list" where
  "rx_ids s = List.product [0..<unat (numInterfaces s)] [0..<unat (numWorkers s)]"

definition quiet_ring :: "'r netmap_api \<Rightarrow> ('p, 'q, 'r) Manager \<Rightarrow> nat \<times> nat \<Rightarrow> bool" where
  "quiet_ring nm s x \<longleftrightarrow> fst x < length (netmapRxRings s) \<and> snd x < length (netmapRxRings s ! fst x) \<and>
     nm_ring_space nm (netmapRxRings s ! fst x ! snd x) = 0"

lemma rx_one_quiet:
  assumes "quiet_ring nm s x" "inRings s \<noteq> []"
  shows "rx_one nm enqb x s = Inr s"
  using assms by (cases x, cases s) (auto simp: rx_one_def quiet_ring_def ring_at_def set_ring_def rx_ring.simps)

lemma foldE_single:
  assumes "distinct xs" "x \<in> set xs" "f x s = Inr s'"
    and "\<And>y. y \<in> set xs \<Longrightarrow> y \<noteq> x \<Longrightarrow> f y s = Inr s" "\<And>y. y \<in> set xs \<Longrightarrow> y \<noteq> x \<Longrightarrow> f y s' = Inr s'"
  shows "foldE f xs s = Inr s'"
proof -
  have same: "foldE f ys t = Inr t" if "\<And>y. y \<in> set ys \<Longrightarrow> f y t = Inr t" for ys t using that by (induction ys) auto
  obtain ys zs where xs: "xs = ys @ x # zs" using assms(2) by (meson split_list)
  have "foldE f ys s = Inr s" "foldE f zs s' = Inr s'" using assms(1,4,5) xs by (auto intro!: same)
  then show ?thesis using assms(3) by (simp add: xs foldE_append)
qed

lemma rx_all_quiet:
  assumes "\<And>x. x \<in> set (rx_ids s) \<Longrightarrow> quiet_ring nm s x" "inRings s \<noteq> []"
  shows "rx_all nm enqb s = Inr s"
proof -
  have "foldE (rx_one nm enqb) xs s = Inr s" if "set xs \<subseteq> set (rx_ids s)" for xs
    using that by (induction xs) (auto simp: rx_one_quiet assms)
  then show ?thesis by (simp add: rx_all_def rx_ids_def)
qed

text \<open>Exactly one packet waits, in ring \<open>b\<close> of port \<open>a\<close>, and there is a buffer to take its place.\<close>

definition one_waiting :: "'r netmap_api \<Rightarrow> nat \<Rightarrow> nat \<Rightarrow> ('p, 'q, 'r) Manager \<Rightarrow> bool" where
  "one_waiting nm a b s \<longleftrightarrow> (a, b) \<in> set (rx_ids s) \<and> (\<forall>x \<in> set (rx_ids s). x = (a, b) \<or> quiet_ring nm s x) \<and>
     a < length (netmapRxRings s) \<and> b < length (netmapRxRings s ! a) \<and> freeBufs s \<noteq> [] \<and> length (freeBufs s) < 2 ^ 32 \<and>
     (let r = netmapRxRings s ! a ! b in ring_ok r \<and> nm_ring_space nm r = 1 \<and> nm_ring_space nm (advanced nm (last (freeBufs s)) r) = 0)"

definition after_rx :: "'r netmap_api \<Rightarrow> (frame list \<Rightarrow> 'p \<Rightarrow> bool \<times> 'p) \<Rightarrow> nat \<Rightarrow> nat \<Rightarrow> ('p, 'q, 'r) Manager \<Rightarrow> ('p, 'q, 'r) Manager" where
  "after_rx nm enqb a b s = (let r = netmapRxRings s ! a ! b in
     s\<lparr>statsNumRecv := statsNumRecv s + 1, inRings := (inRings s)[0 := snd (enqb [received nm a r] (inRings s ! 0))],
       freeBufs := butlast (freeBufs s), netmapRxRings := set_ring a b (advanced nm (last (freeBufs s)) r) (netmapRxRings s)\<rparr>)"

lemma after_rx_quiet:
  assumes "one_waiting nm a b s" "x \<in> set (rx_ids s)"
  shows "quiet_ring nm (after_rx nm enqb a b s) x"
proof (cases "x = (a, b)")
  case True
  then show ?thesis using assms by (simp add: quiet_ring_def after_rx_def one_waiting_def set_ring_def Let_def)
next
  case False
  then have "quiet_ring nm s x" using assms by (auto simp: one_waiting_def)
  then show ?thesis using False assms(1)
    by (cases x, cases "fst x = a") (auto simp: quiet_ring_def after_rx_def one_waiting_def set_ring_def Let_def nth_list_update)
qed

lemma after_rx_ids [simp]: "rx_ids (after_rx nm enqb a b s) = rx_ids s"
  by (simp add: rx_ids_def after_rx_def Let_def)

lemma rx_all_single:
  assumes "one_waiting nm a b s" "inRings s \<noteq> []"
  shows "rx_all nm enqb s = Inr (after_rx nm enqb a b s)"
  unfolding rx_all_def
proof (rule foldE_single)
  let ?ids = "List.product [0..<unat (numInterfaces s)] [0..<unat (numWorkers s)]"
  have ids: "set ?ids = set (rx_ids s)" by (simp add: rx_ids_def)
  show "distinct ?ids" by (simp add: distinct_product)
  show "(a, b) \<in> set ?ids" using assms(1) unfolding ids by (simp add: one_waiting_def)
  show "rx_one nm enqb (a, b) s = Inr (after_rx nm enqb a b s)"
    using assms by (simp add: rx_one_def ring_at_def one_waiting_def rx_ring_single after_rx_def Let_def)
  show "rx_one nm enqb y s = Inr s" if "y \<in> set ?ids" "y \<noteq> (a, b)" for y
    using that(2) assms that(1) [unfolded ids] by (intro rx_one_quiet) (auto simp: one_waiting_def)
  show "rx_one nm enqb y (after_rx nm enqb a b s) = Inr (after_rx nm enqb a b s)" if "y \<in> set ?ids" "y \<noteq> (a, b)" for y
    using assms that(1) [unfolded ids] by (intro rx_one_quiet after_rx_quiet) (simp_all add: after_rx_def Let_def)
qed

lemma manager_round:
  assumes "rx_all nm enqb s = Inr s1" "tx_all fuel nm deq h th clk (0, s1) = Some (Inr s2)"
  shows "manager_process fuel nm (\<lambda>p. (1, p)) enqb deq h th clk s = Some (Inr s2)"
  using assms by (simp add: manager_process_def)

lemma deq1_empty:
  assumes "deq1_ok deq elems" "elems q = {#}"
  shows "deq q = None"
  using assms deq1_ok_Some [OF assms(1), of q] by (cases "deq q") auto

lemma tx_all_empty:
  assumes "deq1_ok deq elems" "outRings s \<noteq> []" "elems (outRings s ! 0) = {#}"
  shows "tx_all (Suc fuel) nm deq h th clk (ringid, s) = Some (Inr s)"
  using assms(2) deq1_empty [OF assms(1,3)] by simp

lemma deq1_single:
  assumes "deq1_ok deq elems" "deq1_finds deq elems" "elems q = {#f#}"
  obtains q' where "deq q = Some (f, q')" "elems q' = {#}"
proof (cases "deq q")
  case None
  then show ?thesis using assms(2) [unfolded deq1_finds_def, rule_format, of q] assms(3) by simp
next
  case (Some x)
  then obtain g q' where x: "deq q = Some (g, q')" by (cases x) auto
  then have "add_mset g (elems q') = {#f#}" using deq1_ok_Some [OF assms(1) x] assms(3) by simp
  then have "g = f" "elems q' = {#}" by (auto simp: add_mset_eq_single)
  then show ?thesis using that x by simp
qed

lemma deq_single:
  assumes "deq_ok deq elems" "deq_finds deq elems" "elems q = {#f#}"
  shows "\<exists>q'. deq WORKER_BULK_SIZE q = ([f], q') \<and> elems q' = {#}"
proof -
  obtain fs q' where d: "deq WORKER_BULK_SIZE q = (fs, q')" by (cases "deq WORKER_BULK_SIZE q")
  have "mset fs + elems q' = {#f#}" "fs \<noteq> []"
    using assms(1) [unfolded deq_ok_def, rule_format, of WORKER_BULK_SIZE q] assms(2) [unfolded deq_finds_def, rule_format, of WORKER_BULK_SIZE q]
      assms(3) d by (auto simp: WORKER_BULK_SIZE_def)
  then have "fs = [f]" "elems q' = {#}" by (cases fs; auto simp: add_mset_eq_single)+
  with d show ?thesis by simp
qed

section \<open>The run\<close>

text \<open>Both queues exist and are empty.\<close>

definition no_frames :: "('p \<Rightarrow> frame multiset) \<Rightarrow> ('q \<Rightarrow> frame multiset) \<Rightarrow> ('p, 'q, 'r) Manager \<Rightarrow> bool" where
  "no_frames elemsP elemsQ s \<longleftrightarrow> inRings s \<noteq> [] \<and> outRings s \<noteq> [] \<and> elemsP (inRings s ! 0) = {#} \<and> elemsQ (outRings s ! 0) = {#}"

lemma sys_manager:
  assumes "s_pc s = Poll" "rx_all (e_nm e) (e_enqb e) (s_man s) = Inr s1"
    and "tx_all fuel (e_nm e) (e_deq1 e) (e_heap e) (e_tables e) clk (0, s1) = Some (Inr s2)"
  shows "reaches e s (s\<lparr>s_man := s2\<rparr>)"
  by (rule manager_round_is_run [OF test_poll_ok assms(1) manager_round [OF assms(2,3)]])

text \<open>First round of the manager: the packet is in the queue to the workers.\<close>

lemma path_rx:
  assumes "env_ok e idx elemsP elemsQ" "no_frames elemsP elemsQ (s_man s)" "one_waiting (e_nm e) a b (s_man s)"
    and "\<forall>f q. elemsP q = {#} \<longrightarrow> fst (e_enqb e [f] q)" "s_pc s = Poll"
  shows "reaches e s (s\<lparr>s_man := after_rx (e_nm e) (e_enqb e) a b (s_man s)\<rparr>)"
    and "elemsP (inRings (after_rx (e_nm e) (e_enqb e) a b (s_man s)) ! 0) = {#received (e_nm e) a (netmapRxRings (s_man s) ! a ! b)#}"
proof -
  have ne: "inRings (s_man s) \<noteq> []" "outRings (s_man s) \<noteq> []" "elemsP (inRings (s_man s) ! 0) = {#}" "elemsQ (outRings (s_man s) ! 0) = {#}"
    using assms(2) by (simp_all add: no_frames_def)
  have ok: "deq1_ok (e_deq1 e) elemsQ" "enqb_ok (e_enqb e) elemsP" using assms(1) by (simp_all add: env_ok_def)
  show "reaches e s (s\<lparr>s_man := after_rx (e_nm e) (e_enqb e) a b (s_man s)\<rparr>)"
    using ne by (intro sys_manager [OF assms(5) rx_all_single [OF assms(3)], where fuel = "Suc 0" and clk = "\<lambda>_. 0"] tx_all_empty [OF ok(1)])
      (simp_all add: after_rx_def Let_def)
  show "elemsP (inRings (after_rx (e_nm e) (e_enqb e) a b (s_man s)) ! 0) = {#received (e_nm e) a (netmapRxRings (s_man s) ! a ! b)#}"
    using ne ok(2) assms(4) by (simp add: after_rx_def Let_def enqb_ok_def)
qed

text \<open>The worker fetches the only frame there is and treats it.\<close>

lemma path_worker:
  assumes "env_ok e idx elemsP elemsQ" "deq_finds (e_deq e) elemsP" "i < length (s_workers s)" "s_workers s ! i = (w, [], None)" "inRings (s_man s) \<noteq> []" "outRings (s_man s) \<noteq> []"
    and "elemsP (inRings (s_man s) ! 0) = {#f#}" "elemsQ (outRings (s_man s) ! 0) = {#}" "\<forall>f q. elemsQ q = {#} \<longrightarrow> fst (e_enq e f q)"
    and "process_frame (e_ub e) (e_heap e) (arpTable (s_man s)) (w\<lparr>statsNumBatches := statsNumBatches w + 1,
      statsNumFrames := statsNumFrames w + 1, statsNumBytes := statsNumBytes w + ucast (frame_len f)\<rparr>) (memory (s_man s)) f = Inr (m', f', True)"
  shows "\<exists>w' p q. reaches e s (s\<lparr>s_man := (s_man s)\<lparr>inRings := (inRings (s_man s))[0 := p], memory := m', outRings := (outRings (s_man s))[0 := q]\<rparr>,
      s_workers := (s_workers s)[i := (w', [], None)]\<rparr>) \<and> elemsP p = {#} \<and> elemsQ q = {#f'#}"
proof -
  let ?m = "s_man s" and ?w = "w\<lparr>statsNumBatches := statsNumBatches w + 1, statsNumFrames := statsNumFrames w + 1\<rparr>"
  have "deq_ok (e_deq e) elemsP" using assms(1) by (simp add: env_ok_def)
  from deq_single [OF this assms(2,7)] obtain p where p: "e_deq e WORKER_BULK_SIZE (inRings ?m ! 0) = ([f], p)" "elemsP p = {#}" by blast
  let ?s = "s\<lparr>s_man := ?m\<lparr>inRings := (inRings ?m)[0 := p]\<rparr>, s_workers := (s_workers s)[i := (?w, [f], None)]\<rparr>"
  have "fetch e i s = Some ?s" using p(1) assms(4) by (simp add: fetch_def)
  then have 1: "reaches e s ?s" using assms(3,5) by (intro reaches.step [OF reaches.refl] sys_step.fetch)
  define q where "q = snd (e_enq e f' (outRings ?m ! 0))"
  define w' where "w' = ?w\<lparr>statsNumBytes := statsNumBytes ?w + ucast (frame_len f)\<rparr>"
  have "process_frame (e_ub e) (e_heap e) (arpTable ?m) w' (memory ?m) f = Inr (m', f', True)"
    using assms(10) by (simp add: w'_def)
  then have "process_one (e_ub e) (e_enq e) (e_heap e) (arpTable ?m) f (?w, memory ?m, outRings ?m ! 0) = Inr (w', m', q)"
    unfolding process_one_Inr by (intro conjI exI [of _ f'] exI [of _ True]) (simp_all add: w'_def q_def)
  then have "foldE (process_one (e_ub e) (e_enq e) (e_heap e) (arpTable (s_man ?s))) [f] (?w, memory (s_man ?s), outRings (s_man ?s) ! 0) = Inr (w', m', q)"
    by simp
  from batch_steps [OF _ _ _ this, of i]
  have 2: "reaches e ?s (?s\<lparr>s_man := (s_man ?s)\<lparr>memory := m', outRings := (outRings (s_man ?s))[0 := q]\<rparr>, s_workers := (s_workers ?s)[i := (w', [], None)]\<rparr>)"
    using assms(3,6) by simp
  have "elemsQ q = {#f'#}" using assms(1,8,9) by (simp add: q_def env_ok_def enq_ok_def)
  with reaches_trans [OF 2 1] p(2) show ?thesis by (intro exI [of _ w'] exI [of _ p] exI [of _ q]) simp
qed

text \<open>Both stages: from the ring to the queue back to the manager.\<close>

lemma path_in:
  fixes e :: "('p, 'q, 'r) env" and s :: "('p, 'q, 'r) sys" and a b :: nat
  defines "f \<equiv> received (e_nm e) a (netmapRxRings (s_man s) ! a ! b)"
  assumes "env_ok e idx elemsP elemsQ" "deq_finds (e_deq e) elemsP" "\<forall>f q. elemsP q = {#} \<longrightarrow> fst (e_enqb e [f] q)" "\<forall>f q. elemsQ q = {#} \<longrightarrow> fst (e_enq e f q)"
    and idle: "no_frames elemsP elemsQ (s_man s)" "one_waiting (e_nm e) a b (s_man s)" "i < length (s_workers s)" "s_workers s ! i = (w, [], None)" "s_pc s = Poll"
    and "process_frame (e_ub e) (e_heap e) (arpTable (s_man s)) (w\<lparr>statsNumBatches := statsNumBatches w + 1,
      statsNumFrames := statsNumFrames w + 1, statsNumBytes := statsNumBytes w + ucast (frame_len f)\<rparr>) (memory (s_man s)) f = Inr (m', f', True)"
  shows "\<exists>s'. reaches e s s' \<and> memory (s_man s') = m' \<and> inRings (s_man s') \<noteq> [] \<and> outRings (s_man s') \<noteq> [] \<and>
    elemsP (inRings (s_man s') ! 0) = {#} \<and> elemsQ (outRings (s_man s') ! 0) = {#f'#} \<and> numWorkers (s_man s') = numWorkers (s_man s) \<and>
    netmapTxRings (s_man s') = netmapTxRings (s_man s) \<and> freeBufs (s_man s') = butlast (freeBufs (s_man s)) \<and>
    snd (s_workers s' ! i) = ([], None) \<and> s_pc s' = Poll \<and> (\<forall>x \<in> set (rx_ids (s_man s')). quiet_ring (e_nm e) (s_man s') x)"
proof -
  define m1 where "m1 = after_rx (e_nm e) (e_enqb e) a b (s_man s)"
  let ?s = "s\<lparr>s_man := m1\<rparr>"
  have m1: "memory m1 = memory (s_man s)" "arpTable m1 = arpTable (s_man s)" "outRings m1 = outRings (s_man s)" "inRings m1 \<noteq> []"
    "numWorkers m1 = numWorkers (s_man s)" "netmapTxRings m1 = netmapTxRings (s_man s)" "freeBufs m1 = butlast (freeBufs (s_man s))"
    using idle(1) by (simp_all add: m1_def after_rx_def Let_def no_frames_def)
  have out: "outRings (s_man s) \<noteq> []" "elemsQ (outRings (s_man s) ! 0) = {#}" using idle(1) by (simp_all add: no_frames_def)
  have r1: "reaches e s ?s" and in1: "elemsP (inRings m1 ! 0) = {#f#}" using path_rx [OF assms(2) idle(1,2) assms(4) idle(5)] by (simp_all add: m1_def f_def)
  have pf: "process_frame (e_ub e) (e_heap e) (arpTable (s_man ?s)) (w\<lparr>statsNumBatches := statsNumBatches w + 1,
      statsNumFrames := statsNumFrames w + 1, statsNumBytes := statsNumBytes w + ucast (frame_len f)\<rparr>) (memory (s_man ?s)) f = Inr (m', f', True)"
    using assms(11) m1(1,2) by simp
  obtain w' P Q where r2: "reaches e ?s (?s\<lparr>s_man := (s_man ?s)\<lparr>inRings := (inRings (s_man ?s))[0 := P], memory := m', outRings := (outRings (s_man ?s))[0 := Q]\<rparr>,
      s_workers := (s_workers ?s)[i := (w', [], None)]\<rparr>)" (is "reaches e ?s ?s2") and PQ: "elemsP P = {#}" "elemsQ Q = {#f'#}"
    using path_worker [OF assms(2,3) _ _ _ _ _ _ assms(5) pf, of i] idle(3,4) m1 out in1 by auto
  have "quiet_ring (e_nm e) (s_man ?s2) x" if "x \<in> set (rx_ids (s_man ?s2))" for x
    using after_rx_quiet [OF idle(2), of x "e_enqb e"] that by (simp add: m1_def quiet_ring_def rx_ids_def after_rx_def Let_def)
  then show ?thesis using reaches_trans [OF r2 r1] m1 PQ out(1) idle(3,5) by (intro exI [of _ ?s2]) simp
qed

text \<open>Second round of the manager: the packet goes into the ring of the port it leaves by.\<close>

lemma path_tx:
  assumes "env_ok e idx elemsP elemsQ" "deq1_finds (e_deq1 e) elemsQ" "\<And>x. x \<in> set (rx_ids (s_man s)) \<Longrightarrow> quiet_ring (e_nm e) (s_man s) x"
    and "inRings (s_man s) \<noteq> []" "outRings (s_man s) \<noteq> []" "elemsQ (outRings (s_man s) ! 0) = {#f#}"
    and "iface f AND IFACE_ID = iface f" "rid = (if numWorkers (s_man s) = 1 then 0 else 1 :: u32)"
    and "ring_at (netmapTxRings (s_man s)) (unat (iface f)) (unat rid) = Inr t" "ring_ok t" "nm_ring_space (e_nm e) t \<noteq> 0" "s_pc s = Poll"
  shows "\<exists>m t'. reaches e s (s\<lparr>s_man := m\<rparr>) \<and> ring_at (netmapTxRings m) (unat (iface f)) (unat rid) = Inr t' \<and>
    buf_idx (slots t' ! unat (head t)) = idx (buf_ptr f) \<and> slot_len (slots t' ! unat (head t)) = max 60 (frame_len f) \<and>
    inRings m = inRings (s_man s) \<and> outRings m \<noteq> [] \<and> elemsQ (outRings m ! 0) = {#} \<and> memory m = memory (s_man s) \<and>
    freeBufs m = freeBufs (s_man s) @ [buf_idx (slots t ! unat (head t))]"
proof -
  let ?m = "s_man s"
  have ok: "deq1_ok (e_deq1 e) elemsQ" "api_ok (e_nm e) idx" using assms(1) by (simp_all add: env_ok_def)
  obtain q where q: "e_deq1 e (outRings ?m ! 0) = Some (f, q)" "elemsQ q = {#}" using deq1_single [OF ok(1) assms(2,6)] by blast
  let ?n = "?m\<lparr>outRings := (outRings ?m)[0 := q]\<rparr>"
  have rid: "(if 0 + 1 = numWorkers ?n then 0 else 0 + 1 :: u32) = rid" using assms(8) by auto
  then have at: "ring_at (netmapTxRings ?n) (unat (iface f)) (unat (if 0 + 1 = numWorkers ?n then 0 else 0 + 1 :: u32)) = Inr t"
    using assms(9) unfolding rid by simp
  obtain t' where t': "tx_frame (e_nm e) (e_heap e) (e_tables e) (\<lambda>_. 0) f (0, ?n) = Inr (rid,
      ?n\<lparr>freeBufs := freeBufs ?n @ [buf_idx (slots t ! unat (head t))], statsNumTransmitted := statsNumTransmitted ?n + 1,
        netmapTxRings := set_ring (unat (iface f)) (unat rid) t' (netmapTxRings ?n)\<rparr>)"
    "buf_idx (slots t' ! unat (head t)) = idx (buf_ptr f)" "slot_len (slots t' ! unat (head t)) = max 60 (frame_len f)"
    using tx_frame_resolved [OF ok(2) assms(7) at assms(10,11), of "e_heap e" "e_tables e" "\<lambda>_. 0"] unfolding rid by blast
  define m where "m = ?n\<lparr>freeBufs := freeBufs ?n @ [buf_idx (slots t ! unat (head t))], statsNumTransmitted := statsNumTransmitted ?n + 1,
        netmapTxRings := set_ring (unat (iface f)) (unat rid) t' (netmapTxRings ?n)\<rparr>"
  have out: "outRings m \<noteq> []" "elemsQ (outRings m ! 0) = {#}" using assms(5) q(2) by (simp_all add: m_def)
  have "tx_all (Suc (Suc 0)) (e_nm e) (e_deq1 e) (e_heap e) (e_tables e) (\<lambda>_. 0) (0, ?m) = Some (Inr m)"
    using assms(5) q(1) t'(1) [folded m_def] deq1_empty [OF ok(1) out(2)] out(1) by simp
  moreover have "rx_all (e_nm e) (e_enqb e) ?m = Inr ?m" using assms(3,4) by (intro rx_all_quiet)
  ultimately have "reaches e s (s\<lparr>s_man := m\<rparr>)" using assms(12) by (intro sys_manager)
  moreover have "ring_at (netmapTxRings m) (unat (iface f)) (unat rid) = Inr t'"
    using assms(9) by (auto simp: m_def ring_at_def set_ring_def split: if_splits)
  ultimately show ?thesis using t'(2,3) out by (intro exI [of _ m] exI [of _ t']) (simp add: m_def)
qed

section \<open>Properties\<close>

text \<open>
  C4: an idle router forwards. If one packet waits in a ring of some port, the threads can bring it to the ring of the port of the next hop that
  belongs to the best route of its destination: the slot at the head of that ring gets the very buffer the packet was received in, with the
  addresses of the next hop and of the receiving port, the time to live decremented and a header that sums up; the payload is untouched, the
  buffer that was in the slot becomes free in place of the one that went into the receiving ring, and the router is idle again. The queues take a frame when
  they are empty and find one when there is one.
\<close>

theorem packet_crosses_router:
  fixes e :: "('p, 'q, 'r) env" and s :: "('p, 'q, 'r) sys" and a b :: nat
  defines "r \<equiv> netmapRxRings (s_man s) ! a ! b" and "rid \<equiv> if numWorkers (s_man s) = 1 then 0 else 1 :: u32" and "m \<equiv> memory (s_man s)"
  defines "f \<equiv> received (e_nm e) a r"
  defines "dst \<equiv> d_ip (load_ipv4 m (buf_ptr f + sizeof_ether))"
  assumes env: "env_ok e idx elemsP elemsQ" "deq_finds (e_deq e) elemsP" "deq1_finds (e_deq1 e) elemsQ" "\<forall>f q. elemsP q = {#} \<longrightarrow> fst (e_enqb e [f] q)" "\<forall>f q. elemsQ q = {#} \<longrightarrow> fst (e_enq e f q)"
    and idle: "no_frames elemsP elemsQ (s_man s)" "one_waiting (e_nm e) a b (s_man s)" "i < length (s_workers s)" "s_workers s ! i = (w, [], None)" "s_pc s = Poll"
    and packet: "find_iface (e_heap e) (w_interfaces w) (ucast (iface f AND IFACE_ID)) = Some p" "ethertype (load_ether m (buf_ptr f)) = htons 0x0800"
      "verified m (buf_ptr f + sizeof_ether) (frame_len f)" "dst \<notin> set (IPs (e_heap e p))"
    and route: "lpm_ready es" "buildTrie (e_ub e) es = Inr (cur_lpm w)" "is_best (routes es) (ntohl dst) rt"
      "lookup_hop (arpTable (s_man s)) (cur_arp_table w) (index rt) (ntohl dst) = Inr nh" "nextHop_valid nh"
    and port: "netmapInterface nh AND IFACE_ID = netmapInterface nh"
      "ring_at (netmapTxRings (s_man s)) (unat (netmapInterface nh)) (unat rid) = Inr t" "ring_ok t" "nm_ring_space (e_nm e) t \<noteq> 0"
  shows "\<exists>s' t'. reaches e s s' \<and> ring_at (netmapTxRings (s_man s')) (unat (netmapInterface nh)) (unat rid) = Inr t' \<and>
    buf_idx (slots t' ! unat (head t)) = buf_idx (slots r ! unat (head r)) \<and>
    slot_len (slots t' ! unat (head t)) = max 60 (slot_len (slots r ! unat (head r))) \<and>
    load_ether (memory (s_man s')) (buf_ptr f) = \<lparr>d_mac = nh_mac nh, s_mac = if_mac (e_heap e p), ethertype = htons 0x0800\<rparr> \<and>
    load_ipv4 (memory (s_man s')) (buf_ptr f + sizeof_ether) = ttl_step (load_ipv4 m (buf_ptr f + sizeof_ether)) \<and>
    oc (hdr_sum (memory (s_man s')) (buf_ptr f + sizeof_ether) +
      unat (ntohs (checksum (load_ipv4 (memory (s_man s')) (buf_ptr f + sizeof_ether))))) = 65535 \<and>
    (\<forall>x. x < buf_ptr f \<or> buf_ptr f + 34 \<le> x \<longrightarrow> memory (s_man s') x = m x) \<and>
    freeBufs (s_man s') = butlast (freeBufs (s_man s)) @ [buf_idx (slots t ! unat (head t))] \<and>
    no_frames elemsP elemsQ (s_man s') \<and> snd (s_workers s' ! i) = ([], None) \<and> s_pc s' = Poll"
proof -
  let ?w = "w\<lparr>statsNumBatches := statsNumBatches w + 1, statsNumFrames := statsNumFrames w + 1, statsNumBytes := statsNumBytes w + ucast (frame_len f)\<rparr>"
  let ?f = "f\<lparr>iface := netmapInterface nh\<rparr>"
  have find: "find_iface (e_heap e) (w_interfaces ?w) (ucast (iface f AND IFACE_ID)) = Some p" and lpm: "buildTrie (e_ub e) es = Inr (cur_lpm ?w)"
    and hop: "lookup_hop (arpTable (s_man s)) (cur_arp_table ?w) (index rt) (ntohl (d_ip (load_ipv4 m (buf_ptr f + sizeof_ether)))) = Inr nh"
    using packet(1) route(2,4) by (simp_all add: dst_def)
  obtain m' where m': "process_frame (e_ub e) (e_heap e) (arpTable (s_man s)) ?w m f = Inr (m', ?f, True)"
    and eth: "load_ether m' (buf_ptr f) = \<lparr>d_mac = nh_mac nh, s_mac = if_mac (e_heap e p), ethertype = htons 0x0800\<rparr>"
    and ip: "load_ipv4 m' (buf_ptr f + sizeof_ether) = ttl_step (load_ipv4 m (buf_ptr f + sizeof_ether))"
      "oc (hdr_sum m' (buf_ptr f + sizeof_ether) + unat (ntohs (checksum (load_ipv4 m' (buf_ptr f + sizeof_ether))))) = 65535"
    and same: "\<forall>x. x < buf_ptr f \<or> buf_ptr f + 34 \<le> x \<longrightarrow> m' x = m x"
    using process_frame_best [OF find packet(2,3) _ route(1) lpm _ hop route(5)] packet(4) route(3) unfolding dst_def by blast
  obtain s2 where r2: "reaches e s s2" and s2: "memory (s_man s2) = m'" "inRings (s_man s2) \<noteq> []" "outRings (s_man s2) \<noteq> []"
    "elemsP (inRings (s_man s2) ! 0) = {#}" "elemsQ (outRings (s_man s2) ! 0) = {#?f#}" "numWorkers (s_man s2) = numWorkers (s_man s)"
    "netmapTxRings (s_man s2) = netmapTxRings (s_man s)" "freeBufs (s_man s2) = butlast (freeBufs (s_man s))" "snd (s_workers s2 ! i) = ([], None)" "s_pc s2 = Poll"
    and quiet: "\<And>x. x \<in> set (rx_ids (s_man s2)) \<Longrightarrow> quiet_ring (e_nm e) (s_man s2) x"
    using path_in [OF env(1,2,4,5) idle m' [unfolded m_def f_def r_def], folded r_def, folded f_def] by blast
  have port': "iface ?f AND IFACE_ID = iface ?f" "rid = (if numWorkers (s_man s2) = 1 then 0 else 1)"
    "ring_at (netmapTxRings (s_man s2)) (unat (iface ?f)) (unat rid) = Inr t"
    using port(1,2) s2(6,7) by (simp_all add: rid_def)
  have buf: "idx (buf_ptr ?f) = buf_idx (slots r ! unat (head r))" "frame_len ?f = slot_len (slots r ! unat (head r))"
    using env(1) by (simp_all add: f_def received_def env_ok_def api_ok_def)
  obtain m3 t' where step: "reaches e s2 (s2\<lparr>s_man := m3\<rparr>)" and t': "ring_at (netmapTxRings m3) (unat (iface ?f)) (unat rid) = Inr t'"
      "buf_idx (slots t' ! unat (head t)) = idx (buf_ptr ?f)" "slot_len (slots t' ! unat (head t)) = max 60 (frame_len ?f)"
    and m3: "inRings m3 = inRings (s_man s2)" "outRings m3 \<noteq> []" "elemsQ (outRings m3 ! 0) = {#}" "memory m3 = memory (s_man s2)"
      "freeBufs m3 = freeBufs (s_man s2) @ [buf_idx (slots t ! unat (head t))]"
    using path_tx [OF env(1,3) quiet s2(2,3,5) port' port(3,4) s2(10)] by blast
  have "reaches e s (s2\<lparr>s_man := m3\<rparr>)" using reaches_trans [OF step r2] .
  moreover have "no_frames elemsP elemsQ m3" using s2(2,4) m3(1-3) by (simp add: no_frames_def)
  ultimately show ?thesis using t' eth ip same m3(4,5) s2(1,8,9,10) unfolding buf
    by (intro exI [of _ "s2\<lparr>s_man := m3\<rparr>"] exI [of _ t']) simp
qed

text \<open>A router with three ports whose third one has received the sample packet.\<close>

definition path_env :: "(frame list, frame list, u32) env" where
  "path_env = test_env\<lparr>e_heap := port_heap\<rparr>"

definition path_manager :: "(frame list, frame list, u32) Manager" where
  "path_manager = test_manager\<lparr>outRings := [[]], numInterfaces := 3, arpTable := worker_arp, memory := test_packet,
     netmapRxRings := [[test_ring [4] 0], [test_ring [5] 0], [test_ring [0, 6] 1]],
     netmapTxRings := [[test_ring [7] 0], [test_ring [9, 10] 1], [test_ring [8] 0]]\<rparr>"

definition path_sys :: "trie \<Rightarrow> (frame list, frame list, u32) sys" where
  "path_sys t = \<lparr>s_man = path_manager, s_pc = Poll, s_workers = [(new_Worker t 1 [1, 2] 0, [], None)]\<rparr>"

lemma path_manager_simps:
  "memory path_manager = test_packet" "arpTable path_manager = worker_arp" "numWorkers path_manager = 1" "freeBufs path_manager = [1, 2, 3]"
  "inRings path_manager = [[]]" "outRings path_manager = [[]]"
  "netmapRxRings path_manager = [[test_ring [4] 0], [test_ring [5] 0], [test_ring [0, 6] 1]]"
  "netmapTxRings path_manager = [[test_ring [7] 0], [test_ring [9, 10] 1], [test_ring [8] 0]]"
  "rx_ids path_manager = [(0, 0), (1, 0), (2, 0)]"
  by (simp_all add: path_manager_def test_manager_def rx_ids_def upt_rec)

lemma path_waiting: "one_waiting test_api 2 0 path_manager"
  by (simp add: one_waiting_def path_manager_simps quiet_ring_def test_ring_simps ring_ok_def advanced_def Let_def)
    (simp add: test_api_def test_ring_def)

lemma path_received: "received test_api 2 (test_ring [0, 6] 1) = test_frame"
  by (simp add: received_def test_ring_simps new_frame_def) (simp add: test_api_def)

theorem packet_crosses_router_witness:
  "\<exists>t s' t'. buildTrie (\<lambda>_ _. 0) test_numbered = Inr t \<and> reaches path_env (path_sys t) s' \<and>
     ring_at (netmapTxRings (s_man s')) 1 0 = Inr t' \<and> buf_idx (slots t' ! 0) = 0 \<and> slot_len (slots t' ! 0) = 98 \<and>
     d_mac (load_ether (memory (s_man s')) 0) = Mac 2 0 0 0 9 9 \<and> ttl (load_ipv4 (memory (s_man s')) 14) = 63 \<and> freeBufs (s_man s') = [1, 2, 9]"
proof -
  obtain t where t: "buildTrie (\<lambda>_ _. 0) test_numbered = Inr t" by (rule test_trie)
  let ?w = "new_Worker t 1 [1, 2] 0" and ?nh = "\<lparr>nh_mac = Mac 2 0 0 0 9 9, netmapInterface = 1\<rparr> :: nextHop" and ?s = "path_sys t"
  let ?idx = "\<lambda>a :: addr. of_nat (a div 2048) :: u32"
  have e: "e_nm path_env = test_api" "e_heap path_env = port_heap" "e_ub path_env = (\<lambda>_ _. 0)" "e_enqb path_env = list_enqb" "e_enq path_env = list_enq"
    by (simp_all add: path_env_def test_env_def)
  have s: "s_man ?s = path_manager" "s_workers ?s = [(?w, [], None)]" "s_pc ?s = Poll" by (simp_all add: path_sys_def)
  have w: "w_interfaces ?w = [1, 2]" "cur_lpm ?w = t" "cur_arp_table ?w = 1" by (simp_all add: new_Worker_def)
  have env: "env_ok path_env ?idx mset mset" using test_env_ok by (simp add: env_ok_def path_env_def)
  have finds: "deq_finds (e_deq path_env) mset" "deq1_finds (e_deq1 path_env) mset"
    using list_deq_finds list_queue_finds(2) by (simp_all add: path_env_def test_env_def)
  have room: "\<forall>f q. mset q = {#} \<longrightarrow> fst (e_enqb path_env [f] q)" "\<forall>f q. mset q = {#} \<longrightarrow> fst (e_enq path_env f q)"
    by (simp_all add: e list_enqb_def list_enq_def)
  have idle: "no_frames mset mset (s_man ?s)" "one_waiting (e_nm path_env) 2 0 (s_man ?s)" "0 < length (s_workers ?s)" "s_workers ?s ! 0 = (?w, [], None)" "s_pc ?s = Poll"
    using path_waiting by (simp_all add: no_frames_def path_manager_simps s e)
  have f: "received (e_nm path_env) 2 (netmapRxRings (s_man ?s) ! 2 ! 0) = test_frame" "memory (s_man ?s) = test_packet" "numWorkers (s_man ?s) = 1"
    using path_received by (simp_all add: e s path_manager_simps)
  have nh: "lookup_hop (arpTable (s_man ?s)) (cur_arp_table ?w) (index test_best) 0x10000040 = Inr ?nh"
    unfolding s w by (simp add: path_manager_simps test_best_index lookup_hop_def worker_arp_def hops_of_def NH_DIRECTLY_CONNECTED_def)
  have v: "nextHop_valid ?nh" by (simp add: nextHop_valid_def invalidMac_def uint16_t_max_def)
  have port: "netmapInterface ?nh AND IFACE_ID = netmapInterface ?nh" "ring_at (netmapTxRings (s_man ?s)) 1 0 = Inr (test_ring [9, 10] 1)"
    "ring_ok (test_ring [9, 10] 1)" "nm_ring_space (e_nm path_env) (test_ring [9, 10] 1) \<noteq> 0"
    by (simp_all add: IFACE_ID_def ring_at_def ring_ok_def test_ring_simps path_manager_simps s e)
  have 64: "ttl (load_ipv4 test_packet 14) = 64" by code_simp
  show ?thesis
    using packet_crosses_router [where s = ?s and a = 2 and b = 0 and i = 0 and w = ?w and p = 2 and es = test_numbered and rt = test_best and nh = ?nh
        and t = "test_ring [9, 10] 1", OF env finds room idle]
      test_frame_facts ready_test_numbered t test_best nh v port 64 unfolding f w e
    by (auto simp: new_frame_def sizeof_ether_def test_ring_simps s path_manager_simps path_received max_def)
qed

end
