(* ===== verification/Resolution.thy ===== *)
theory Resolution
  imports System
begin

text \<open>
  Address resolution for a directly connected station, across the threads: the worker finds no address and marks the packet, the manager turns it
  into an ARP request, the reply comes back through a worker to the manager, and the next packet leaves with the address.
\<close>

section \<open>Ports in indices and frames\<close>

lemma small_bits:
  assumes "unat (n :: u32) < 4096"
  shows "12 \<le> k \<Longrightarrow> \<not> bit n k"
proof -
  have "take_bit 12 n = n" using assms by (simp add: word_unat_eq_iff unsigned_take_bit_eq take_bit_nat_eq_self)
  then show "12 \<le> k \<Longrightarrow> \<not> bit n k" by (metis bit_take_bit_iff not_le)
qed

lemma direct_port:
  assumes "unat (netmapIndex i) < 4096"
  shows "direct_index i AND NH_DIRECTLY_CONNECTED \<noteq> 0" "direct_index i XOR NH_DIRECTLY_CONNECTED = ucast (netmapIndex i)"
    "direct_index i \<noteq> NH_INVALID"
    "(ucast (netmapIndex i) :: u16) AND IFACE_ID = ucast (netmapIndex i)" "ucast (ucast (netmapIndex i) :: u16) = netmapIndex i"
    "(ucast (netmapIndex i) :: u16) \<noteq> uint16_t_max"
proof -
  note small = small_bits [OF assms]
  have low: "bit (netmapIndex i) k \<Longrightarrow> k < 12" for k using small not_le by blast
  have b: "unat (netmapIndex i) < 0x7FFF" using assms by simp
  show "direct_index i AND NH_DIRECTLY_CONNECTED \<noteq> 0" "direct_index i \<noteq> NH_INVALID" by (rule direct_index_bound [OF b])+
  show "direct_index i XOR NH_DIRECTLY_CONNECTED = ucast (netmapIndex i)"
    using direct_index_bound(2) [OF b] b by (simp add: word_unat_eq_iff unsigned_ucast_eq take_bit_nat_eq_self)
  show "(ucast (netmapIndex i) :: u16) AND IFACE_ID = ucast (netmapIndex i)"
    by (rule bit_word_eqI) (auto simp: bit_and_iff bit_IFACE_ID bit_unsigned_iff dest: low)
  show "ucast (ucast (netmapIndex i) :: u16) = netmapIndex i"
    by (rule bit_word_eqI) (auto simp: bit_unsigned_iff dest: low)
  have "bit uint16_t_max 12" by (simp add: uint16_t_max_def)
  then show "(ucast (netmapIndex i) :: u16) \<noteq> uint16_t_max" using small [of 12] by (metis bit_unsigned_iff order_refl)
qed

section \<open>The packets\<close>

definition arrives :: "iheap \<Rightarrow> Worker \<Rightarrow> mem \<Rightarrow> frame \<Rightarrow> u32 \<Rightarrow> bool" where
  "arrives h w m f dst \<longleftrightarrow> (\<exists>q. find_iface h (w_interfaces w) (ucast (iface f AND IFACE_ID)) = Some q \<and>
     d_ip (load_ipv4 m (buf_ptr f + sizeof_ether)) \<notin> set (IPs (h q))) \<and>
     ethertype (load_ether m (buf_ptr f)) = htons 0x0800 \<and> verified m (buf_ptr f + sizeof_ether) (frame_len f) \<and>
     d_ip (load_ipv4 m (buf_ptr f + sizeof_ether)) = htonl dst"

lemma arrives_forward:
  assumes "arrives h w m f dst" "trie_route ub (cur_lpm w) dst = direct_index (h p)" "unat (netmapIndex (h p)) < 4096"
  shows "\<exists>q m'. d_ip (load_ipv4 m' (buf_ptr f + sizeof_ether)) = htonl dst \<and>
    process_frame ub h a w m f = (case directlyConnected a dst of
      None \<Rightarrow> Inr (m', f\<lparr>iface := ucast (netmapIndex (h p)) OR IFACE_NOMAC\<rparr>, True)
    | Some nh \<Rightarrow> if nextHop_valid nh then Inr (store_ether (buf_ptr f) ((load_ether m (buf_ptr f))\<lparr>d_mac := nh_mac nh, s_mac := if_mac (h q)\<rparr>) m',
          f\<lparr>iface := netmapInterface nh\<rparr>, True)
        else if netmapInterface nh = uint16_t_max then Inl Abort
        else Inr (m', f\<lparr>iface := netmapInterface nh OR IFACE_NOMAC\<rparr>, True))"
proof -
  let ?p = "buf_ptr f + sizeof_ether" and ?port = "ucast (netmapIndex (h p)) :: u16"
  obtain q where q: "find_iface h (w_interfaces w) (ucast (iface f AND IFACE_ID)) = Some q" "d_ip (load_ipv4 m ?p) \<notin> set (IPs (h q))"
    and e: "ethertype (load_ether m (buf_ptr f)) = htons 0x0800" "verified m ?p (frame_len f)" "d_ip (load_ipv4 m ?p) = htonl dst"
    using assms(1) unfolding arrives_def by blast
  let ?m = "store_ipv4 ?p (ttl_step (load_ipv4 m ?p)) m"
  note port = direct_port [OF assms(3)]
  have dst: "ntohl (d_ip (load_ipv4 m ?p)) = dst" using e(3) by simp
  have hop: "lookup_hop a (cur_arp_table w) (direct_index (h p)) dst = (case directlyConnected a dst of
      Some nh \<Rightarrow> Inr nh | None \<Rightarrow> Inr (new_nextHop\<lparr>nh_mac := invalidMac, netmapInterface := ?port\<rparr>))"
    using port(1,2) by (simp add: lookup_hop_def split: option.splits)
  have "process_frame ub h a w m f = bindE (forward ub h a w q m f) (\<lambda>(m, f). Inr (m, f, True))"
    using process_frame_ipv4 [OF q(1) e(1)] e(2) q(2) by simp
  moreover have "d_ip (load_ipv4 ?m ?p) = htonl dst" using e(3) by (simp add: ip.load_store)
  ultimately show ?thesis
    by (intro exI [of _ q] exI [of _ ?m])
      (simp add: forward_eq Let_def dst assms(2) port hop nextHop_valid_def split: option.splits)
qed

section \<open>The manager\<close>

text \<open>A packet that waits for an address becomes an ARP request for its destination.\<close>

lemma tx_flags_request:
  assumes "unat (netmapIndex (h p)) < 4096" "find_iface h (arp_interfaces (arpTable s)) (netmapIndex (h p)) = Some p" "IPs (h p) = front # rest"
    and "d_ip (load_ipv4 (memory s) (buf_ptr f + sizeof_ether)) = htonl dst" "missingMACs s (htonl dst) = None"
    and "iface f = ucast (netmapIndex (h p)) OR IFACE_NOMAC"
  shows "\<exists>f' s'. tx_flags h th clk f (ringid, s) = Inr (f', ringid, s') \<and> iface f' = ucast (netmapIndex (h p)) \<and> buf_ptr f' = buf_ptr f \<and>
    arpTable s' = arpTable s \<and>
    load_ether (memory s') (buf_ptr f) = request_ether (if_mac (h p)) \<and>
    load_arp (memory s') (buf_ptr f + sizeof_ether) = request_arp (if_mac (h p)) (htonl front) (htonl dst)"
proof -
  let ?port = "ucast (netmapIndex (h p)) :: u16"
  note port = direct_port [OF assms(1)]
  have id: "iface f AND IFACE_ID = ?port" using port(4) by (simp add: assms(6) flag_keeps_id)
  have no: "\<not> bit ?port 13" "\<not> bit ?port 14" using id_no_flag [of ?port] unfolding port(4) by auto
  have "\<not> bit (iface f) 14" "\<not> bit (iface f) 13" "bit (iface f) 12" using no by (auto simp: assms(6) bit_or_iff bit_flags)
  then have flags: "iface f AND IFACE_HOST = 0" "iface f AND IFACE_ARP = 0" "iface f AND IFACE_NOMAC \<noteq> 0"
    using flag_test [of "iface f"] by auto
  have "find_iface h (arp_interfaces (arpTable s)) (ucast ?port) = Some p" using assms(2) port(5) by simp
  note req = prepareRequest_eq [OF this assms(3)]
  show ?thesis
    by (simp add: tx_flags_def flags missing_mac_def assms(4,5) clock_now_def id req Let_def ar.load_store header_disjoint eth.load_store)
qed

text \<open>A reply from a station that is no gateway enters its address.\<close>

lemma tx_flags_reply:
  assumes "arp_inv h th (arpTable s)" "routingTable (arpTable s) = Some rt" "\<And>nh. nh \<in> set (nextHopMapping (th rt)) \<Longrightarrow> nh_ip nh \<noteq> dst"
    and "directlyConnected (arpTable s) dst = None" "unat (netmapIndex (h p)) < 4096" "iface k = ucast (netmapIndex (h p)) OR IFACE_ARP"
    and "ethertype (load_ether (memory s) (buf_ptr k)) = htons 0x0806"
    and "op (load_arp (memory s) (buf_ptr k + sizeof_ether)) = htons (ucast OP_REPLY)"
    and "s_proto_addr (load_arp (memory s) (buf_ptr k + sizeof_ether)) = htonl dst"
  shows "\<exists>s'. tx_flags h th clk k (ringid, s) = Inr (k, ringid, s') \<and> memory s' = memory s \<and>
    directlyConnected (arpTable s') dst = Some \<lparr>nh_mac = s_hw_addr (load_arp (memory s) (buf_ptr k + sizeof_ether)),
      netmapInterface = ucast (netmapIndex (h p))\<rparr>"
proof -
  let ?port = "ucast (netmapIndex (h p)) :: u16" and ?mc = "s_hw_addr (load_arp (memory s) (buf_ptr k + sizeof_ether))"
  note port = direct_port [OF assms(5)]
  have id: "iface k AND IFACE_ID = ?port" using port(4) by (simp add: assms(6) flag_keeps_id)
  have "\<not> bit (iface k) 14" "bit (iface k) 13"
    using id_no_flag(3) [of ?port] unfolding port(4) by (auto simp: assms(6) bit_or_iff bit_flags)
  then have flags: "iface k AND IFACE_HOST = 0" "iface k AND IFACE_ARP \<noteq> 0" using flag_test [of "iface k"] by auto
  have no: "\<not> hop_at h dst ifc nh" if "nh \<in> set (nextHopMapping (th rt))" for ifc nh using assms(3) [OF that] by (simp add: hop_at_def)
  have "learn h th dst ?mc ?port (arpTable s) = Inr (False, (arpTable s)\<lparr>directlyConnected :=
      map_insert dst \<lparr>nh_mac = ?mc, netmapInterface = ?port\<rparr> (directlyConnected (arpTable s))\<rparr>)"
    using no by (rule_tac learn_cases [OF assms(1,2), of dst ?port ?mc]) (use nth_mem in blast)+
  then show ?thesis using assms(4,9)
    by (simp add: tx_flags_def flags handleReply_eq [OF assms(7,8)] id map_insert_def)
qed

section \<open>Properties\<close>

text \<open>
  C12: a directly connected station is resolved through the threads of the router. Its address is unknown when the first packet for it comes: the worker passes
  the packet to the manager with the port of the route and the flag for a missing address; the manager makes it an ARP request for
  the station, to be sent on that port. When the reply of the station has come back to the manager, whatever happened to the rest of memory and to the
  frames in between, the next packet for the station leaves on that port with the address of the reply.
\<close>

theorem station_resolved:
  assumes "lpm_ready es" "buildTrie ub es = Inr (cur_lpm w)" "is_best (routes es) dst r" "index r = direct_index (h p)"
    and "unat (netmapIndex (h p)) < 4096" "IPs (h p) = front # rest"
    and "arp_inv h th (arpTable s)" "routingTable (arpTable s) = Some rt" "\<forall>nh \<in> set (nextHopMapping (th rt)). nh_ip nh \<noteq> dst"
    and "find_iface h (arp_interfaces (arpTable s)) (netmapIndex (h p)) = Some p"
    and "directlyConnected (arpTable s) dst = None" "missingMACs s (htonl dst) = None"
    and "arrives h w m f dst" "arrives h w m' g dst"
    and "iface k = ucast (netmapIndex (h p)) OR IFACE_ARP" "ethertype (load_ether mr (buf_ptr k)) = htons 0x0806"
    and "op (load_arp mr (buf_ptr k + sizeof_ether)) = htons (ucast OP_REPLY)"
    and "s_proto_addr (load_arp mr (buf_ptr k + sizeof_ether)) = htonl dst" "s_hw_addr (load_arp mr (buf_ptr k + sizeof_ether)) \<noteq> zero_mac"
  shows "\<exists>m1 f1 f2 s2 s4 m5. process_frame ub h (arpTable s) w m f = Inr (m1, f1, True) \<and>
    tx_flags h th clk f1 (ringid, s\<lparr>memory := m1\<rparr>) = Inr (f2, ringid, s2) \<and> iface f2 = ucast (netmapIndex (h p)) \<and>
    load_ether (memory s2) (buf_ptr f2) = request_ether (if_mac (h p)) \<and>
    load_arp (memory s2) (buf_ptr f2 + sizeof_ether) = request_arp (if_mac (h p)) (htonl front) (htonl dst) \<and>
    tx_flags h th clk k (ringid', s2\<lparr>memory := mr\<rparr>) = Inr (k, ringid', s4) \<and>
    process_frame ub h (arpTable s4) w m' g = Inr (m5, g\<lparr>iface := ucast (netmapIndex (h p))\<rparr>, True) \<and>
    d_mac (load_ether m5 (buf_ptr g)) = s_hw_addr (load_arp mr (buf_ptr k + sizeof_ether))"
proof -
  let ?port = "ucast (netmapIndex (h p)) :: u16" and ?mc = "s_hw_addr (load_arp mr (buf_ptr k + sizeof_ether))"
  have ix: "trie_route ub (cur_lpm w) dst = direct_index (h p)" using bt.hit [OF assms(1-3)] assms(4) by simp
  obtain m1 where m1: "d_ip (load_ipv4 m1 (buf_ptr f + sizeof_ether)) = htonl dst"
    "process_frame ub h (arpTable s) w m f = Inr (m1, f\<lparr>iface := ?port OR IFACE_NOMAC\<rparr>, True)"
    using arrives_forward [OF assms(13) ix assms(5), of "arpTable s"] assms(11) by auto
  let ?f = "f\<lparr>iface := ?port OR IFACE_NOMAC\<rparr>" and ?s = "s\<lparr>memory := m1\<rparr>"
  obtain f2 s2 where s2: "tx_flags h th clk ?f (ringid, ?s) = Inr (f2, ringid, s2)" "iface f2 = ?port" "buf_ptr f2 = buf_ptr f" "arpTable s2 = arpTable s"
    "load_ether (memory s2) (buf_ptr f) = request_ether (if_mac (h p))"
    "load_arp (memory s2) (buf_ptr f + sizeof_ether) = request_arp (if_mac (h p)) (htonl front) (htonl dst)"
    using tx_flags_request [of h p ?s front rest ?f dst th clk ringid] assms(5,6,10,12) m1(1) by auto
  obtain s4 where s4: "tx_flags h th clk k (ringid', s2\<lparr>memory := mr\<rparr>) = Inr (k, ringid', s4)"
    "directlyConnected (arpTable s4) dst = Some \<lparr>nh_mac = ?mc, netmapInterface = ?port\<rparr>"
    using tx_flags_reply [of h th "s2\<lparr>memory := mr\<rparr>" rt dst p k] assms(5,7-9,11,15-18) s2(4) by auto
  have valid: "nextHop_valid \<lparr>nh_mac = ?mc, netmapInterface = ?port\<rparr>"
    using assms(19) direct_port(6) [OF assms(5)] by (simp add: nextHop_valid_def invalidMac_def)
  obtain q m5 where "process_frame ub h (arpTable s4) w m' g =
      Inr (store_ether (buf_ptr g) ((load_ether m' (buf_ptr g))\<lparr>d_mac := ?mc, s_mac := if_mac (h q)\<rparr>) m5, g\<lparr>iface := ?port\<rparr>, True)"
    using arrives_forward [OF assms(14) ix assms(5), of "arpTable s4"] s4(2) valid by auto
  moreover from this have "d_mac (load_ether (store_ether (buf_ptr g) ((load_ether m' (buf_ptr g))\<lparr>d_mac := ?mc, s_mac := if_mac (h q)\<rparr>) m5) (buf_ptr g)) = ?mc"
    by (simp add: eth.load_store)
  ultimately show ?thesis using m1(2) s2 s4(1) by metis
qed

text \<open>The station 10.0.1.5 behind the first port of the sample router.\<close>

definition station_packet :: mem where
  "station_packet = mem_of
     [0x02, 0, 0, 0, 0, 0x01, 0x02, 0, 0, 0, 0, 0x02, 0x08, 0x00,
      0x45, 0, 0, 0x54, 0, 0, 0x40, 0, 0x40, 0x01, 0x24, 0xA3, 0x0A, 0, 0x01, 0x02, 0x0A, 0, 0x01, 0x05]"

definition station_reply :: mem where
  "station_reply = store_ether 0 (request_ether (Mac 2 0 0 0 7 7))
     (store_arp sizeof_ether (reply_arp (Mac 2 0 0 0 7 7) (request_arp (Mac 2 0 0 0 1 1) (htonl 0x0A000101) (htonl 0x0A000105))) (\<lambda>_. 0))"

definition station_route :: route where
  "station_route = (test_route 0x0A000100 0 24 1)\<lparr>index := direct_index (test_heap 1)\<rparr>"

lemma station_facts:
  "is_best (routes test_numbered) 0x0A000105 station_route" "unat (netmapIndex (port_heap 1)) < 4096"
  "find_iface port_heap [1, 2] (netmapIndex (port_heap 1)) = Some 1" "direct_index (test_heap 1) = direct_index (port_heap 1)"
  by code_simp+

lemma station_arrives: "arrives port_heap (new_Worker t n [1, 2] i) station_packet test_frame 0x0A000105"
proof -
  have "find_iface port_heap [1, 2] (ucast (iface test_frame AND IFACE_ID)) = Some 2"
    "d_ip (load_ipv4 station_packet (buf_ptr test_frame + sizeof_ether)) \<notin> set (IPs (port_heap 2))"
    "ethertype (load_ether station_packet (buf_ptr test_frame)) = htons 0x0800"
    "verified station_packet (buf_ptr test_frame + sizeof_ether) (frame_len test_frame)"
    "d_ip (load_ipv4 station_packet (buf_ptr test_frame + sizeof_ether)) = htonl 0x0A000105"
    by code_simp+
  then show ?thesis by (simp add: arrives_def new_Worker_def)
qed

theorem station_resolved_witness:
  "\<exists>t m1 f1 f2 s2 s4 m5. buildTrie (\<lambda>_ _. 0) test_numbered = Inr t \<and>
     process_frame (\<lambda>_ _. 0) port_heap empty_arp (new_Worker t 1 [1, 2] 0) station_packet test_frame = Inr (m1, f1, True) \<and>
     tx_flags port_heap empty_heap (\<lambda>_. 0) f1 (0, test_manager\<lparr>arpTable := empty_arp, memory := m1\<rparr>) = Inr (f2, 0, s2) \<and> iface f2 = 1 \<and>
     tx_flags port_heap empty_heap (\<lambda>_. 0) (new_frame\<lparr>iface := 0x2001\<rparr>) (0, s2\<lparr>memory := station_reply\<rparr>) = Inr (new_frame\<lparr>iface := 0x2001\<rparr>, 0, s4) \<and>
     process_frame (\<lambda>_ _. 0) port_heap (arpTable s4) (new_Worker t 1 [1, 2] 0) station_packet test_frame = Inr (m5, test_frame\<lparr>iface := 1\<rparr>, True) \<and>
     d_mac (load_ether m5 0) = Mac 2 0 0 0 7 7"
proof -
  obtain t where t: "buildTrie (\<lambda>_ _. 0) test_numbered = Inr t" by (rule test_trie)
  let ?w = "new_Worker t 1 [1, 2] 0" and ?s = "test_manager\<lparr>arpTable := empty_arp\<rparr>" and ?k = "new_frame\<lparr>iface := 0x2001\<rparr>"
  have lpm: "buildTrie (\<lambda>_ _. 0) test_numbered = Inr (cur_lpm ?w)" using t by (simp add: new_Worker_def)
  have ix: "index station_route = direct_index (port_heap 1)" using station_facts(4) by (simp add: station_route_def)
  have port: "netmapIndex (port_heap 1) = 1" "IPs (port_heap 1) = [0x0A000101]" by (simp_all add: port_heap_def)
  have inv: "arp_inv port_heap empty_heap (arpTable ?s)"
    by (simp add: arp_inv_def empty_arp_def new_ARPTable_def hops_of_def hops_ready_def empty_heap_def)
  have arp: "routingTable (arpTable ?s) = Some 0" "directlyConnected (arpTable ?s) 0x0A000105 = None" "arp_interfaces (arpTable ?s) = [1, 2]"
    "\<forall>nh \<in> set (nextHopMapping (empty_heap 0)). nh_ip nh \<noteq> 0x0A000105" "missingMACs ?s (htonl 0x0A000105) = None"
    by (simp_all add: empty_arp_def new_ARPTable_def empty_heap_def test_manager_def)
  have find: "find_iface port_heap (arp_interfaces (arpTable ?s)) (netmapIndex (port_heap 1)) = Some 1" using station_facts(3) arp(3) by simp
  have rep: "load_ether station_reply (buf_ptr ?k) = request_ether (Mac 2 0 0 0 7 7)"
    "load_arp station_reply (buf_ptr ?k + sizeof_ether) = reply_arp (Mac 2 0 0 0 7 7) (request_arp (Mac 2 0 0 0 1 1) (htonl 0x0A000101) (htonl 0x0A000105))"
    using header_disjoint(2) [of 0] ar.load_store by (simp_all add: station_reply_def new_frame_def eth.load_store)
  have "iface ?k = ucast (netmapIndex (port_heap 1)) OR IFACE_ARP" unfolding port(1) by code_simp
  from station_resolved [OF ready_test_numbered lpm station_facts(1) ix station_facts(2) port(2) inv arp(1,4) find arp(2,5)
      station_arrives station_arrives this, of station_reply "\<lambda>_. 0" 0 0] t rep port(1)
  show ?thesis by (auto simp: request_ether_def reply_arp_def request_arp_def new_frame_def)
qed

end
