(* ===== verification/FileTable.thy ===== *)
theory FileTable
  imports Buckets Printing
begin

text \<open>
  \<^verbatim>\<open>src/fileTable.cpp\<close>: a routing table read from a file, one route per line. The regular expression
  of the constructor is modelled by the scan it amounts to, which is shown to accept the same lines
  with the same groups. A line that does not match is not skipped by the code: its groups are empty, so that
  the addresses come from an uninitialised structure; \<open>junk\<close> gives the content of that structure in each
  iteration.
\<close>

section \<open>The regular expression\<close>

definition match_digits :: "string \<Rightarrow> (string \<times> string) option" where
  "match_digits s = (let ds = takeWhile (is_digit 10) s in
     if ds = [] then None else Some (ds, dropWhile (is_digit 10) s))"

definition match_spaces :: "string \<Rightarrow> string option" where
  "match_spaces s = (if takeWhile is_space s = [] then None else Some (dropWhile is_space s))"

definition match_char :: "char \<Rightarrow> string \<Rightarrow> string option" where
  "match_char c s = (case s of [] \<Rightarrow> None | x # t \<Rightarrow> if x = c then Some t else None)"

text \<open>\<open>n\<close> more times \<^verbatim>\<open>\.\d+\<close>, appended to what has been matched\<close>

fun match_dotted :: "nat \<Rightarrow> string \<Rightarrow> string \<Rightarrow> (string \<times> string) option" where
  "match_dotted 0 acc s = Some (acc, s)"
| "match_dotted (Suc n) acc s =
     Option.bind (match_char (CHR ''.'') s) (\<lambda>s1.
     Option.bind (match_digits s1) (\<lambda>(d, s2). match_dotted n (acc @ ''.'' @ d) s2))"

definition match_quad :: "string \<Rightarrow> (string \<times> string) option" where
  "match_quad s = Option.bind (match_digits s) (\<lambda>(d, s1). match_dotted 3 d s1)"

definition regex_match :: "string \<Rightarrow> (string \<times> string \<times> string) option" where
  "regex_match line =
     Option.bind (match_quad line) (\<lambda>(m1, s1).
     Option.bind (match_char (CHR ''/'') s1) (\<lambda>s2.
     Option.bind (match_digits s2) (\<lambda>(m2, s3).
     Option.bind (match_spaces s3) (\<lambda>s4.
     Option.bind (match_quad s4) (\<lambda>(m3, s5).
     Option.bind (match_spaces s5) (\<lambda>s6. if s6 = [] then Some (m1, m2, m3) else None))))))"

section \<open>The constructor\<close>

definition file_route :: "(string \<Rightarrow> int) \<Rightarrow> u32 \<Rightarrow> string \<Rightarrow> int \<times> route" where
  "file_route ub uninit line =
     (let (m1, m2, m3) = (case regex_match line of Some m \<Rightarrow> m | None \<Rightarrow> ([], [], []));
          in_addr = (case inet_aton m1 of Some a \<Rightarrow> a | None \<Rightarrow> uninit);
          addr = ntohl in_addr;
          len = atoi ub m2;
          in_addr2 = (case inet_aton m3 of Some a \<Rightarrow> a | None \<Rightarrow> in_addr);
          next_hop = ntohl in_addr2
      in (len, invalidRoute\<lparr>next_hop := next_hop, base := addr, prefix_length := word_of_int len\<rparr>))"

text \<open>
  The loop over the stream. \<^verbatim>\<open>getline\<close> meets the end of the file when no newline is left, and what it
  has read then is discarded.
\<close>

abbreviation newline :: char where
  "newline \<equiv> char_of (10 :: nat)"

function file_loop :: "(string \<Rightarrow> int) \<Rightarrow> (nat \<Rightarrow> u32) \<Rightarrow> nat \<Rightarrow> string \<Rightarrow> rib \<Rightarrow> rib result" where
  "file_loop ub junk i dump es =
     (case dropWhile (\<lambda>c. c \<noteq> newline) dump of
        [] \<Rightarrow> Inr es
      | c # rest \<Rightarrow>
          let line = takeWhile (\<lambda>c. c \<noteq> newline) dump; (len, r) = file_route ub (junk i) line
          in bindE (push_route len r es) (file_loop ub junk (Suc i) rest))"
  by pat_completeness auto
termination
proof (relation "measure (\<lambda>(ub, junk, i, dump, es). length dump)", goal_cases)
  case (2 ub junk i dump es c rest)
  then show ?case using length_dropWhile_le [of "\<lambda>c. c \<noteq> newline" dump] by simp
qed simp

declare file_loop.simps [simp del]

definition FileTable :: "(string \<Rightarrow> int) \<Rightarrow> (nat \<Rightarrow> u32) \<Rightarrow> (string \<Rightarrow> string option) \<Rightarrow> string \<Rightarrow> routing_table result" where
  "FileTable ub junk files filename =
     (case files filename of
        None \<Rightarrow> fatal ''Opening file for routing table failed''
      | Some dump \<Rightarrow>
          bindE (file_loop ub junk 0 dump (replicate 33 [])) (\<lambda>es.
          Inr \<lparr>entries = es, nextHopMapping = [], rt_interfaces = []\<rparr>))"

section \<open>The language of the regular expression\<close>

definition digits :: "string \<Rightarrow> bool" where
  "digits s \<longleftrightarrow> s \<noteq> [] \<and> list_all (is_digit 10) s"

definition spaces :: "string \<Rightarrow> bool" where
  "spaces s \<longleftrightarrow> s \<noteq> [] \<and> list_all is_space s"

definition dotted_quad :: "string \<Rightarrow> bool" where
  "dotted_quad s \<longleftrightarrow> (\<exists>a b c d. digits a \<and> digits b \<and> digits c \<and> digits d \<and>
     s = a @ ''.'' @ b @ ''.'' @ c @ ''.'' @ d)"

text \<open>A greedy scan over a class takes exactly the class when something else follows.\<close>

lemma greedy:
  "list_all P d \<Longrightarrow> (s = [] \<or> \<not> P (hd s)) \<Longrightarrow> takeWhile P (d @ s) = d \<and> dropWhile P (d @ s) = s"
  by (induction d) (cases s; auto)+

lemma greedyE: "takeWhile P s = d \<Longrightarrow> s = d @ dropWhile P s \<and> list_all P d"
  by (auto simp: list_all_iff dest: set_takeWhileD)

lemma greedy_rest: "dropWhile P s = r \<Longrightarrow> r = [] \<or> \<not> P (hd r)"
  using hd_dropWhile [of P s] by blast

lemma match_digits_iff:
  "match_digits s = Some (d, r) \<longleftrightarrow> digits d \<and> s = d @ r \<and> (r = [] \<or> \<not> is_digit 10 (hd r))"
proof
  assume "match_digits s = Some (d, r)"
  then show "digits d \<and> s = d @ r \<and> (r = [] \<or> \<not> is_digit 10 (hd r))"
    using greedyE [of "is_digit 10" s d] greedy_rest [of "is_digit 10" s r]
    by (auto simp: match_digits_def digits_def Let_def split: if_splits)
next
  assume "digits d \<and> s = d @ r \<and> (r = [] \<or> \<not> is_digit 10 (hd r))"
  with greedy [of "is_digit 10" d r] show "match_digits s = Some (d, r)"
    by (simp add: match_digits_def digits_def)
qed

lemma match_spaces_iff:
  "match_spaces s = Some r \<longleftrightarrow> (\<exists>w. spaces w \<and> s = w @ r \<and> (r = [] \<or> \<not> is_space (hd r)))"
proof
  assume "match_spaces s = Some r"
  then show "\<exists>w. spaces w \<and> s = w @ r \<and> (r = [] \<or> \<not> is_space (hd r))"
    using greedyE [of is_space s] greedy_rest [of is_space s r]
    by (intro exI [of _ "takeWhile is_space s"]) (auto simp: match_spaces_def spaces_def split: if_splits)
next
  assume "\<exists>w. spaces w \<and> s = w @ r \<and> (r = [] \<or> \<not> is_space (hd r))"
  then obtain w where w: "spaces w" "s = w @ r" "r = [] \<or> \<not> is_space (hd r)" by blast
  with greedy [of is_space w r] show "match_spaces s = Some r" by (simp add: match_spaces_def spaces_def)
qed

lemma match_char_iff [simp]: "match_char c s = Some r \<longleftrightarrow> s = c # r"
  by (auto simp: match_char_def split: list.splits)

lemma match_quad_iff:
  "match_quad s = Some (q, r) \<longleftrightarrow> dotted_quad q \<and> s = q @ r \<and> (r = [] \<or> \<not> is_digit 10 (hd r))"
proof
  assume "match_quad s = Some (q, r)"
  then show "dotted_quad q \<and> s = q @ r \<and> (r = [] \<or> \<not> is_digit 10 (hd r))"
    by (auto simp: match_quad_def numeral_3_eq_3 bind_eq_Some_conv match_digits_iff dotted_quad_def)
next
  assume q: "dotted_quad q \<and> s = q @ r \<and> (r = [] \<or> \<not> is_digit 10 (hd r))"
  then obtain a b c d where abcd: "digits a" "digits b" "digits c" "digits d"
    "q = a @ ''.'' @ b @ ''.'' @ c @ ''.'' @ d" by (auto simp: dotted_quad_def)
  have "match_digits (a @ CHR ''.'' # t) = Some (a, CHR ''.'' # t)" "match_digits (b @ CHR ''.'' # t) = Some (b, CHR ''.'' # t)"
    "match_digits (c @ CHR ''.'' # t) = Some (c, CHR ''.'' # t)" "match_digits (d @ r) = Some (d, r)" for t
    using abcd(1-4) q by (simp_all add: match_digits_iff)
  with q abcd(5) show "match_quad s = Some (q, r)"
    by (simp add: match_quad_def numeral_3_eq_3 match_char_def)
qed

lemma spaces_hd: "spaces w \<Longrightarrow> \<not> is_digit 10 (hd (w @ r))"
  using is_space_not_digit is_digit_mono [of 10 _ 16] by (cases w) (auto simp: spaces_def)

lemma digits_hd: "digits d \<Longrightarrow> \<not> is_space (hd (d @ r))"
  using is_space_not_digit is_digit_mono [of 10 _ 16] by (cases d) (auto simp: digits_def)

lemma quad_hd: "dotted_quad q \<Longrightarrow> \<not> is_space (hd (q @ r)) \<and> q \<noteq> []"
  using digits_hd by (fastforce simp: dotted_quad_def digits_def)

lemma regex_matchD:
  "regex_match line = Some (a, l, n) \<Longrightarrow>
     \<exists>w w'. dotted_quad a \<and> digits l \<and> dotted_quad n \<and> spaces w \<and> spaces w' \<and>
        line = a @ ''/'' @ l @ w @ n @ w'"
  by (auto simp: regex_match_def bind_eq_Some_conv match_quad_iff match_digits_iff match_spaces_iff
      split: if_splits)

lemma regex_matchI:
  assumes h: "dotted_quad a" "digits l" "dotted_quad n" "spaces w" "spaces w'"
  shows "regex_match (a @ ''/'' @ l @ w @ n @ w') = Some (a, l, n)"
proof -
  have "match_quad (a @ CHR ''/'' # t) = Some (a, CHR ''/'' # t)" for t
    using h(1) by (simp add: match_quad_iff)
  moreover have "match_digits (l @ w @ n @ w') = Some (l, w @ n @ w')"
    using h(2) spaces_hd [OF h(4)] by (simp add: match_digits_iff)
  moreover have "match_spaces (w @ n @ w') = Some (n @ w')"
    using h(4) quad_hd [OF h(3), of w'] unfolding match_spaces_iff by blast
  moreover have "match_quad (n @ w') = Some (n, w')"
    using h(3) spaces_hd [OF h(5), of "[]"] by (simp add: match_quad_iff)
  moreover have "match_spaces w' = Some []" using h(5) by (auto simp: match_spaces_iff)
  ultimately show ?thesis by (simp add: regex_match_def match_char_def)
qed

text \<open>
  C33: The scan agrees with the regular expression of the constructor: it succeeds with the groups
  \<open>a\<close>, \<open>l\<close> and \<open>n\<close> exactly when the whole line is a dotted quad \<open>a\<close>, a slash, digits \<open>l\<close>, blanks, a dotted
  quad \<open>n\<close> and at least one more blank.
\<close>

theorem regex_match_iff:
  "regex_match line = Some (a, l, n) \<longleftrightarrow>
     (\<exists>w w'. dotted_quad a \<and> digits l \<and> dotted_quad n \<and> spaces w \<and> spaces w' \<and>
        line = a @ ''/'' @ l @ w @ n @ w')"
  using regex_matchD [of line a l n] regex_matchI [of a l n] by metis

section \<open>The loop as a fold over the lines\<close>

definition text_lines :: "string \<Rightarrow> string list" where
  "text_lines dump = butlast (split_on newline dump)"

definition parsed :: "(string \<Rightarrow> int) \<Rightarrow> (nat \<Rightarrow> u32) \<Rightarrow> nat \<Rightarrow> string \<Rightarrow> (int \<times> route) list" where
  "parsed ub junk i dump = map (\<lambda>(k, line). file_route ub (junk k) line) (enumerate i (text_lines dump))"

lemma split_on_not_Nil [simp]: "split_on d s \<noteq> []"
  by (induction s) (auto split: list.splits)

lemma split_on_dropWhile:
  "split_on d s = (case dropWhile (\<lambda>c. c \<noteq> d) s of
     [] \<Rightarrow> [s] | c # rest \<Rightarrow> takeWhile (\<lambda>c. c \<noteq> d) s # split_on d rest)"
  by (induction s) (auto split: list.splits simp del: dropWhile_eq_Nil_conv)

lemma text_lines_rec:
  "text_lines s = (case dropWhile (\<lambda>c. c \<noteq> newline) s of
     [] \<Rightarrow> [] | c # rest \<Rightarrow> takeWhile (\<lambda>c. c \<noteq> newline) s # text_lines rest)"
  unfolding text_lines_def by (subst split_on_dropWhile) (simp split: list.splits del: dropWhile_eq_Nil_conv)

lemma file_loop_push_all: "file_loop ub junk i dump es = push_all (parsed ub junk i dump) es"
proof (induction ub junk i dump es rule: file_loop.induct)
  case (1 ub junk i dump es)
  show ?case
  proof (cases "dropWhile (\<lambda>c. c \<noteq> newline) dump")
    case Nil
    show ?thesis by (simp only: file_loop.simps [of ub junk i dump] parsed_def text_lines_rec [of dump] Nil) simp
  next
    case (Cons c rest)
    let ?x = "file_route ub (junk i) (takeWhile (\<lambda>c. c \<noteq> newline) dump)"
    have "parsed ub junk i dump = ?x # parsed ub junk (Suc i) rest"
      by (simp add: parsed_def text_lines_rec [of dump] Cons)
    moreover have "file_loop ub junk i dump es =
        bindE (push_route (fst ?x) (snd ?x) es) (file_loop ub junk (Suc i) rest)"
      by (simp add: file_loop.simps [of ub junk i dump] Cons split: prod.splits)
    moreover have "file_loop ub junk (Suc i) rest es' = push_all (parsed ub junk (Suc i) rest) es'" for es'
      using "1" [OF Cons refl refl prod.collapse] by simp
    ultimately show ?thesis by (simp add: case_prod_beta bindE_def split: sum.splits)
  qed
qed

lemma FileTable_eq:
  assumes "files f = Some dump"
  shows "FileTable ub junk files f = (if list_all (in_range 33) (parsed ub junk 0 dump)
    then Inr \<lparr>entries = map (bucket_of (parsed ub junk 0 dump)) [0..<33], nextHopMapping = [], rt_interfaces = []\<rparr>
    else Inl OutOfBounds)"
  using assms by (simp add: FileTable_def file_loop_push_all push_all_eq)

lemma FileTable_entries:
  assumes "files f = Some dump" "FileTable ub junk files f = Inr t"
  shows "list_all (in_range 33) (parsed ub junk 0 dump)" "entries t = map (bucket_of (parsed ub junk 0 dump)) [0..<33]"
  using assms(2) FileTable_eq [of files f dump ub junk, OF assms(1)] by (auto split: if_splits)

section \<open>Lines as the router would write them\<close>

definition route_line :: "u32 \<times> nat \<times> u32 \<Rightarrow> string" where
  "route_line x = (case x of (a, l, n) \<Rightarrow>
     ip_to_str a @ ''/'' @ string_of_nat l @ '' '' @ ip_to_str n @ '' '')"

definition file_text :: "(u32 \<times> nat \<times> u32) list \<Rightarrow> string" where
  "file_text rs = concat (map (\<lambda>x. route_line x @ [newline]) rs)"

definition the_route :: "u32 \<times> nat \<times> u32 \<Rightarrow> route" where
  "the_route x = (case x of (a, l, n) \<Rightarrow>
     invalidRoute\<lparr>base := a, next_hop := n, prefix_length := of_nat l\<rparr>)"

lemma dotted_quad_ip: "dotted_quad (ip_to_str a)"
  unfolding dotted_quad_def ip_to_str_def digits_def using string_of_nat_value by blast

lemma newline_not_in: "newline \<notin> set (route_line x)"
proof -
  have nl: "\<not> is_digit 10 newline" "newline \<noteq> CHR ''.''" "newline \<noteq> CHR '' ''" "newline \<noteq> CHR ''/''" by code_simp+
  have "newline \<notin> set (string_of_nat n)" for n
    using string_of_nat_value [of n] nl(1) by (auto simp: list_all_iff)
  with nl show ?thesis by (simp add: route_line_def ip_to_str_def split: prod.splits)
qed

lemma text_lines_file_text: "text_lines (file_text rs) = map route_line rs"
proof (induction rs)
  case (Cons x rs)
  then show ?case using newline_not_in [of x]
    by (simp add: file_text_def text_lines_def split_on_append)
qed (simp add: file_text_def text_lines_def)

lemma atoi_string_of_nat:
  assumes "n < 2 ^ 31"
  shows "atoi ub (string_of_nat n) = int n"
proof -
  obtain c t where ct: "string_of_nat n = c # t"
    using string_of_nat_value [of n] by (cases "string_of_nat n") auto
  have dig: "list_all (is_digit 10) (c # t)" "digits_value 10 (c # t) = n"
    using string_of_nat_value [of n] by (simp_all add: ct)
  then have c: "\<not> is_space c" "c \<noteq> CHR ''-''" "c \<noteq> CHR ''+''"
    using is_space_not_digit is_digit_mono [of 10 c 16] not_digit_sep(5,6) by auto
  have tw: "takeWhile (is_digit 10) t = t" using dig(1) by (simp add: list_all_iff takeWhile_eq_all_conv)
  from c dig assms show ?thesis by (simp add: atoi_def ct scan_sign_def tw)
qed

lemma file_route_line:
  assumes "fst (snd x) < 2 ^ 31"
  shows "file_route ub u (route_line x) = (int (fst (snd x)), the_route x)"
proof -
  obtain a l n where x: "x = (a, l, n)" by (cases x)
  have sp: "spaces '' ''" by code_simp
  have "regex_match (route_line x) = Some (ip_to_str a, string_of_nat l, ip_to_str n)"
    using regex_matchI [OF dotted_quad_ip _ dotted_quad_ip sp sp, of "string_of_nat l" a n] string_of_nat_value [of l]
    by (simp add: route_line_def x digits_def)
  then show ?thesis
    using assms by (simp add: file_route_def x the_route_def inet_aton_ip_to_str atoi_string_of_nat)
qed

section \<open>What the constructor builds\<close>

lemma file_route_shape:
  assumes "file_route ub u line = (len, r)"
  shows "prefix_length r = word_of_int len \<and> interface r = None \<and> index r = NH_INVALID"
  using assms by (auto simp: file_route_def invalidRoute_def Let_def split: prod.splits)

lemma parsed_shape:
  assumes "x \<in> set (parsed ub junk i dump)" "in_range 33 x"
  shows "plen (snd x) = nat (fst x) \<and> interface (snd x) = None \<and> index (snd x) = NH_INVALID"
proof -
  obtain k line where "x = file_route ub (junk k) line" using assms(1) by (auto simp: parsed_def)
  then have s: "prefix_length (snd x) = word_of_int (fst x)" "interface (snd x) = None" "index (snd x) = NH_INVALID"
    using file_route_shape [of ub "junk k" line "fst x" "snd x"] by simp_all
  have "unat (word_of_int (fst x) :: u32) = nat (fst x)"
    using assms(2) by (simp add: in_range_def unsigned_of_int take_bit_int_eq_self)
  with s show ?thesis by (simp add: plen_def)
qed

text \<open>
  Whatever the file holds, a table that is built has 33 buckets, every route is in the bucket of its
  prefix length and there is one route per complete line, well-formed or not. No route has an
  interface or an index.
\<close>

theorem FileTable_shape:
  assumes "files f = Some dump" "FileTable ub junk files f = Inr t"
  shows "length (entries t) = 33 \<and> length (concat (entries t)) = length (text_lines dump) \<and>
    (\<forall>l<33. \<forall>r \<in> set (entries t ! l). plen r = l \<and> interface r = None \<and> index r = NH_INVALID)"
proof -
  let ?xs = "parsed ub junk 0 dump"
  note ok = FileTable_entries(1) [of files f dump, OF assms] and t = FileTable_entries(2) [of files f dump, OF assms]
  have "length (concat (entries t)) = length ?xs"
    using bucket_sizes [OF ok] by (simp add: t length_concat o_def)
  then have len: "length (concat (entries t)) = length (text_lines dump)" by (simp add: parsed_def)
  have "\<forall>l<33. \<forall>r \<in> set (entries t ! l). plen r = l \<and> interface r = None \<and> index r = NH_INVALID"
    using ok parsed_shape [of _ ub junk 0 dump] by (auto simp: t bucket_of_def list_all_iff)
  with len show ?thesis by (simp add: t)
qed

text \<open>A file with one route.\<close>

definition one_route :: string where
  "one_route = file_text [(0x0A000000, 8, 0xC0A80001)]"

abbreviation one_line_table :: "routing_table result" where
  "one_line_table \<equiv> FileTable (\<lambda>_. 0) (\<lambda>_. 0) [''routes'' \<mapsto> one_route] ''routes''"

lemma one_line_table_returns: "\<exists>t. one_line_table = Inr t"
  using FileTable_eq [of "[''routes'' \<mapsto> one_route]" "''routes''" one_route "\<lambda>_. 0" "\<lambda>_. 0"]
  by (simp add: parsed_def one_route_def text_lines_file_text file_route_line in_range_def)

theorem FileTable_shape_witness: "\<exists>t. one_line_table = Inr t \<and> length (concat (entries t)) = 1"
proof -
  obtain t where t: "one_line_table = Inr t" using one_line_table_returns by blast
  from FileTable_shape [OF _ t, of one_route] t show ?thesis by (simp add: one_route_def text_lines_file_text)
qed

text \<open>
  C32: The constructor returns exactly when the prefix length of every line is between 0 and 32; on any other line it
  writes outside the vector of buckets.
\<close>

theorem FileTable_bounds:
  assumes "files f = Some dump"
  shows "((\<exists>t. FileTable ub junk files f = Inr t) \<longleftrightarrow>
            (\<forall>i < length (text_lines dump). fst (file_route ub (junk i) (text_lines dump ! i)) \<in> {0..32})) \<and>
         (FileTable ub junk files f = Inl OutOfBounds \<or> (\<exists>t. FileTable ub junk files f = Inr t))"
proof -
  have "list_all (in_range 33) (parsed ub junk 0 dump) \<longleftrightarrow>
      (\<forall>i < length (text_lines dump). fst (file_route ub (junk i) (text_lines dump ! i)) \<in> {0..32})"
    by (simp add: parsed_def list_all_length nth_enumerate_eq in_range_def) (auto simp: less_le_not_le)
  then show ?thesis using FileTable_eq [of files f dump ub junk, OF assms] by auto
qed

theorem FileTable_bounds_witness:
  "(\<exists>t. FileTable (\<lambda>_. 0) (\<lambda>_. 0) [''routes'' \<mapsto> file_text [(0, 33, 0)]] ''routes'' = Inr t) = False"
  using FileTable_bounds [of "[''routes'' \<mapsto> file_text [(0, 33, 0)]]" "''routes''", OF fun_upd_same, of "\<lambda>_. 0" "\<lambda>_. 0"]
  by (simp add: text_lines_file_text file_route_line)

section \<open>Reading what has been written\<close>

text \<open>
  C30: A file with one line per route, written with the printing functions of the router, is read back
  as it was: bucket by bucket and in the order of the file, without any influence of uninitialised
  or overflowing values.
\<close>

theorem FileTable_round_trip:
  assumes "files f = Some (file_text rs)" "\<forall>(a, l, n) \<in> set rs. l \<le> 32"
  shows "FileTable ub junk files f = Inr \<lparr>entries = map (\<lambda>l. map the_route (filter (\<lambda>x. fst (snd x) = l) rs)) [0..<33],
    nextHopMapping = [], rt_interfaces = []\<rparr>"
proof -
  let ?xs = "map (\<lambda>x. (int (fst (snd x)), the_route x)) rs"
  have le: "\<And>x. x \<in> set rs \<Longrightarrow> fst (snd x) \<le> 32" using assms(2) by auto
  then have lt: "\<And>x. x \<in> set rs \<Longrightarrow> fst (snd x) < 2 ^ 31" by fastforce
  have xs: "parsed ub junk 0 (file_text rs) = ?xs"
    unfolding parsed_def text_lines_file_text
    by (rule nth_equalityI) (auto simp: nth_enumerate_eq intro!: file_route_line lt nth_mem)
  have "list_all (in_range 33) ?xs" using le by (fastforce simp: list_all_iff in_range_def)
  moreover have "bucket_of ?xs l = map the_route (filter (\<lambda>x. fst (snd x) = l) rs)" for l
    by (simp add: bucket_of_def filter_map o_def)
  ultimately show ?thesis using FileTable_eq [of files f "file_text rs" ub junk, OF assms(1)] unfolding xs by simp
qed

theorem FileTable_round_trip_witness:
  "FileTable (\<lambda>_. 0) (\<lambda>_. 0) [''routes'' \<mapsto> file_text [(0x0A000000, 8, 0xC0A80001), (0, 0, 0xC0A80002)]] ''routes'' =
     Inr \<lparr>entries = map (\<lambda>l. map the_route (filter (\<lambda>x. fst (snd x) = l) [(0x0A000000, 8, 0xC0A80001), (0, 0, 0xC0A80002)])) [0..<33],
       nextHopMapping = [], rt_interfaces = []\<rparr>"
  by (rule FileTable_round_trip) simp_all

section \<open>A table read from a file cannot be numbered\<close>

lemma assign_index_interface: "assign_index h r st = Inr (r', st') \<Longrightarrow> interface r' = interface r"
  by (auto simp: assign_index_def Let_def split: if_splits option.splits prod.splits)

lemma mapE_list_all2:
  assumes "mapE f xs s = Inr (ys, s')" "\<And>x s y s'. f x s = Inr (y, s') \<Longrightarrow> Q x y"
  shows "list_all2 Q xs ys"
  using mapE_invariant [of f xs s ys s' "\<lambda>_. True" "\<lambda>_ _. True" "\<lambda>_. Q"] assms by blast

lemma print_bucket_None:
  "r \<in> set b \<Longrightarrow> interface r = None \<Longrightarrow> \<nexists>s'. foldE (print_route h len) b s = Inr s'"
  by (induction b arbitrary: s) (auto simp: print_route_def bindE_Inr_iff)

lemma print_table_None:
  assumes "len < 33" "len < length es" "r \<in> set (es ! len)" "interface r = None"
  shows "\<nexists>s. print_table h es = Inr s"
proof -
  let ?f = "\<lambda>len stream. if length es \<le> len then Inl OutOfBounds else foldE (print_route h len) (es ! len) stream"
  have "\<nexists>s'. foldE ?f ls s = Inr s'" if "len \<in> set ls" for ls s
    using that
  proof (induction ls arbitrary: s)
    case (Cons l ls)
    then show ?case using print_bucket_None [OF assms(3,4), of h len] assms(2) by (auto simp: bindE_Inr_iff)
  qed simp
  then show ?thesis using assms(1) unfolding print_table_def by simp
qed

text \<open>
  C40: a table read from a file with at least one complete line never gets through
  \<^verbatim>\<open>buildNextHopList\<close>, whatever the interfaces are: its routes have no interface, and the numbering
  or the printing that follows it dereferences it.
\<close>

theorem FileTable_not_numbered:
  assumes "files f = Some dump" "FileTable ub junk files f = Inr t" "text_lines dump \<noteq> []"
  shows "\<nexists>t'. buildNextHopList h (t\<lparr>rt_interfaces := ifaces\<rparr>) = Inr t'"
proof
  let ?xs = "parsed ub junk 0 dump"
  note ok = FileTable_entries(1) [of files f dump, OF assms(1,2)] and t = FileTable_entries(2) [of files f dump, OF assms(1,2)]
  have "?xs \<noteq> []" using assms(3) by (simp add: parsed_def enumerate_eq_zip)
  then obtain x where x: "x \<in> set ?xs" by (cases ?xs) auto
  let ?l = "nat (fst x)"
  have rng: "in_range 33 x" using ok x by (simp add: list_all_iff)
  then have l: "?l < 33" "int ?l = fst x" by (auto simp: in_range_def)
  then have r: "snd x \<in> set (entries t ! ?l)" "interface (snd x) = None"
    using x parsed_shape [OF x rng] by (auto simp: t bucket_of_def)
  assume "\<exists>t'. buildNextHopList h (t\<lparr>rt_interfaces := ifaces\<rparr>) = Inr t'"
  then obtain es st s where es: "mapE (mapE (assign_index h)) (entries t) (0, nextHopMapping t) = Inr (es, st)"
    "print_table h es = Inr s"
    by (auto simp: buildNextHopList_def bindE_Inr_iff)
  have "list_all2 (list_all2 (\<lambda>r r'. interface r' = interface r)) (entries t) es"
    by (rule mapE_list_all2 [OF es(1)]) (rule mapE_list_all2, assumption, rule assign_index_interface)
  then have "list_all2 (\<lambda>r r'. interface r' = interface r) (entries t ! ?l) (es ! ?l)" "length es = 33"
    using l by (auto simp: t list_all2_conv_all_nth)
  moreover obtain i where "i < length (entries t ! ?l)" "entries t ! ?l ! i = snd x"
    using r(1) by (auto simp: in_set_conv_nth)
  ultimately have "es ! ?l ! i \<in> set (es ! ?l)" "interface (es ! ?l ! i) = None"
    using r(2) by (auto simp: list_all2_conv_all_nth)
  with print_table_None [of ?l es "es ! ?l ! i" h] l \<open>length es = 33\<close> es(2) show False by simp
qed

theorem FileTable_not_numbered_witness:
  "\<exists>t. one_line_table = Inr t \<and> (\<nexists>t'. buildNextHopList (\<lambda>_. new_Interface) (t\<lparr>rt_interfaces := [0]\<rparr>) = Inr t')"
proof -
  obtain t where t: "one_line_table = Inr t" using one_line_table_returns by blast
  from FileTable_not_numbered [OF _ t, of one_route] t show ?thesis by (simp add: one_route_def text_lines_file_text)
qed

end
