(* ===== verification/Challenge.thy ===== *)
theory Challenge
  imports FileTable Headers BasicTrie
begin

text \<open>
  The functions of the lookup benchmark at the end of \<^verbatim>\<open>src/main.cpp\<close>, which are kept there inside an \<^verbatim>\<open>#if 0\<close> of their own: a challenge file holds addresses with the next hops
  that are expected for them; \<^verbatim>\<open>dump_challenge\<close> writes one with random addresses, \<^verbatim>\<open>convert_challenge\<close> makes one from a text file,
  and \<^verbatim>\<open>run_challenge\<close> compares the lookups of a structure with it. The expression \<^verbatim>\<open>(lpm.route(addr)).next_hop\<close> belongs to an interface
  of the lookup structures that is gone and is the argument \<open>lookup\<close>. Files are byte lists; \<^verbatim>\<open>random\<close>, \<^verbatim>\<open>mmap\<close>, the text with the
  measured times and the effect of an overflowing counter are arguments too.
\<close>

section \<open>The file format\<close>

record challenge_header =
  hdr_version :: u32
  num_entries :: u32
  reserved_1 :: u32
  reserved_2 :: u32

record challenge_entry =
  ce_addr :: u32
  ce_next_hop :: u32

definition CHALLENGE_VERSION :: u32 where "CHALLENGE_VERSION = 1"
definition NUM_ENTRIES :: nat where "NUM_ENTRIES = 10000000"

definition sizeof_challenge_header :: nat where "sizeof_challenge_header = 16"
definition sizeof_challenge_entry :: nat where "sizeof_challenge_entry = 8"

lemmas sizeof_challenge [simp] = sizeof_challenge_header_def sizeof_challenge_entry_def

text \<open>\<^verbatim>\<open>write((char*) &x, sizeof(x))\<close> of a word and of the two structs\<close>

definition bytes32 :: "u32 \<Rightarrow> u8 list" where
  "bytes32 x = [ucast x, ucast (drop_bit 8 x), ucast (drop_bit 16 x), ucast (drop_bit 24 x)]"

definition header_bytes :: "challenge_header \<Rightarrow> u8 list" where
  "header_bytes h = bytes32 (hdr_version h) @ bytes32 (num_entries h) @ bytes32 (reserved_1 h) @ bytes32 (reserved_2 h)"

definition entry_bytes :: "challenge_entry \<Rightarrow> u8 list" where
  "entry_bytes e = bytes32 (ce_addr e) @ bytes32 (ce_next_hop e)"

text \<open>A stream that could not be opened for writing ignores what is written.\<close>

type_synonym files = "string \<Rightarrow> u8 list option"

definition write_file :: "(string \<Rightarrow> bool) \<Rightarrow> string \<Rightarrow> u8 list \<Rightarrow> files \<Rightarrow> files" where
  "write_file writable name bytes fs = (if writable name then fs(name \<mapsto> bytes) else fs)"

definition challenge_bytes :: "u32 \<Rightarrow> challenge_entry list \<Rightarrow> u8 list" where
  "challenge_bytes n es =
     header_bytes \<lparr>hdr_version = CHALLENGE_VERSION, num_entries = n, reserved_1 = 0, reserved_2 = 0\<rparr> @ concat (map entry_bytes es)"

section \<open>Writing a challenge\<close>

definition random_entry :: "(u32 \<Rightarrow> u32) \<Rightarrow> (nat \<Rightarrow> int) \<Rightarrow> nat \<Rightarrow> challenge_entry" where
  "random_entry lookup rnd i = (let a = word_of_int (rnd i) in \<lparr>ce_addr = a, ce_next_hop = lookup a\<rparr>)"

definition dump_challenge :: "(string \<Rightarrow> bool) \<Rightarrow> (nat \<Rightarrow> int) \<Rightarrow> (u32 \<Rightarrow> u32) \<Rightarrow> string \<Rightarrow> files \<Rightarrow> files" where
  "dump_challenge writable rnd lookup filename fs =
     write_file writable filename (challenge_bytes (of_nat NUM_ENTRIES) (map (random_entry lookup rnd) [0..<NUM_ENTRIES])) fs"

section \<open>Running a challenge\<close>

text \<open>A load from the mapped file; the byte at an offset may not be there.\<close>

definition load32 :: "(nat \<Rightarrow> u8 result) \<Rightarrow> nat \<Rightarrow> u32 result" where
  "load32 mapped p =
     bindE (mapped p) (\<lambda>b0. bindE (mapped (p + 1)) (\<lambda>b1. bindE (mapped (p + 2)) (\<lambda>b2. bindE (mapped (p + 3)) (\<lambda>b3.
     Inr (ucast b0 OR push_bit 8 (ucast b1) OR push_bit 16 (ucast b2) OR push_bit 24 (ucast b3))))))"

definition incr :: "(int \<Rightarrow> int) \<Rightarrow> int \<Rightarrow> int" where
  "incr ub n = (if n = 2 ^ 31 - 1 then ub n else n + 1)"

definition failed_text :: "u32 \<Rightarrow> u32 \<Rightarrow> u32 \<Rightarrow> string" where
  "failed_text a expected res = ''Failed IP: '' @ ip_to_str a @ endl @ ''Expected : '' @ ip_to_str expected @ endl @
     ''Got      : '' @ ip_to_str res @ endl @ endl"

text \<open>One iteration of the loop, on the output so far and the two counters.\<close>

definition check_entry ::
    "(int \<Rightarrow> int) \<Rightarrow> (u32 \<Rightarrow> u32) \<Rightarrow> (nat \<Rightarrow> u8 result) \<Rightarrow> nat \<Rightarrow> string \<times> int \<times> int \<Rightarrow> (string \<times> int \<times> int) result" where
  "check_entry ub lookup mapped i s =
     (let (out, success, failed) = s; p = sizeof_challenge_header + i * sizeof_challenge_entry in
      bindE (load32 mapped p) (\<lambda>a.
      let res = lookup a in
      bindE (load32 mapped (p + 4)) (\<lambda>expected.
      if res \<noteq> expected then Inr (out @ failed_text a expected res, success, incr ub failed)
      else Inr (out, incr ub success, failed))))"

definition cout_int :: "int \<Rightarrow> string" where
  "cout_int n = (if n < 0 then ''-'' @ string_of_nat (nat (- n)) else string_of_nat (nat n))"

text \<open>The texts on \<^verbatim>\<open>cout\<close> and \<^verbatim>\<open>cerr\<close>; \<open>mmap\<close> gives an error number or the bytes at the offsets of the mapping.\<close>

definition run_challenge ::
    "(int \<Rightarrow> int) \<Rightarrow> (u8 list \<Rightarrow> nat \<Rightarrow> int + (nat \<Rightarrow> u8 result)) \<Rightarrow> (int \<Rightarrow> int \<Rightarrow> string) \<Rightarrow> (u32 \<Rightarrow> u32) \<Rightarrow> string \<Rightarrow> files \<Rightarrow> (string \<times> string) result" where
  "run_challenge ub mmap timing lookup filename fs =
     (let bytes = (case fs filename of None \<Rightarrow> [] | Some bytes \<Rightarrow> bytes) in
      if length bytes < sizeof_challenge_header then Inr ([], ''Error while reader challenge_header!'' @ endl)
      else
        let m = (\<lambda>i. bytes ! i); ver = rd32 m 0; num = unat (rd32 m 4) in
        if ver \<noteq> CHALLENGE_VERSION then Inr ([], ''challenge version is not supported!'' @ endl)
        else case mmap bytes (num * sizeof_challenge_entry + sizeof_challenge_header) of
            Inl errno \<Rightarrow> Inr ([], ''mmap failed! errno: '' @ cout_int errno @ endl)
          | Inr mapped \<Rightarrow>
              bindE (foldE (check_entry ub lookup mapped) [0..<num] ([], 0, 0)) (\<lambda>(out, success, failed).
              Inr (out @ ''Successful lookups: '' @ cout_int success @ endl @ ''Failed lookups: '' @ cout_int failed @ endl,
                   timing success failed)))"

section \<open>Converting a challenge\<close>

definition convert_match :: "string \<Rightarrow> (string \<times> string) option" where
  "convert_match line =
     Option.bind (match_quad line) (\<lambda>(m1, s1).
     Option.bind (match_spaces s1) (\<lambda>s2.
     Option.bind (match_quad s2) (\<lambda>(m2, s3). if s3 = [] then Some (m1, m2) else None)))"

definition convert_line :: "u32 \<Rightarrow> string \<Rightarrow> challenge_entry" where
  "convert_line uninit line =
     (let (m1, m2) = (case convert_match line of Some m \<Rightarrow> m | None \<Rightarrow> ([], []));
          in_addr = (case inet_aton m1 of Some a \<Rightarrow> a | None \<Rightarrow> uninit);
          in_addr2 = (case inet_aton m2 of Some a \<Rightarrow> a | None \<Rightarrow> in_addr)
      in \<lparr>ce_addr = ntohl in_addr, ce_next_hop = ntohl in_addr2\<rparr>)"

text \<open>
  The loop over the lines. A stream that could not be opened is never at its end: \<^verbatim>\<open>getline\<close> fails without reaching it,
  and the loop appends entries for ever.
\<close>

partial_function (option) convert_loop ::
    "(nat \<Rightarrow> u32) \<Rightarrow> nat \<Rightarrow> string option \<Rightarrow> challenge_entry list \<Rightarrow> challenge_entry list option" where
  "convert_loop junk i dump es =
     (case dump of
        None \<Rightarrow> convert_loop junk (Suc i) None (es @ [convert_line (junk i) []])
      | Some s \<Rightarrow>
          (case dropWhile (\<lambda>c. c \<noteq> newline) s of
             [] \<Rightarrow> Some es
           | c # rest \<Rightarrow> convert_loop junk (Suc i) (Some rest) (es @ [convert_line (junk i) (takeWhile (\<lambda>c. c \<noteq> newline) s)])))"

definition text_of :: "u8 list \<Rightarrow> string" where
  "text_of bs = map (\<lambda>b. char_of (unat b)) bs"

definition convert_challenge :: "(string \<Rightarrow> bool) \<Rightarrow> (nat \<Rightarrow> u32) \<Rightarrow> string \<Rightarrow> string \<Rightarrow> files \<Rightarrow> files option" where
  "convert_challenge writable junk old_file new_file fs =
     map_option (\<lambda>es. write_file writable new_file (challenge_bytes (of_nat (length es)) es) fs)
       (convert_loop junk 0 (map_option text_of (fs old_file)) [])"

section \<open>Reading what was written\<close>

lemma bytes_value:
  "ucast (ucast x :: u8) OR push_bit 8 (ucast (ucast (drop_bit 8 x) :: u8)) OR push_bit 16 (ucast (ucast (drop_bit 16 x) :: u8)) OR
     push_bit 24 (ucast (ucast (drop_bit 24 x) :: u8)) = (x :: u32)"
  using f32.load_store [of 0 x "\<lambda>_. 0"] by (simp add: rd32_def wr32_def)

lemma length_bytes [simp]: "length (bytes32 x) = 4" "length (header_bytes h) = 16" "length (entry_bytes e) = 8"
  by (simp_all add: bytes32_def header_bytes_def entry_bytes_def)

lemma load32_bytes:
  assumes "\<And>k. k < 4 \<Longrightarrow> mp (p + k) = Inr (bytes32 x ! k)"
  shows "load32 mp p = Inr x"
  using assms [of 0] assms [of 1] assms [of 2] assms [of 3] bytes_value [of x] by (simp add: load32_def bytes32_def)

lemma rd32_bytes:
  assumes "\<And>k. k < 4 \<Longrightarrow> m (p + k) = bytes32 x ! k"
  shows "rd32 m p = x"
  using assms [of 0] assms [of 1] assms [of 2] assms [of 3] bytes_value [of x] by (simp add: rd32_def bytes32_def)

lemma entry_at:
  "i < length es \<Longrightarrow> k < 8 \<Longrightarrow> concat (map entry_bytes es) ! (i * 8 + k) = entry_bytes (es ! i) ! k"
proof (induction es arbitrary: i)
  case (Cons e es)
  then show ?case by (cases i) (simp_all add: nth_append)
qed simp

lemma challenge_bytes_facts:
  "length (challenge_bytes n es) = 16 + 8 * length es" "rd32 (\<lambda>i. challenge_bytes n es ! i) 0 = CHALLENGE_VERSION"
  "rd32 (\<lambda>i. challenge_bytes n es ! i) 4 = n"
proof -
  have "length (concat (map entry_bytes es)) = 8 * length es" by (induction es) simp_all
  then show "length (challenge_bytes n es) = 16 + 8 * length es" by (simp add: challenge_bytes_def)
  show "rd32 (\<lambda>i. challenge_bytes n es ! i) 0 = CHALLENGE_VERSION" "rd32 (\<lambda>i. challenge_bytes n es ! i) 4 = n"
    by (rule rd32_bytes; simp add: challenge_bytes_def header_bytes_def nth_append)+
qed

lemma challenge_entry_at:
  "i < length es \<Longrightarrow> k < 8 \<Longrightarrow> challenge_bytes n es ! (16 + i * 8 + k) = entry_bytes (es ! i) ! k"
  using entry_at [of i es k] by (simp add: challenge_bytes_def nth_append)

text \<open>What the benchmark relies on of \<^verbatim>\<open>mmap\<close>: inside the file, the mapping shows the file.\<close>

definition mmap_ok :: "(u8 list \<Rightarrow> nat \<Rightarrow> int + (nat \<Rightarrow> u8 result)) \<Rightarrow> bool" where
  "mmap_ok mmap \<longleftrightarrow> (\<forall>bytes len mp i. mmap bytes len = Inr mp \<longrightarrow> i < len \<longrightarrow> i < length bytes \<longrightarrow> mp i = Inr (bytes ! i))"

definition wrong :: "(u32 \<Rightarrow> u32) \<Rightarrow> challenge_entry \<Rightarrow> bool" where
  "wrong lookup e \<longleftrightarrow> lookup (ce_addr e) \<noteq> ce_next_hop e"

definition entry_report :: "(u32 \<Rightarrow> u32) \<Rightarrow> challenge_entry \<Rightarrow> string" where
  "entry_report lookup e = failed_text (ce_addr e) (ce_next_hop e) (lookup (ce_addr e))"

definition report :: "(u32 \<Rightarrow> u32) \<Rightarrow> challenge_entry list \<Rightarrow> string" where
  "report lookup es = concat (map (entry_report lookup) (filter (wrong lookup) es)) @
     ''Successful lookups: '' @ string_of_nat (length (filter (\<lambda>e. \<not> wrong lookup e) es)) @ endl @
     ''Failed lookups: '' @ string_of_nat (length (filter (wrong lookup) es)) @ endl"

lemma check_entry_eq:
  assumes "mmap_ok mmap" "mmap (challenge_bytes n es) (length es * 8 + 16) = Inr mp" "i < length es"
  shows "check_entry ub lookup mp i (out, good, bad) =
    Inr (if wrong lookup (es ! i) then (out @ entry_report lookup (es ! i), good, incr ub bad) else (out, incr ub good, bad))"
proof -
  have at: "mp (16 + i * 8 + k) = Inr (entry_bytes (es ! i) ! k)" if "k < 8" for k
  proof -
    have "16 + i * 8 + k < length es * 8 + 16" using that assms(3) by linarith
    then have "mp (16 + i * 8 + k) = Inr (challenge_bytes n es ! (16 + i * 8 + k))"
      using assms(1,2) challenge_bytes_facts(1) [of n es] unfolding mmap_ok_def by simp
    then show ?thesis using challenge_entry_at [OF assms(3) that] by simp
  qed
  have "load32 mp (16 + i * 8) = Inr (ce_addr (es ! i))"
    using at by (intro load32_bytes) (simp add: entry_bytes_def nth_append)
  moreover have "load32 mp (16 + i * 8 + 4) = Inr (ce_next_hop (es ! i))"
  proof (rule load32_bytes)
    fix k :: nat assume "k < 4"
    then show "mp (16 + i * 8 + 4 + k) = Inr (bytes32 (ce_next_hop (es ! i)) ! k)"
      using at [of "4 + k"] by (simp add: entry_bytes_def nth_append ac_simps)
  qed
  ultimately show ?thesis by (simp add: check_entry_def wrong_def entry_report_def Let_def)
qed

lemma check_all:
  assumes "mmap_ok mmap" "mmap (challenge_bytes n es) (length es * 8 + 16) = Inr mp" "length es < 2 ^ 31"
  shows "j \<le> length es \<Longrightarrow> foldE (check_entry ub lookup mp) [0..<j] ([], 0, 0) =
    Inr (concat (map (entry_report lookup) (filter (wrong lookup) (take j es))),
      int (length (filter (\<lambda>e. \<not> wrong lookup e) (take j es))), int (length (filter (wrong lookup) (take j es))))"
proof (induction j)
  case (Suc j)
  have "length (filter P (take j es)) \<le> j" for P using length_filter_le [of P "take j es"] by simp
  then have lt: "int (length (filter P (take j es))) < 2 ^ 31 - 1" for P
    using Suc.prems assms(3) le_less_trans [of _ j "2 ^ 31 - 1 :: nat"] by fastforce
  have inc: "incr ub (int (length (filter P (take j es)))) = 1 + int (length (filter P (take j es)))" for P
    using lt [of P] by (simp add: incr_def)
  have "foldE (check_entry ub lookup mp) [0..<j] ([], 0, 0) = Inr (concat (map (entry_report lookup) (filter (wrong lookup) (take j es))),
      int (length (filter (\<lambda>e. \<not> wrong lookup e) (take j es))), int (length (filter (wrong lookup) (take j es))))"
    using Suc by simp
  then show ?case using Suc.prems check_entry_eq [OF assms(1,2), of j] inc
    by (simp add: foldE_append take_Suc_conv_app_nth)
qed simp

lemma run_challenge_eq:
  assumes "mmap_ok mmap" "mmap (challenge_bytes (of_nat (length es)) es) (length es * 8 + 16) = Inr mp" "length es < 2 ^ 31"
    and "fs name = Some (challenge_bytes (of_nat (length es)) es)"
  shows "run_challenge ub mmap timing lookup name fs = Inr (report lookup es,
    timing (int (length (filter (\<lambda>e. \<not> wrong lookup e) es))) (int (length (filter (wrong lookup) es))))"
proof -
  have "unat (of_nat (length es) :: u32) = length es" using assms(3) by (simp add: unat_of_nat take_bit_eq_mod)
  then show ?thesis using assms(2,4) check_all [OF assms(1-3), of "length es" ub lookup]
    by (simp add: run_challenge_def challenge_bytes_facts Let_def report_def cout_int_def)
qed

lemma dump_run:
  assumes "writable name" "mmap_ok mmap"
    and "mmap (challenge_bytes (of_nat NUM_ENTRIES) (map (random_entry L rnd) [0..<NUM_ENTRIES])) (NUM_ENTRIES * 8 + 16) = Inr mp"
  shows "run_challenge ub mmap timing L' name (dump_challenge writable rnd L name fs) = Inr (report L' (map (random_entry L rnd) [0..<NUM_ENTRIES]),
    timing (int (length (filter (\<lambda>e. \<not> wrong L' e) (map (random_entry L rnd) [0..<NUM_ENTRIES]))))
      (int (length (filter (wrong L') (map (random_entry L rnd) [0..<NUM_ENTRIES])))))"
proof -
  let ?es = "map (random_entry L rnd) [0..<NUM_ENTRIES]"
  have len: "length ?es = NUM_ENTRIES" "length ?es < 2 ^ 31" by (simp_all, simp add: NUM_ENTRIES_def)
  then show ?thesis using assms(1,3)
    by (intro run_challenge_eq [OF assms(2), where mp = mp]) (simp_all only: dump_challenge_def write_file_def if_True fun_upd_same)
qed

section \<open>Converting\<close>

lemma convert_loop_lines:
  "convert_loop junk i (Some s) es = Some (es @ map (\<lambda>(k, line). convert_line (junk k) line) (enumerate i (text_lines s)))"
proof (induction "length s" arbitrary: s i es rule: less_induct)
  case less
  show ?case
  proof (cases "dropWhile (\<lambda>c. c \<noteq> newline) s")
    case Nil
    then show ?thesis by (simp only: convert_loop.simps [of junk i "Some s"] text_lines_rec [of s] option.case list.case) simp
  next
    case (Cons c rest)
    then have "length rest < length s" using length_dropWhile_le [of "\<lambda>c. c \<noteq> newline" s] by simp
    from less [OF this] Cons show ?thesis
      by (simp add: convert_loop.simps [of junk i "Some s"] text_lines_rec [of s])
  qed
qed

lemma convert_loop_unopened: "convert_loop junk i None es = None"
proof -
  have "dump \<noteq> None" if "convert_loop junk i dump es = Some r" for dump r
    using that by (rule convert_loop.raw_induct [where P = "\<lambda>_ _ dump _ _. dump \<noteq> None", rotated]) (fastforce split: option.splits)
  then show ?thesis by (cases "convert_loop junk i None es") auto
qed

text \<open>The text format: an address, a blank and a next hop in each line.\<close>

definition pair_line :: "u32 \<times> u32 \<Rightarrow> string" where
  "pair_line x = ip_to_str (fst x) @ '' '' @ ip_to_str (snd x)"

definition pair_text :: "(u32 \<times> u32) list \<Rightarrow> string" where
  "pair_text xs = concat (map (\<lambda>x. pair_line x @ [newline]) xs)"

definition pair_entry :: "u32 \<times> u32 \<Rightarrow> challenge_entry" where
  "pair_entry x = \<lparr>ce_addr = fst x, ce_next_hop = snd x\<rparr>"

lemma newline_not_in_pair: "newline \<notin> set (pair_line x)"
proof -
  have nl: "\<not> is_digit 10 newline" "newline \<noteq> CHR ''.''" "newline \<noteq> CHR '' ''" by code_simp+
  have "newline \<notin> set (string_of_nat n)" for n using string_of_nat_value [of n] nl(1) by (auto simp: list_all_iff)
  with nl show ?thesis by (simp add: pair_line_def ip_to_str_def)
qed

lemma text_lines_pair_text: "text_lines (pair_text xs) = map pair_line xs"
proof (induction xs)
  case (Cons x xs)
  then show ?case using newline_not_in_pair [of x] by (simp add: pair_text_def text_lines_def split_on_append)
qed (simp add: pair_text_def text_lines_def)

lemma convert_pair_line: "convert_line u (pair_line x) = pair_entry x"
proof -
  let ?a = "ip_to_str (fst x)" and ?n = "ip_to_str (snd x)"
  have sp: "spaces '' ''" by code_simp
  have "match_quad (?a @ '' '' @ ?n) = Some (?a, '' '' @ ?n)"
    using dotted_quad_ip [of "fst x"] spaces_hd [OF sp, of ?n] by (simp add: match_quad_iff)
  moreover have "match_spaces ('' '' @ ?n) = Some ?n"
    using sp quad_hd [OF dotted_quad_ip, of "snd x" "[]"] unfolding match_spaces_iff by auto
  moreover have "match_quad ?n = Some (?n, [])" using dotted_quad_ip [of "snd x"] by (simp add: match_quad_iff)
  ultimately have "convert_match (pair_line x) = Some (?a, ?n)" by (simp add: convert_match_def pair_line_def)
  then show ?thesis by (simp add: convert_line_def pair_entry_def inet_aton_ip_to_str)
qed

lemma convert_challenge_pairs:
  assumes "fs old = Some bytes" "text_of bytes = pair_text xs"
  shows "convert_challenge writable junk old new fs =
    Some (write_file writable new (challenge_bytes (of_nat (length xs)) (map pair_entry xs)) fs)"
proof -
  have "map (\<lambda>(k, line). convert_line (junk k) line) (enumerate 0 (map pair_line xs)) = map pair_entry xs"
    by (rule nth_equalityI) (simp_all add: nth_enumerate_eq convert_pair_line)
  then show ?thesis using assms by (simp add: convert_challenge_def convert_loop_lines text_lines_pair_text)
qed

section \<open>Properties\<close>

text \<open>
  A converted text passes the lookups it was made from: \<^verbatim>\<open>convert_challenge\<close> followed by \<^verbatim>\<open>run_challenge\<close> reports exactly the lines whose next
  hop the lookup structure does not return, in their order, and the number of the others.
\<close>

theorem converted_challenge_run:
  assumes "fs old = Some bytes" "text_of bytes = pair_text xs" "writable new" "length xs < 2 ^ 31" "mmap_ok mmap"
    and "mmap (challenge_bytes (of_nat (length xs)) (map pair_entry xs)) (length xs * 8 + 16) = Inr mp"
  shows "\<exists>fs'. convert_challenge writable junk old new fs = Some fs' \<and>
    run_challenge ub mmap timing lookup new fs' = Inr (report lookup (map pair_entry xs),
      timing (int (length (filter (\<lambda>x. lookup (fst x) = snd x) xs))) (int (length (filter (\<lambda>x. lookup (fst x) \<noteq> snd x) xs))))"
proof -
  have "run_challenge ub mmap timing lookup new (fs(new \<mapsto> challenge_bytes (of_nat (length (map pair_entry xs))) (map pair_entry xs))) =
    Inr (report lookup (map pair_entry xs), timing (int (length (filter (\<lambda>e. \<not> wrong lookup e) (map pair_entry xs))))
      (int (length (filter (wrong lookup) (map pair_entry xs)))))"
    using assms(4,6) by (intro run_challenge_eq [OF assms(5), where mp = mp]) simp_all
  then show ?thesis using assms(3) convert_challenge_pairs [of fs old bytes xs writable junk new, OF assms(1,2)]
    by (simp add: write_file_def filter_map o_def wrong_def pair_entry_def)
qed

text \<open>If the text file cannot be opened, \<^verbatim>\<open>convert_challenge\<close> does not return.\<close>

theorem convert_challenge_unopened: "fs old = None \<Longrightarrow> convert_challenge writable junk old new fs = None"
  by (simp add: convert_challenge_def convert_loop_unopened)

text \<open>
  C31: a challenge measures the difference of two lookup structures exactly. When the challenge that was dumped with the lookups \<open>L\<close> is run with the
  lookups \<open>L'\<close>, the report names each of the random addresses for which they differ with both answers, in the order of the dump, and counts
  these and the others; in particular, structures that agree pass with ten million successes and no failure. Nothing depends on the counters
  overflowing.
\<close>

theorem dumped_challenge_run:
  fixes rnd :: "nat \<Rightarrow> int"
  defines "a \<equiv> \<lambda>i. word_of_int (rnd i) :: u32"
  assumes "writable name" "mmap_ok mmap"
    and "mmap (challenge_bytes (of_nat NUM_ENTRIES) (map (random_entry L rnd) [0..<NUM_ENTRIES])) (NUM_ENTRIES * 8 + 16) = Inr mp"
  shows "run_challenge ub mmap timing L' name (dump_challenge writable rnd L name fs) = Inr
    (concat (map (\<lambda>i. failed_text (a i) (L (a i)) (L' (a i))) (filter (\<lambda>i. L' (a i) \<noteq> L (a i)) [0..<NUM_ENTRIES])) @
       ''Successful lookups: '' @ string_of_nat (length (filter (\<lambda>i. L' (a i) = L (a i)) [0..<NUM_ENTRIES])) @ endl @
       ''Failed lookups: '' @ string_of_nat (length (filter (\<lambda>i. L' (a i) \<noteq> L (a i)) [0..<NUM_ENTRIES])) @ endl,
     timing (int (length (filter (\<lambda>i. L' (a i) = L (a i)) [0..<NUM_ENTRIES]))) (int (length (filter (\<lambda>i. L' (a i) \<noteq> L (a i)) [0..<NUM_ENTRIES]))))"
proof -
  let ?es = "map (random_entry L rnd) [0..<NUM_ENTRIES]"
  have "run_challenge ub mmap timing L' name (dump_challenge writable rnd L name fs) = Inr (report L' ?es,
      timing (int (length (filter (\<lambda>e. \<not> wrong L' e) ?es))) (int (length (filter (wrong L') ?es))))"
    using dump_run [of writable name, OF assms(2-4)] .
  moreover have "wrong L' (random_entry L rnd i) \<longleftrightarrow> L' (a i) \<noteq> L (a i)"
    "entry_report L' (random_entry L rnd i) = failed_text (a i) (L (a i)) (L' (a i))" for i
    by (simp_all add: wrong_def entry_report_def random_entry_def a_def Let_def)
  ultimately show ?thesis by (simp add: report_def filter_map o_def)
qed

text \<open>A mapping of a file, without the rest of its last page.\<close>

definition file_mmap :: "u8 list \<Rightarrow> nat \<Rightarrow> int + (nat \<Rightarrow> u8 result)" where
  "file_mmap bytes len = Inr (\<lambda>i. if i < length bytes then Inr (bytes ! i) else Inl OutOfBounds)"

lemma file_mmap_ok: "mmap_ok file_mmap"
  by (auto simp: mmap_ok_def file_mmap_def)

text \<open>A structure that is wrong for one address out of ten million.\<close>

lemma filter_upt_eq: "k < n \<Longrightarrow> filter (\<lambda>i. i = k) [0..<n] = [k]"
proof (induction n)
  case (Suc n)
  then show ?case by (cases "k = n") (auto simp: filter_empty_conv)
qed simp

lemma one_wrong_address:
  "i < NUM_ENTRIES \<Longrightarrow> ((if word_of_int (int i) = (5 :: u32) then 1 else 0 :: u32) \<noteq> 0) = (i = 5)"
proof -
  assume i: "i < NUM_ENTRIES"
  have "(word_of_int (int i) :: u32) = 5 \<longleftrightarrow> unat (word_of_int (int i) :: u32) = 5" by (simp add: word_unat_eq_iff)
  also have "\<dots> \<longleftrightarrow> i = 5" using i by (simp add: NUM_ENTRIES_def unat_of_nat take_bit_eq_mod)
  finally show ?thesis by simp
qed

theorem dumped_challenge_run_witness:
  "run_challenge (\<lambda>_. 0) file_mmap (\<lambda>_ _. ''fast'') (\<lambda>a. if a = 5 then 1 else 0) ''c'' (dump_challenge (\<lambda>_. True) int (\<lambda>_. 0) ''c'' (\<lambda>_. None)) =
     Inr (failed_text 5 0 1 @ ''Successful lookups: '' @ string_of_nat 9999999 @ endl @ ''Failed lookups: '' @ string_of_nat 1 @ endl, ''fast'')"
proof -
  let ?a = "\<lambda>i. word_of_int (int i) :: u32" and ?L = "\<lambda>a :: u32. if a = 5 then 1 else 0 :: u32"
  have "filter (\<lambda>i. ?L (?a i) \<noteq> 0) [0..<NUM_ENTRIES] = filter (\<lambda>i. i = 5) [0..<NUM_ENTRIES]"
    using one_wrong_address by (intro filter_cong refl) simp
  also have "\<dots> = [5]" by (rule filter_upt_eq) (simp add: NUM_ENTRIES_def)
  finally have bad: "filter (\<lambda>i. ?L (?a i) \<noteq> 0) [0..<NUM_ENTRIES] = [5]" .
  have "length (filter (\<lambda>i. ?L (?a i) \<noteq> 0) [0..<NUM_ENTRIES]) + length (filter (\<lambda>i. \<not> ?L (?a i) \<noteq> 0) [0..<NUM_ENTRIES]) = NUM_ENTRIES"
    using sum_length_filter_compl [of "\<lambda>i. ?L (?a i) \<noteq> 0" "[0..<NUM_ENTRIES]"] by (simp only: length_upt diff_zero)
  then have good: "length (filter (\<lambda>i. ?L (?a i) = 0) [0..<NUM_ENTRIES]) = 9999999"
    unfolding bad not_not by (simp add: NUM_ENTRIES_def)
  have "?a 5 = 5" "?L 5 = 1" by simp_all
  then show ?thesis
    using dumped_challenge_run [of "\<lambda>_. True" "''c''" file_mmap "\<lambda>_. 0" int _ "\<lambda>_. 0" "\<lambda>_ _. ''fast''" ?L "\<lambda>_. None", OF _ file_mmap_ok]
    unfolding bad good by (simp add: file_mmap_def)
qed

text \<open>
  The two structures of the router that are in use agree, so that a challenge dumped with the trie passes with the walk over all routes, whatever
  the next hops of the indices are.
\<close>

theorem trie_and_naive_pass:
  assumes "lpm_ready es" "buildTrie ub es = Inr t" "writable name" "mmap_ok mmap" "\<And>bytes len. \<exists>mp. mmap bytes len = Inr mp"
  shows "run_challenge ub' mmap timing (\<lambda>a. hop (projr (naive_route (Naive es) a))) name (dump_challenge writable rnd (\<lambda>a. hop (trie_route ub t a)) name fs) =
    Inr (''Successful lookups: '' @ string_of_nat NUM_ENTRIES @ endl @ ''Failed lookups: '' @ string_of_nat 0 @ endl, timing (int NUM_ENTRIES) 0)"
proof -
  let ?L = "\<lambda>a. hop (trie_route ub t a)" and ?N = "\<lambda>a. hop (projr (naive_route (Naive es) a))"
  let ?es = "map (random_entry ?L rnd) [0..<NUM_ENTRIES]"
  have "naive_route (Naive es) a = Inr (trie_route ub t a)" for a using np.agree [OF assms(1) refl assms(2)] by simp
  then have "\<not> wrong ?N (random_entry ?L rnd i)" for i by (simp add: wrong_def random_entry_def Let_def)
  then have "filter (wrong ?N) ?es = []" "filter (\<lambda>e. \<not> wrong ?N e) ?es = ?es" by (simp_all add: filter_map o_def)
  moreover obtain mp where "mmap (challenge_bytes (of_nat NUM_ENTRIES) ?es) (NUM_ENTRIES * 8 + 16) = Inr mp" using assms(5) by blast
  then have "run_challenge ub' mmap timing ?N name (dump_challenge writable rnd ?L name fs) = Inr (report ?N ?es,
      timing (int (length (filter (\<lambda>e. \<not> wrong ?N e) ?es))) (int (length (filter (wrong ?N) ?es))))"
    by (rule dump_run [of writable name, OF assms(3,4)])
  ultimately show ?thesis by (simp add: report_def)
qed

end
