(* ===== verification/Benchmark.thy ===== *)
theory Benchmark
  imports Challenge Startup
begin

text \<open>
  The former \<^verbatim>\<open>main\<close> at the end of \<^verbatim>\<open>src/main.cpp\<close>, disabled by the \<^verbatim>\<open>#if 0\<close> around the whole of the old code. The model is the program that
  one gets by enabling that code: what is in the \<^verbatim>\<open>#if 0\<close> blocks inside it stays disabled, so that there are three options and one
  mode, and \<^verbatim>\<open>--dump-challenge\<close>, \<^verbatim>\<open>--run-challenge\<close> and \<^verbatim>\<open>--convert-challenge\<close> are unknown words. The constructor of the kernel's table without
  arguments is gone: its result is an argument.
\<close>

section \<open>The command line\<close>

datatype tool_mode = INVALID_MODE | DUMP_FIB | DUMP_CHALLENGE | RUN_CHALLENGE | CONVERT_CHALLENGE
datatype tool_algo = INVALID_ALGO | NAIVE | BASICTRIE
datatype table_mode = FILETABLE | KERNEL

record tool_opts =
  t_mode :: tool_mode
  t_algo :: tool_algo
  t_table :: table_mode
  t_filename :: string
  t_challenge :: string

definition tool_usage :: "string \<Rightarrow> string" where
  "tool_usage name =
     (let tab = [char_of (9 :: nat)]; tabs = (\<lambda>n. concat (replicate n tab)) in
      ''Usage: '' @ name @ endl @
      tab @ '' --algo <name>'' @ tabs 4 @ '' valid: Naive, BasicTrie (default: BasicTrie)'' @ endl @
      tab @ '' --dump-fib'' @ tabs 4 @ '' pass rib filename to --fib-file'' @ endl @
      tab @ '' --fib-file <fib>'' @ tabs 3 @ '' default: kernel routing table'' @ endl)"

text \<open>The loop over the options; \<open>None\<close> is the way out through the usage text.\<close>

function tool_parse :: "string list \<Rightarrow> nat \<Rightarrow> tool_opts \<Rightarrow> tool_opts option result" where
  "tool_parse argv cmd_pos opts =
     (if \<not> cmd_pos < length argv then Inr (Some opts)
      else let arg = argv ! cmd_pos in
        if arg = ''--algo'' then
          bindE (argv_at argv (cmd_pos + 1)) (\<lambda>x. tool_parse argv (cmd_pos + 2)
            (if x = ''Naive'' then opts\<lparr>t_algo := NAIVE\<rparr> else if x = ''BasicTrie'' then opts\<lparr>t_algo := BASICTRIE\<rparr> else opts))
        else if arg = ''--dump-fib'' then tool_parse argv (cmd_pos + 1) (opts\<lparr>t_mode := DUMP_FIB\<rparr>)
        else if arg = ''--fib-file'' then
          bindE (argv_at argv (cmd_pos + 1)) (\<lambda>x. tool_parse argv (cmd_pos + 2) (opts\<lparr>t_table := FILETABLE, t_filename := x\<rparr>))
        else Inr None)"
  by pat_completeness auto
termination
  by (relation "measure (\<lambda>(argv, pos, opts). length argv - pos)") auto

declare tool_parse.simps [simp del]

section \<open>The modes\<close>

record tool_env =
  te_heap :: iheap
  te_kernel :: "routing_table result"
  te_atoi :: "string \<Rightarrow> int"
  te_junk :: "nat \<Rightarrow> u32"
  te_files :: "string \<Rightarrow> string option"

definition tool_table :: "tool_env \<Rightarrow> tool_opts \<Rightarrow> routing_table result" where
  "tool_table e opts = (case t_table opts of
     KERNEL \<Rightarrow> te_kernel e
   | FILETABLE \<Rightarrow> FileTable (te_atoi e) (te_junk e) (te_files e) (t_filename opts))"

text \<open>What is written on \<^verbatim>\<open>cout\<close>.\<close>

definition tool_run :: "tool_env \<Rightarrow> string \<Rightarrow> tool_opts \<Rightarrow> routing_table \<Rightarrow> string result" where
  "tool_run e name opts table =
     (if t_mode opts = DUMP_FIB then print_table (te_heap e) (entries table) else Inr (tool_usage name))"

definition tool_main :: "tool_env \<Rightarrow> string list \<Rightarrow> string result" where
  "tool_main e argv =
     bindE (argv_at argv 0) (\<lambda>name.
     if length argv < 2 then Inr (tool_usage name)
     else bindE (tool_parse argv 1 \<lparr>t_mode = INVALID_MODE, t_algo = INVALID_ALGO, t_table = KERNEL, t_filename = [], t_challenge = []\<rparr>) (\<lambda>r.
       case r of
         None \<Rightarrow> Inr (tool_usage name)
       | Some opts \<Rightarrow> bindE (tool_table e opts) (tool_run e name opts)))"

section \<open>What the words do\<close>

text \<open>The table of the kernel or of a file is printed, whatever algorithm was chosen.\<close>

lemma tool_dump_fib:
  "tool_main e [p, ''--dump-fib''] = bindE (te_kernel e) (\<lambda>t. print_table (te_heap e) (entries t))"
  "tool_main e [p, ''--fib-file'', f, ''--dump-fib''] =
     bindE (FileTable (te_atoi e) (te_junk e) (te_files e) f) (\<lambda>t. print_table (te_heap e) (entries t))"
  "tool_main e [p, ''--algo'', x, ''--dump-fib''] = bindE (te_kernel e) (\<lambda>t. print_table (te_heap e) (entries t))"
  by (auto simp: tool_main_def argv_at_def tool_parse.simps tool_table_def tool_run_def bindE_def split: sum.splits)

lemma tool_unknown_word:
  assumes "x \<notin> {''--algo'', ''--dump-fib'', ''--fib-file''}"
  shows "tool_main e (p # x # xs) = Inr (tool_usage p)"
  using assms by (simp add: tool_main_def argv_at_def tool_parse.simps)

text \<open>An option whose argument is missing reads the null pointer behind the command line.\<close>

lemma tool_missing_argument:
  assumes "opt \<in> {''--algo'', ''--fib-file''}"
  shows "tool_main e [p, opt] = Inl NullDeref"
  using assms by (auto simp: tool_main_def argv_at_def tool_parse.simps)

end
