(* ===== verification/PCTrie.thy ===== *)
theory PCTrie
  imports RoutingTable
begin

text \<open>
  \<^verbatim>\<open>include/pcTrie.hpp\<close> and \<^verbatim>\<open>src/pcTrie.cpp\<close>: the path-compressed trie. The build leaves it out
  (\<^verbatim>\<open>#if 0\<close>), and the class \<^verbatim>\<open>Table\<close> it was written for has since become \<^verbatim>\<open>RoutingTable\<close>; the sorted routes it asks for are an
  argument here. Nodes point to their parents, inner nodes to a leaf further down for backtracking, and insertion relinks
  nodes in place, so the model is a heap of nodes with explicit addresses. The loops that follow pointers have fuel.
\<close>

section \<open>Nodes\<close>

type_synonym nptr = nat

text \<open>\<^verbatim>\<open>Internal\<close> and \<^verbatim>\<open>Leaf\<close> derive from \<^verbatim>\<open>Node\<close>; the constructor is the field \<^verbatim>\<open>type\<close>.\<close>

datatype pc_node =
    INTERNAL (n_parent: "nptr option") (n_base: u32) (n_left: "nptr option") (n_right: "nptr option")
      (n_leaf: "nptr option") (n_splitPos: u8)
  | LEAF (n_parent: "nptr option") (n_base: u32) (n_entries: "route list")

type_synonym pc_heap = "nptr \<Rightarrow> pc_node"

record PCTrie =
  pc_root :: "nptr option"
  pc_nodes :: pc_heap
  pc_fresh :: nptr
  qtree :: bool
  qtree_prev :: string

section \<open>Leaves\<close>

definition leafEntry_less :: "route \<Rightarrow> route \<Rightarrow> bool" where
  "leafEntry_less a e \<longleftrightarrow> prefix_length a > prefix_length e"

definition pushRoute :: "route \<Rightarrow> route list \<Rightarrow> route list" where
  "pushRoute r es = std_sort leafEntry_less (es @ [r])"

definition hasMoreGeneralRoute :: "u32 \<Rightarrow> route list \<Rightarrow> bool" where
  "hasMoreGeneralRoute len es = list_ex (\<lambda>e. prefix_length e \<le> len) es"

text \<open>A \<^verbatim>\<open>Leaf*\<close> is never assigned anything but the address of a leaf.\<close>

definition leaf_entries :: "pc_heap \<Rightarrow> nptr \<Rightarrow> route list" where
  "leaf_entries h p = (case h p of LEAF _ _ es \<Rightarrow> es | INTERNAL _ _ _ _ _ _ \<Rightarrow> [])"

section \<open>Printing\<close>

abbreviation bsl :: string where
  "bsl \<equiv> [CHR 0x5C]"

definition leaf_printer :: "(nptr \<Rightarrow> string) \<Rightarrow> nptr \<Rightarrow> u32 \<Rightarrow> route list \<Rightarrow> string" where
  "leaf_printer sp p b es =
     bsl @ ''node[draw]('' @ sp p @ ''){'' @ ip_to_str b @
     concat (map (\<lambda>e. bsl @ bsl @ ip_to_str (next_hop e) @ '':'' @ string_of_nat (unat (prefix_length e))) es) @ ''};''"

text \<open>
  The local function \<^verbatim>\<open>recursive_helper\<close> on the two streams; \<open>sp\<close> is the text of an address. A child is an inner
  node, for which it recurses, or a leaf.
\<close>

fun recursive_helper :: "nat \<Rightarrow> (nptr \<Rightarrow> string) \<Rightarrow> pc_heap \<Rightarrow> nptr \<Rightarrow> string \<times> string \<Rightarrow> (string \<times> string) result option" where
  "recursive_helper 0 sp h node s = None"
| "recursive_helper (Suc fuel) sp h node (output, references) =
     (let child = (\<lambda>c (output, references).
        case c of
          None \<Rightarrow> Some (Inl NullDeref)
        | Some p \<Rightarrow>
            case h p of
              INTERNAL _ _ _ _ _ _ \<Rightarrow> recursive_helper fuel sp h p (output, references)
            | LEAF _ b es \<Rightarrow> Some (Inr (output @ leaf_printer sp p b es, references)))
      in case h node of
           LEAF _ _ _ \<Rightarrow> Some (Inl Abort)
         | INTERNAL _ b l r lf s \<Rightarrow>
             let output = output @ '' [ '' @ ''.'' @ bsl @ ''node('' @ sp node @ ''){'' @ ip_to_str b @ ''-'' @ string_of_nat (unat s) @ ''};'';
                 references = (case lf of
                     None \<Rightarrow> references
                   | Some q \<Rightarrow> references @ bsl @ ''draw[semithick,dashed,->] ('' @ sp node @
                       '') .. controls +(west:1.8) and +(north west:1.8) .. ('' @ sp q @ '');'' @ endl)
             in bindO (child l (output, references)) (\<lambda>(output, references).
                bindO (child r (output @ endl, references)) (\<lambda>(output, references).
                Some (Inr (output @ '' ] '', references)))))"

definition getQtreeSnapshot :: "nat \<Rightarrow> (nptr \<Rightarrow> string) \<Rightarrow> PCTrie \<Rightarrow> string result option" where
  "getQtreeSnapshot fuel sp t =
     (let tab = [CHR 0x09];
          output = ''%'' @ endl @ tab @ bsl @ ''begin{tikzpicture}'' @ endl @
            tab @ tab @ bsl @ ''tikzset{every tree node/.style={align=center,anchor=north}}'' @ endl @ bsl @ ''Tree ''
      in case pc_root t of
           None \<Rightarrow> Some (Inl NullDeref)
         | Some root \<Rightarrow>
             case pc_nodes t root of
               LEAF _ _ _ \<Rightarrow> Some (Inl Abort)
             | INTERNAL _ _ _ _ _ _ \<Rightarrow>
                 bindO (recursive_helper fuel sp (pc_nodes t) root (output, [])) (\<lambda>(output, references).
                 Some (Inr (output @ references @ tab @ bsl @ ''end{tikzpicture}'' @ endl @ ''%'' @ endl))))"

definition addQtreeSnapshot :: "nat \<Rightarrow> (nptr \<Rightarrow> string) \<Rightarrow> PCTrie \<Rightarrow> PCTrie result option" where
  "addQtreeSnapshot fuel sp t =
     bindO (getQtreeSnapshot fuel sp t) (\<lambda>s. Some (Inr (t\<lparr>qtree_prev := qtree_prev t @ s\<rparr>)))"

definition finalizeQtree :: "string \<Rightarrow> string" where
  "finalizeQtree tree =
     bsl @ ''documentclass[preview,multi={tikzpicture},border={5pt 5pt 5pt 5pt}]{standalone} '' @ endl @ '' %'' @ endl @
     bsl @ ''usepackage{tikz}'' @ endl @ bsl @ ''usepackage{tikz-qtree}'' @ endl @ ''%'' @ endl @
     bsl @ ''begin{document}'' @ endl @ ''%'' @ endl @ tree @ ''%'' @ endl @ bsl @ ''end{document}'' @ endl"

definition getQtree :: "nat \<Rightarrow> (nptr \<Rightarrow> string) \<Rightarrow> PCTrie \<Rightarrow> string result option" where
  "getQtree fuel sp t = bindO (getQtreeSnapshot fuel sp t) (\<lambda>s. Some (Inr (finalizeQtree s)))"

definition getQtreeHistory :: "PCTrie \<Rightarrow> string" where
  "getQtreeHistory t = finalizeQtree (qtree_prev t)"

section \<open>Insertion\<close>

text \<open>The traversal to the first prefix conflict, or until a leaf is found.\<close>

fun pc_descend :: "nat \<Rightarrow> (u32 \<Rightarrow> nat \<Rightarrow> u32) \<Rightarrow> pc_heap \<Rightarrow> u32 \<Rightarrow> nptr \<Rightarrow> nptr result option" where
  "pc_descend 0 ub h b cur = None"
| "pc_descend (Suc fuel) ub h b cur =
     (case h cur of
        LEAF _ _ _ \<Rightarrow> Some (Inr cur)
      | INTERNAL _ nb l r _ s \<Rightarrow>
          if nb XOR (b AND PREFIX_MASK (unat s)) \<noteq> 0 then Some (Inr cur)
          else case (if extractBit ub b (unat s) \<noteq> 0 then r else l) of
                 None \<Rightarrow> Some (Inl NullDeref)
               | Some c \<Rightarrow> pc_descend fuel ub h b c)"

definition pc_diff :: "pc_node \<Rightarrow> u32 \<Rightarrow> u32" where
  "pc_diff n b =
     (case n of
        INTERNAL _ nb _ _ _ s \<Rightarrow> nb XOR (b AND PREFIX_MASK (unat s))
      | LEAF _ nb _ \<Rightarrow> nb XOR b)"

text \<open>The leaf a new inner node refers to, and the left child, which may have to pass its own leaf up.\<close>

definition pass_leaf :: "pc_heap \<Rightarrow> u32 \<Rightarrow> u8 \<Rightarrow> nptr \<Rightarrow> nptr option \<times> pc_heap" where
  "pass_leaf h new_base pos l =
     (case h l of
        LEAF _ b es \<Rightarrow>
          (if new_base = b AND PREFIX_MASK (unat pos) \<and> hasMoreGeneralRoute (ucast pos) es then Some l else None, h)
      | INTERNAL p b cl cr lf s \<Rightarrow>
          case lf of
            None \<Rightarrow> (None, h)
          | Some q \<Rightarrow>
              if hasMoreGeneralRoute (ucast pos) (leaf_entries h q) then (Some q, h(l := INTERNAL p b cl cr None s))
              else (None, h))"

definition set_parent :: "nptr option \<Rightarrow> pc_node \<Rightarrow> pc_node" where
  "set_parent p n = (case n of INTERNAL _ b l r lf s \<Rightarrow> INTERNAL p b l r lf s | LEAF _ b es \<Rightarrow> LEAF p b es)"

definition relink :: "nptr \<Rightarrow> nptr \<Rightarrow> pc_node \<Rightarrow> pc_node" where
  "relink cur new_int n =
     (case n of
        INTERNAL p b l r lf s \<Rightarrow> if l = Some cur then INTERNAL p b (Some new_int) r lf s else INTERNAL p b l (Some new_int) lf s
      | LEAF _ _ _ \<Rightarrow> n)"

text \<open>
  The new inner node above \<open>cur\<close> with a new leaf for the route. The sanity checks for missing children cannot
  fail, since both are set just before; the one for the split position of the parent is kept.
\<close>

definition pc_split :: "(u32 \<Rightarrow> nat \<Rightarrow> u32) \<Rightarrow> route \<Rightarrow> nptr \<Rightarrow> PCTrie \<Rightarrow> PCTrie result" where
  "pc_split ub r cur t =
     (let h = pc_nodes t; pos = mostSigOne (pc_diff (h cur) (base r)) in
      if pos < 0 \<or> pos > 32 then Inl Abort
      else
        let pos = nat pos;
            new_base = base r AND PREFIX_MASK pos;
            parent = n_parent (h cur);
            new_int = pc_fresh t;
            new_leaf = Suc (pc_fresh t);
            h = h(new_leaf := LEAF (Some new_int) (base r) (pushRoute r []));
            (left, right) = (if extractBit ub (base r) pos \<noteq> 0 then (cur, new_leaf) else (new_leaf, cur));
            (lf, h) = pass_leaf h new_base (of_nat pos) left;
            h = h(new_int := INTERNAL parent new_base (Some left) (Some right) lf (of_nat pos));
            h = h(cur := set_parent (Some new_int) (h cur));
            t = t\<lparr>pc_fresh := Suc new_leaf\<rparr>
        in case parent of
             None \<Rightarrow> Inr (t\<lparr>pc_nodes := h, pc_root := Some new_int\<rparr>)
           | Some p \<Rightarrow>
               if (of_nat pos :: u8) \<le> n_splitPos (h p) then Inl Abort
               else Inr (t\<lparr>pc_nodes := h(p := relink cur new_int (h p))\<rparr>))"

text \<open>The body of the inner loop of \<^verbatim>\<open>buildTrie\<close>.\<close>

definition pc_insert :: "nat \<Rightarrow> (u32 \<Rightarrow> nat \<Rightarrow> u32) \<Rightarrow> (nptr \<Rightarrow> string) \<Rightarrow> route \<Rightarrow> PCTrie \<Rightarrow> PCTrie result option" where
  "pc_insert fuel ub sp r t =
     (case pc_root t of
        None \<Rightarrow> Some (Inr (t\<lparr>pc_root := Some (pc_fresh t), pc_fresh := Suc (pc_fresh t),
          pc_nodes := (pc_nodes t)(pc_fresh t := LEAF None (base r) (pushRoute r []))\<rparr>))
      | Some root \<Rightarrow>
          bindO (pc_descend fuel ub (pc_nodes t) (base r) root) (\<lambda>cur.
          let split = bindO (Some (pc_split ub r cur t)) (\<lambda>t. if qtree t then addQtreeSnapshot fuel sp t else Some (Inr t))
          in case pc_nodes t cur of
               LEAF p b es \<Rightarrow>
                 if b = base r then Some (Inr (t\<lparr>pc_nodes := (pc_nodes t)(cur := LEAF p b (pushRoute r es))\<rparr>)) else split
             | INTERNAL _ _ _ _ _ _ \<Rightarrow> split))"

definition pc_buildTrie :: "nat \<Rightarrow> (u32 \<Rightarrow> nat \<Rightarrow> u32) \<Rightarrow> (nptr \<Rightarrow> string) \<Rightarrow> rib \<Rightarrow> PCTrie \<Rightarrow> PCTrie result option" where
  "pc_buildTrie fuel ub sp tbl =
     foldO (\<lambda>len t. if length tbl \<le> len then Some (Inl OutOfBounds) else foldO (pc_insert fuel ub sp) (tbl ! len) t) [0..<33]"

definition new_PCTrie :: "nat \<Rightarrow> (u32 \<Rightarrow> nat \<Rightarrow> u32) \<Rightarrow> (nptr \<Rightarrow> string) \<Rightarrow> rib \<Rightarrow> bool \<Rightarrow> PCTrie result option" where
  "new_PCTrie fuel ub sp tbl q =
     pc_buildTrie fuel ub sp tbl \<lparr>pc_root = None, pc_nodes = (\<lambda>_. LEAF None 0 []), pc_fresh = 0, qtree = q, qtree_prev = []\<rparr>"

section \<open>Size\<close>

text \<open>
  The local function \<^verbatim>\<open>summer\<close>. It adds \<^verbatim>\<open>max_size()\<close> of the vectors, the largest size an implementation supports, and not their
  size; \<open>max_size\<close> stands for it.
\<close>

fun summer :: "nat \<Rightarrow> u32 \<Rightarrow> pc_heap \<Rightarrow> nptr \<Rightarrow> u32 \<times> u32 \<times> u32 \<Rightarrow> (u32 \<times> u32 \<times> u32) result option" where
  "summer 0 max_size h cur s = None"
| "summer (Suc fuel) max_size h cur (num_int, num_leaf, num_entries) =
     (let child = (\<lambda>c (num_int, num_leaf, num_entries).
        case c of
          None \<Rightarrow> Some (Inl NullDeref)
        | Some p \<Rightarrow>
            case h p of
              INTERNAL _ _ _ _ _ _ \<Rightarrow> summer fuel max_size h p (num_int, num_leaf, num_entries)
            | LEAF _ _ _ \<Rightarrow> Some (Inr (num_int, num_leaf + 1, num_entries + max_size)))
      in bindO (child (n_left (h cur)) (num_int + 1, num_leaf, num_entries)) (child (n_right (h cur))))"

definition getSize :: "nat \<Rightarrow> u32 \<Rightarrow> u32 \<Rightarrow> u32 \<Rightarrow> u32 \<Rightarrow> PCTrie \<Rightarrow> u32 result option" where
  "getSize fuel max_size size_int size_leaf size_leafEntry t =
     bindO (case pc_root t of
              None \<Rightarrow> Some (Inr (0, 0, 0))
            | Some root \<Rightarrow>
                case pc_nodes t root of
                  LEAF _ _ _ \<Rightarrow> Some (Inr (0, 0, 0))
                | INTERNAL _ _ _ _ _ _ \<Rightarrow> summer fuel max_size (pc_nodes t) root (0, 0, 0))
       (\<lambda>(num_int, num_leaf, num_entries).
          Some (Inr (size_int * num_int + size_leaf * num_leaf + size_leafEntry * num_entries)))"

section \<open>Lookup\<close>

text \<open>
  The loop over the entries of a leaf. \<^verbatim>\<open>route\<close> returns a reference to an entry, or \<^verbatim>\<open>Table::invalidRoute\<close>, which is \<open>None\<close> here.
\<close>

definition leaf_match :: "u32 \<Rightarrow> u32 \<Rightarrow> route list \<Rightarrow> route option" where
  "leaf_match addr b es = find (\<lambda>e. addr AND PREFIX_MASK (unat (prefix_length e)) = b) es"

fun pc_down :: "nat \<Rightarrow> (u32 \<Rightarrow> nat \<Rightarrow> u32) \<Rightarrow> pc_heap \<Rightarrow> u32 \<Rightarrow> nptr \<Rightarrow> nptr result option" where
  "pc_down 0 ub h addr cur = None"
| "pc_down (Suc fuel) ub h addr cur =
     (case h cur of
        LEAF _ _ _ \<Rightarrow> Some (Inr cur)
      | INTERNAL _ _ l r _ s \<Rightarrow>
          case (if extractBit ub addr (unat s) \<noteq> 0 then r else l) of
            None \<Rightarrow> Some (Inl NullDeref)
          | Some c \<Rightarrow> pc_down fuel ub h addr c)"

fun pc_up :: "nat \<Rightarrow> pc_heap \<Rightarrow> u32 \<Rightarrow> nptr option \<Rightarrow> route option option" where
  "pc_up 0 h addr cur = None"
| "pc_up (Suc fuel) h addr cur =
     (case cur of
        None \<Rightarrow> Some None
      | Some p \<Rightarrow>
          let found = (case n_leaf (h p) of None \<Rightarrow> None | Some q \<Rightarrow> leaf_match addr (n_base (h q)) (leaf_entries h q))
          in if found = None then pc_up fuel h addr (n_parent (h p)) else Some found)"

definition pc_route :: "nat \<Rightarrow> (u32 \<Rightarrow> nat \<Rightarrow> u32) \<Rightarrow> PCTrie \<Rightarrow> u32 \<Rightarrow> route option result option" where
  "pc_route fuel ub t addr =
     (case pc_root t of
        None \<Rightarrow> Some (Inr None)
      | Some root \<Rightarrow>
          bindO (pc_down fuel ub (pc_nodes t) addr root) (\<lambda>cur.
          case leaf_match addr (n_base (pc_nodes t cur)) (leaf_entries (pc_nodes t) cur) of
            Some e \<Rightarrow> Some (Inr (Some e))
          | None \<Rightarrow> map_option Inr (pc_up fuel (pc_nodes t) addr (n_parent (pc_nodes t cur)))))"

end
