(* ===== verification/PCTree.thy ===== *)
theory PCTree
  imports PCTrie
begin

text \<open>
  The path-compressed trie as a tree. The nodes keep their addresses, since inner nodes name a leaf by its address; everything
  else is a functional data structure, whose invariant is stated and kept here. Lookups in such a tree find the longest
  covering prefix. The pointer structure is related to it in the theories \<open>PCRefine\<close> and \<open>PCSplit\<close>.
\<close>

section \<open>Trees\<close>

datatype ptree = PL nptr u32 "route list" | PN nptr u32 nat "nptr option" ptree ptree

fun ptr :: "ptree \<Rightarrow> nptr" where
  "ptr (PL p b es) = p"
| "ptr (PN p b s lf l r) = p"

fun leaves :: "ptree \<Rightarrow> (nptr \<times> u32 \<times> route list) set" where
  "leaves (PL p b es) = {(p, b, es)}"
| "leaves (PN p b s lf l r) = leaves l \<union> leaves r"

definition tree_routes :: "ptree \<Rightarrow> route set" where
  "tree_routes t = (\<Union>(p, b, es) \<in> leaves t. set es)"

text \<open>The entries of the leaf at an address.\<close>

fun es_at :: "ptree \<Rightarrow> nptr \<Rightarrow> (u32 \<times> route list) option" where
  "es_at (PL p b es) q = (if p = q then Some (b, es) else None)"
| "es_at (PN p b s lf l r) q = (case es_at l q of Some x \<Rightarrow> Some x | None \<Rightarrow> es_at r q)"

fun leaf_ptrs :: "ptree \<Rightarrow> nptr list" where
  "leaf_ptrs (PL p b es) = [p]"
| "leaf_ptrs (PN p b s lf l r) = leaf_ptrs l @ leaf_ptrs r"

abbreviation bitpos :: "u32 \<Rightarrow> nat \<Rightarrow> bool" where
  "bitpos a i \<equiv> bit a (31 - i)"

text \<open>
  The leaves below an inner node agree on the bits before the split position and branch on it. The leaf an inner node refers
  to is below it on the left and has its base.
\<close>

definition wf_leaf :: "u32 \<Rightarrow> route list \<Rightarrow> bool" where
  "wf_leaf b es \<longleftrightarrow> es \<noteq> [] \<and> (\<forall>e \<in> set es. base e = b \<and> wf_route e) \<and> sorted_wrt (\<lambda>a e. plen e \<le> plen a) es"

definition branch :: "u32 \<Rightarrow> nat \<Rightarrow> bool \<Rightarrow> ptree \<Rightarrow> bool" where
  "branch b s v t \<longleftrightarrow> (\<forall>q c es. (q, c, es) \<in> leaves t \<longrightarrow> c AND PREFIX_MASK s = b \<and> bitpos c s = v)"

fun tinv :: "ptree \<Rightarrow> bool" where
  "tinv (PL p b es) \<longleftrightarrow> wf_leaf b es"
| "tinv (PN p b s lf l r) \<longleftrightarrow> s < 32 \<and> tinv l \<and> tinv r \<and>
     branch b s False l \<and> branch b s True r \<and>
     (\<forall>q. lf = Some q \<longrightarrow> (\<exists>es. (q, b, es) \<in> leaves l))"

text \<open>
  Every leaf whose route covers the whole of an inner node is referred to there or further up. \<open>A\<close> are the leaves
  that nodes further up refer to.
\<close>

definition general :: "nat \<Rightarrow> route list \<Rightarrow> bool" where
  "general s es \<longleftrightarrow> (\<exists>e \<in> set es. plen e \<le> s)"

fun covered :: "nptr set \<Rightarrow> ptree \<Rightarrow> bool" where
  "covered A (PL p b es) \<longleftrightarrow> True"
| "covered A (PN p b s lf l r) \<longleftrightarrow>
     (\<forall>q c es. (q, c, es) \<in> leaves l \<longrightarrow> general s es \<longrightarrow> q \<in> A \<union> set_option lf) \<and>
     covered (A \<union> set_option lf) l \<and> covered (A \<union> set_option lf) r"

lemma branchD: "branch b s v t \<Longrightarrow> (q, c, es) \<in> leaves t \<Longrightarrow> c AND PREFIX_MASK s = b \<and> bitpos c s = v"
  by (auto simp: branch_def)

lemma branch_PN [simp]: "branch b s v (PN p b' s' lf l r) \<longleftrightarrow> branch b s v l \<and> branch b s v r"
  unfolding branch_def by (simp, blast)

lemma branch_PL [simp]: "branch b s v (PL p c es) \<longleftrightarrow> c AND PREFIX_MASK s = b \<and> bitpos c s = v"
  by (auto simp: branch_def)

lemma leaves_nonempty: "leaves t \<noteq> {}"
  by (induction t) auto

lemma finite_leaves: "finite (leaves t)"
  by (induction t) auto

lemma leaf_ptrs_leaves: "set (leaf_ptrs t) = fst ` leaves t"
  by (induction t) auto

lemma es_at_leaves: "distinct (leaf_ptrs t) \<Longrightarrow> es_at t q = Some (b, es) \<longleftrightarrow> (q, b, es) \<in> leaves t"
proof (induction t)
  case (PN p b' s lf l r)
  have none: "es_at t q = None" if "q \<notin> set (leaf_ptrs t)" for t using that by (induction t) auto
  show ?case
  proof (cases "q \<in> set (leaf_ptrs l)")
    case True
    then have "q \<notin> set (leaf_ptrs r)" using PN.prems by auto
    moreover from this have "(q, b, es) \<notin> leaves r" by (force simp: leaf_ptrs_leaves)
    ultimately show ?thesis using PN none by (auto split: option.splits)
  next
    case False
    then have "(q, b, es) \<notin> leaves l" by (force simp: leaf_ptrs_leaves)
    then show ?thesis using PN none [OF False] by auto
  qed
qed auto

lemma tinv_leaf: "tinv t \<Longrightarrow> (q, b, es) \<in> leaves t \<Longrightarrow> wf_leaf b es"
  by (induction t) auto

section \<open>Bits of bases\<close>

lemma masked_bits: "n \<le> 32 \<Longrightarrow> a AND PREFIX_MASK n = b AND PREFIX_MASK n \<longleftrightarrow> (\<forall>i<n. bitpos a i = bitpos b i)"
  by (simp add: masked_eq_iff prefix_bits_eq_iff)

lemma bitpos_masked: "n \<le> 32 \<Longrightarrow> i < 32 \<Longrightarrow> bitpos (a AND PREFIX_MASK n) i \<longleftrightarrow> i < n \<and> bitpos a i"
  by (auto simp: bit_and_iff bit_PREFIX_MASK)

text \<open>A base has no bits beyond the length of its route.\<close>

lemma wf_route_bit: "wf_route r \<Longrightarrow> i < 32 \<Longrightarrow> bitpos (base r) i \<Longrightarrow> i < plen r"
  using bitpos_masked [of "plen r" i "base r"] by (simp add: wf_route_def)

lemma covers_bit: "plen r \<le> 32 \<Longrightarrow> covers r addr \<Longrightarrow> i < plen r \<Longrightarrow> bitpos (base r) i = bitpos addr i"
  by (simp add: covers_def masked_bits)

lemma addr_eqI: "(\<And>i. i < 32 \<Longrightarrow> bitpos a i = bitpos b i) \<Longrightarrow> a = b"
proof (rule bit_word_eqI)
  fix n assume eq: "\<And>i. i < 32 \<Longrightarrow> bitpos a i = bitpos b i" and "n < LENGTH(32)"
  then have "31 - n < 32" "31 - (31 - n) = n" by auto
  with eq show "bit a n = bit b n" by metis
qed

lemma mask_idem: "c AND PREFIX_MASK s = b \<Longrightarrow> b AND PREFIX_MASK s = b"
  by (metis and.assoc and.idem)

lemma leaves_inj:
  "tinv t \<Longrightarrow> (q, b, es) \<in> leaves t \<Longrightarrow> (q', b, es') \<in> leaves t \<Longrightarrow> q = q' \<and> es = es'"
  by (induction t) (auto dest: branchD)

text \<open>Split positions increase on the way down.\<close>

lemma split_below:
  assumes "tinv (PN p b s lf l r)" "PN p' b' s' lf' l' r' \<in> {l, r}"
  shows "s < s'"
proof (rule ccontr)
  assume "\<not> s < s'"
  let ?c = "PN p' b' s' lf' l' r'"
  obtain q1 c1 es1 q2 c2 es2 where lv: "(q1, c1, es1) \<in> leaves l'" "(q2, c2, es2) \<in> leaves r'"
    using leaves_nonempty by (metis ex_in_conv prod_cases3)
  have s: "s < 32" and c: "tinv ?c" using assms by auto
  have bits: "\<not> bitpos c1 s'" "bitpos c2 s'" using c lv by (auto dest: branchD)
  have "branch b s (?c = r) ?c \<or> branch b s False ?c" using assms by auto
  then have "c1 AND PREFIX_MASK s = b" "c2 AND PREFIX_MASK s = b" "bitpos c1 s = bitpos c2 s"
    using lv by (auto dest: branchD)
  then have "bitpos c1 i = bitpos c2 i" if "i < Suc s" for i
    using that s masked_bits [of s c1 c2] by (auto simp: less_Suc_eq)
  then show False using bits \<open>\<not> s < s'\<close> by (metis not_less_eq)
qed

section \<open>Lookup\<close>

fun tlook :: "u32 \<Rightarrow> ptree \<Rightarrow> route option" where
  "tlook addr (PL p b es) = leaf_match addr b es"
| "tlook addr (PN p b s lf l r) =
     (case tlook addr (if bitpos addr s then r else l) of
        Some e \<Rightarrow> Some e
      | None \<Rightarrow> Option.bind lf (\<lambda>q. Option.bind (es_at l q) (\<lambda>(c, es). leaf_match addr c es)))"

lemma leaf_match_Some:
  assumes "leaf_match addr b es = Some e" "wf_leaf b es"
  shows "e \<in> set es \<and> covers e addr \<and> (\<forall>e' \<in> set es. covers e' addr \<longrightarrow> plen e' \<le> plen e)"
proof -
  obtain i where i: "i < length es" "e = es ! i" "addr AND PREFIX_MASK (plen e) = b"
    "\<And>j. j < i \<Longrightarrow> addr AND PREFIX_MASK (plen (es ! j)) \<noteq> b"
    using assms(1) by (auto simp: leaf_match_def find_Some_iff plen_def)
  have wf: "base e' = b" "base e' AND PREFIX_MASK (plen e') = base e'" if "e' \<in> set es" for e'
    using that assms(2) by (auto simp: wf_leaf_def wf_route_def)
  have cov: "covers e' addr \<longleftrightarrow> addr AND PREFIX_MASK (plen e') = b" if "e' \<in> set es" for e'
    using wf [OF that] by (auto simp: covers_def)
  have "plen e' \<le> plen e" if e': "e' \<in> set es" "covers e' addr" for e'
  proof -
    obtain j where j: "j < length es" "e' = es ! j" using e'(1) by (auto simp: in_set_conv_nth)
    then have "\<not> j < i" using i(4) cov [OF e'(1)] e'(2) by auto
    then show ?thesis using assms(2) i(1,2) j by (cases "i = j") (auto simp: wf_leaf_def sorted_wrt_iff_nth_less)
  qed
  then show ?thesis using i(1-3) cov by (metis nth_mem)
qed

lemma leaf_match_None:
  assumes "leaf_match addr b es = None" "wf_leaf b es" "e \<in> set es"
  shows "\<not> covers e addr"
proof -
  have "addr AND PREFIX_MASK (plen e) \<noteq> b" using assms(1,3) by (auto simp: leaf_match_def find_None_iff plen_def)
  moreover have "base e AND PREFIX_MASK (plen e) = b" using assms(2,3) by (auto simp: wf_leaf_def wf_route_def)
  ultimately show ?thesis by (simp add: covers_def)
qed

text \<open>
  Of two routes that cover an address, the one whose base has a bit the other lacks is longer.
\<close>

lemma longer_route:
  assumes "wf_route e" "wf_route e'" "covers e addr" "covers e' addr"
    and "i < 32" "bitpos (base e) i" "\<not> bitpos (base e') i"
  shows "plen e' < plen e"
proof -
  have i: "i < plen e" using wf_route_bit assms(1,5,6) by blast
  have "\<not> i < plen e'"
    using covers_bit [of e addr i] covers_bit [of e' addr i] assms i by (auto simp: wf_route_def)
  with i show ?thesis by simp
qed

text \<open>What is found is a route of the tree, and longer than what the leaf of a node above could offer.\<close>

lemma tlook_sound:
  "tinv t \<Longrightarrow> distinct (leaf_ptrs t) \<Longrightarrow> tlook addr t = Some e \<Longrightarrow>
     \<exists>q b es. (q, b, es) \<in> leaves t \<and> e \<in> set es \<and> covers e addr \<and> (\<forall>e' \<in> set es. covers e' addr \<longrightarrow> plen e' \<le> plen e)"
proof (induction t)
  case (PL p b es)
  then show ?case using leaf_match_Some [of addr b es e] by auto
next
  case (PN p b s lf l r)
  let ?c = "if bitpos addr s then r else l"
  show ?case
  proof (cases "tlook addr ?c")
    case None
    then obtain q c es where q: "es_at l q = Some (c, es)" "leaf_match addr c es = Some e"
      using PN.prems(3) by (auto simp: bind_eq_Some_conv split: if_splits)
    then have "(q, c, es) \<in> leaves l" using es_at_leaves [of l q c es] PN.prems(2) by simp
    moreover from this have "wf_leaf c es" using tinv_leaf PN.prems(1) by auto
    ultimately show ?thesis using leaf_match_Some [OF q(2)] by auto
  next
    case (Some e1)
    then have "tlook addr ?c = Some e" using PN.prems(3) by simp
    moreover have "tinv ?c" "distinct (leaf_ptrs ?c)" "leaves ?c \<subseteq> leaves (PN p b s lf l r)" using PN.prems(1,2) by auto
    ultimately show ?thesis using PN.IH by (cases "bitpos addr s") (simp, blast)+
  qed
qed

text \<open>A base that extends a prefix and differs from it has a bit beyond it.\<close>

lemma extends_prefix:
  assumes "s < 32" "c AND PREFIX_MASK s = b" "b AND PREFIX_MASK s = b" "c \<noteq> b"
  shows "\<exists>i<32. bitpos c i \<and> \<not> bitpos b i"
proof (rule ccontr)
  assume none: "\<not> ?thesis"
  have "bitpos c i = bitpos b i" if i: "i < 32" for i
  proof (cases "i < s")
    case True
    then show ?thesis using assms(1-3) masked_bits [of s c b] by simp
  next
    case False
    then have "\<not> bitpos b i" using assms(1,3) bitpos_masked [of s i b] i by auto
    with none i show ?thesis by blast
  qed
  then show False using addr_eqI assms(4) by blast
qed

text \<open>The leaf of an inner node is below its left child.\<close>

lemma own_leaf:
  assumes "tinv (PN p b' s (Some q) l r)" "distinct (leaf_ptrs (PN p b' s (Some q) l r))" "(q, b, es) \<in> leaves (PN p b' s (Some q) l r)"
  shows "(q, b, es) \<in> leaves l" "b = b'"
proof -
  obtain es' where es': "(q, b', es') \<in> leaves l" using assms(1) by auto
  show l: "(q, b, es) \<in> leaves l"
  proof (rule ccontr)
    assume "(q, b, es) \<notin> leaves l"
    then have "q \<in> fst ` leaves r" using assms(3) by force
    then show False using es' assms(2) leaf_ptrs_leaves [of l] leaf_ptrs_leaves [of r] by (auto, force)
  qed
  have "distinct (leaf_ptrs l)" using assms(2) by simp
  then show "b = b'" using es_at_leaves [of l q] es' l by (metis option.inject prod.inject)
qed

text \<open>What an inner node finds is at least as long as what its own leaf offers.\<close>

lemma tlook_own:
  assumes "tinv (PN p b' s (Some q) l r)" "distinct (leaf_ptrs (PN p b' s (Some q) l r))" "(q, b, es) \<in> leaves (PN p b' s (Some q) l r)"
    and "e \<in> set es" "covers e addr"
  shows "\<exists>e'. tlook addr (PN p b' s (Some q) l r) = Some e' \<and> plen e \<le> plen e'"
proof -
  let ?t = "PN p b' s (Some q) l r" and ?c = "if bitpos addr s then r else l"
  note own = own_leaf [OF assms(1-3)]
  have wf: "wf_leaf b es" "wf_route e" "base e = b" using tinv_leaf [OF assms(1,3)] assms(4) by (auto simp: wf_leaf_def)
  have at: "es_at l q = Some (b, es)" using es_at_leaves [of l q] own(1) assms(2) by simp
  show ?thesis
  proof (cases "tlook addr ?c")
    case None
    have "leaf_match addr b es \<noteq> None" using leaf_match_None [OF _ wf(1) assms(4)] assms(5) by blast
    then obtain e' where e': "leaf_match addr b es = Some e'" by blast
    then have "tlook addr ?t = Some e'" using None at by (simp split: if_splits)
    then show ?thesis using leaf_match_Some [OF e' wf(1)] assms(4,5) by auto
  next
    case (Some e')
    obtain q1 c1 es1 where l1: "(q1, c1, es1) \<in> leaves ?c" "e' \<in> set es1" "covers e' addr" "\<forall>x \<in> set es1. covers x addr \<longrightarrow> plen x \<le> plen e'"
      using tlook_sound [OF _ _ Some] assms(1,2) by (cases "bitpos addr s") auto
    have in_t: "(q1, c1, es1) \<in> leaves ?t" using l1(1) by (auto split: if_splits)
    have wf1: "wf_route e'" "base e' = c1" using tinv_leaf [OF assms(1) in_t] l1(2) by (auto simp: wf_leaf_def)
    have "plen e \<le> plen e'"
    proof (cases "c1 = b")
      case True
      then have "es1 = es" using leaves_inj [OF assms(1)] in_t assms(3) by blast
      then show ?thesis using l1(4) assms(4,5) by blast
    next
      case False
      have "c1 AND PREFIX_MASK s = b" "b AND PREFIX_MASK s = b" "s < 32" using assms(1) in_t own by (auto dest: branchD)
      then have "\<exists>i<32. bitpos c1 i \<and> \<not> bitpos b i" using extends_prefix False by blast
      then show ?thesis using longer_route [of e' e addr] wf wf1 l1(3) assms(5) by (auto simp: less_imp_le)
    qed
    with Some show ?thesis by auto
  qed
qed

lemma tlook_best:
  "tinv t \<Longrightarrow> distinct (leaf_ptrs t) \<Longrightarrow> covered A t \<Longrightarrow> (q, b, es) \<in> leaves t \<Longrightarrow> e \<in> set es \<Longrightarrow> covers e addr \<Longrightarrow>
     q \<in> A \<or> (\<exists>e'. tlook addr t = Some e' \<and> plen e \<le> plen e')"
proof (induction t arbitrary: A)
  case (PL p b' es')
  then show ?case
    using leaf_match_Some [of addr b' es'] leaf_match_None [of addr b' es' e] by (cases "leaf_match addr b' es'") auto
next
  case (PN p b' s lf l r)
  let ?c = "if bitpos addr s then r else l"
  have s: "s < 32" and inv: "tinv l" "tinv r" and dist: "distinct (leaf_ptrs l)" "distinct (leaf_ptrs r)"
    using PN.prems(1,2) by auto
  have wf: "wf_route e" "base e = b" using tinv_leaf [OF PN.prems(1,4)] PN.prems(5) by (auto simp: wf_leaf_def)
  have up: ?case if "q \<in> A \<union> set_option lf"
    using that tlook_own [of p b' s q l r b es e addr] PN.prems(1,2,4-6) by (cases "q \<in> A") auto
  show ?case
  proof (cases "(q, b, es) \<in> leaves ?c")
    case True
    then have "q \<in> A \<union> set_option lf \<or> (\<exists>e'. tlook addr ?c = Some e' \<and> plen e \<le> plen e')"
      using PN.IH(1) [OF inv(1) dist(1), of "A \<union> set_option lf"] PN.IH(2) [OF inv(2) dist(2), of "A \<union> set_option lf"]
        PN.prems(3,5,6) by (cases "bitpos addr s") auto
    then show ?thesis using up by auto
  next
    case False
    have "bitpos b s \<noteq> bitpos addr s" using False PN.prems(1,4) by (auto dest: branchD split: if_splits)
    then have "\<not> s < plen e" using covers_bit [of e addr s] PN.prems(6) wf by (auto simp: wf_route_def)
    then have "plen e \<le> s" by simp
    moreover have "\<not> bitpos b s" using wf_route_bit [OF wf(1) s] wf(2) \<open>\<not> s < plen e\<close> by blast
    then have "(q, b, es) \<in> leaves l" using PN.prems(1,4) by (auto dest: branchD)
    ultimately have "q \<in> A \<union> set_option lf" using PN.prems(3,5) by (auto simp: general_def)
    then show ?thesis by (rule up)
  qed
qed

end
