(* ===== verification/PCInsert.thy ===== *)
theory PCInsert
  imports PCTree
begin

text \<open>
  Insertion into the path-compressed trie, on trees: the node at which the descent stops is put below a new inner node, together with a
  new leaf. The invariant is kept when the routes are inserted in the order of their lengths.
\<close>

section \<open>Definitions\<close>

definition tdiff :: "ptree \<Rightarrow> u32 \<Rightarrow> u32" where
  "tdiff t b = (case t of PL _ c _ \<Rightarrow> c XOR b | PN _ c s _ _ _ \<Rightarrow> c XOR (b AND PREFIX_MASK s))"

fun tpull :: "nat \<Rightarrow> u32 \<Rightarrow> ptree \<Rightarrow> nptr option \<times> ptree" where
  "tpull pos nb (PL p b es) = (if nb = b AND PREFIX_MASK pos \<and> general pos es then Some p else None, PL p b es)"
| "tpull pos nb (PN p b s lf l r) =
     (case Option.bind lf (es_at l) of
        None \<Rightarrow> (None, PN p b s lf l r)
      | Some (c, es) \<Rightarrow> if general pos es then (lf, PN p b s None l r) else (None, PN p b s lf l r))"

definition tsplit :: "nptr \<Rightarrow> nptr \<Rightarrow> route \<Rightarrow> ptree \<Rightarrow> ptree" where
  "tsplit i j x t =
     (let pos = nat (mostSigOne (tdiff t (base x))); nb = base x AND PREFIX_MASK pos in
      if bitpos (base x) pos then PN i nb pos (fst (tpull pos nb t)) (snd (tpull pos nb t)) (PL j (base x) [x])
      else PN i nb pos (if general pos [x] then Some j else None) (PL j (base x) [x]) t)"

fun tins :: "nptr \<Rightarrow> nptr \<Rightarrow> route \<Rightarrow> ptree \<Rightarrow> ptree" where
  "tins i j x (PL p b es) = (if b = base x then PL p b (pushRoute x es) else tsplit i j x (PL p b es))"
| "tins i j x (PN p b s lf l r) =
     (if b \<noteq> base x AND PREFIX_MASK s then tsplit i j x (PN p b s lf l r)
      else if bitpos (base x) s then PN p b s lf l (tins i j x r)
      else PN p b s lf (tins i j x l) r)"

section \<open>The split position\<close>

lemma mostSigOne_pos:
  assumes "num \<noteq> 0"
  obtains pos where "pos < 32" "mostSigOne num = int pos" "bitpos num pos" "\<And>i. i < pos \<Longrightarrow> \<not> bitpos num i"
proof -
  have ex: "\<exists>i. i < 32 \<and> bitpos num i" using assms addr_eqI [of num 0] by auto
  define pos where "pos = (LEAST i. i < 32 \<and> bitpos num i)"
  have p: "pos < 32" "bitpos num pos" using LeastI_ex [OF ex] unfolding pos_def by auto
  have low: "\<not> bitpos num i" if "i < pos" for i
    using not_less_Least [of i "\<lambda>i. i < 32 \<and> bitpos num i"] that p(1) unfolding pos_def by linarith
  have "\<not> bit num k" if "31 - pos < k" "k \<le> 31" for k
    using low [of "31 - k"] that by auto
  then have "mostSigOne num = int pos"
    using mostSigOne_from_Some [of 31 num "31 - pos"] p by (simp add: mostSigOne_def)
  with that p low show thesis by blast
qed

lemma bitpos_xor: "bitpos (a XOR b) i \<longleftrightarrow> bitpos a i \<noteq> bitpos b i"
  by (simp add: bit_xor_iff)

lemma xor_eq_0: "(a XOR b = 0) \<longleftrightarrow> a = (b :: u32)"
proof
  assume "a XOR b = 0"
  then have "bitpos (a XOR b) i = False" for i by simp
  then show "a = b" by (intro addr_eqI) (simp add: bitpos_xor)
qed simp

lemma node_base:
  assumes "tinv (PN p b s lf l r)"
  shows "b AND PREFIX_MASK s = b"
proof -
  obtain q c es where "(q, c, es) \<in> leaves l" using leaves_nonempty [of l] by fastforce
  then have "c AND PREFIX_MASK s = b" using assms by (auto dest: branchD)
  then show ?thesis by (rule mask_idem)
qed

definition above :: "nat \<Rightarrow> ptree \<Rightarrow> bool" where
  "above pos t \<longleftrightarrow> (case t of PN _ _ s _ _ _ \<Rightarrow> pos < s | PL _ _ _ \<Rightarrow> True)"

text \<open>Where the descent stops, the new route branches off from all the leaves below.\<close>

lemma split_pos:
  assumes "tinv t" "tdiff t a \<noteq> 0"
  obtains pos where "pos < 32" "mostSigOne (tdiff t a) = int pos" "branch (a AND PREFIX_MASK pos) pos (\<not> bitpos a pos) t"
    "above pos t"
proof -
  obtain pos where p: "pos < 32" "mostSigOne (tdiff t a) = int pos" "bitpos (tdiff t a) pos" "\<And>i. i < pos \<Longrightarrow> \<not> bitpos (tdiff t a) i"
    using mostSigOne_pos [OF assms(2)] by blast
  show thesis
  proof (cases t)
    case (PL q c es)
    then have "bitpos c pos = (\<not> bitpos a pos)" "\<And>i. i < pos \<Longrightarrow> bitpos c i = bitpos a i"
      using p(3,4) by (auto simp: tdiff_def bitpos_xor)
    then have "branch (a AND PREFIX_MASK pos) pos (\<not> bitpos a pos) t"
      using p(1) masked_bits [of pos c a] by (simp add: PL)
    with that p show ?thesis by (simp add: PL above_def)
  next
    case (PN q b s lf l r)
    have s: "s < 32" and b: "b AND PREFIX_MASK s = b" using assms(1) node_base PN by auto
    have diff: "bitpos (tdiff t a) i \<longleftrightarrow> i < s \<and> bitpos b i \<noteq> bitpos a i" if "i < 32" for i
      using bitpos_masked [of s i a] bitpos_masked [of s i b] s b that by (auto simp: tdiff_def PN bitpos_xor)
    have ps: "pos < s" "bitpos b pos \<noteq> bitpos a pos" using diff p(1,3) by auto
    have low: "bitpos b i = bitpos a i" if "i < pos" for i using diff [of i] p(4) [OF that] that ps p(1) by auto
    have "c AND PREFIX_MASK pos = a AND PREFIX_MASK pos \<and> bitpos c pos = (\<not> bitpos a pos)" if "(w, c, es) \<in> leaves t" for w c es
    proof -
      have "c AND PREFIX_MASK s = b AND PREFIX_MASK s" using that assms(1) b by (auto simp: PN dest: branchD)
      then have eq: "bitpos c i = bitpos b i" if "i < s" for i using that s masked_bits [of s c b] by simp
      then show ?thesis using low ps masked_bits [of pos c a] p(1) by auto
    qed
    then have "branch (a AND PREFIX_MASK pos) pos (\<not> bitpos a pos) t" unfolding branch_def by blast
    with that p ps(1) show ?thesis by (simp add: PN above_def)
  qed
qed

section \<open>Leaves\<close>

lemma wf_push:
  assumes "wf_leaf b es" "base x = b" "wf_route x"
  shows "wf_leaf b (pushRoute x es)"
proof -
  let ?k = "\<lambda>r. - int (plen r)"
  have "sorted (map ?k (pushRoute x es))"
    unfolding pushRoute_def
    by (rule sorted_std_sort) (simp only: leafEntry_less_def plen_def word_less_nat_alt neg_less_iff_less of_nat_less_iff)
  then have "sorted_wrt (\<lambda>a e. plen e \<le> plen a) (pushRoute x es)"
    by (simp add: sorted_map)
  moreover have "pushRoute x es \<noteq> []" using length_std_sort [of leafEntry_less "es @ [x]"] unfolding pushRoute_def by (metis append_is_Nil_conv length_0_conv not_Cons_self2)
  ultimately show ?thesis using assms by (auto simp: wf_leaf_def pushRoute_def)
qed

lemma set_push [simp]: "set (pushRoute x es) = insert x (set es)"
  by (simp add: pushRoute_def)

lemma leaves_pull [simp]: "leaves (snd (tpull pos nb t)) = leaves t"
  by (cases t) (auto split: option.splits)

lemma leaves_split: "leaves (tsplit i j x t) = insert (j, base x, [x]) (leaves t)"
  by (auto simp: tsplit_def Let_def)

lemma leaf_after:
  "(q, c, es') \<in> leaves (tins i j x t) \<Longrightarrow>
     (q, c, es') \<in> leaves t \<or> c = base x \<and> (q = j \<and> es' = [x] \<or> (\<exists>es. (q, c, es) \<in> leaves t \<and> es' = pushRoute x es))"
  by (induction t) (auto simp: leaves_split split: if_splits)

lemma leaf_kept:
  "(q, c, es) \<in> leaves t \<Longrightarrow> (q, c, es) \<in> leaves (tins i j x t) \<or> c = base x \<and> (q, c, pushRoute x es) \<in> leaves (tins i j x t)"
  by (induction t) (auto simp: leaves_split)

lemma leaf_new: "\<exists>q es. (q, base x, es) \<in> leaves (tins i j x t) \<and> x \<in> set es"
proof (induction t)
  case (PL p b es)
  then show ?case by (cases "b = base x") (auto simp: leaves_split)
next
  case (PN p b s lf l r)
  show ?case
  proof (cases "b = base x AND PREFIX_MASK s")
    case True
    then show ?thesis using PN.IH by (cases "bitpos (base x) s") auto
  next
    case False
    then have "(j, base x, [x]) \<in> leaves (tins i j x (PN p b s lf l r))" by (simp add: leaves_split)
    then show ?thesis by fastforce
  qed
qed

lemma tree_routes_ins: "tree_routes (tins i j x t) = insert x (tree_routes t)"
proof -
  have iff: "y \<in> tree_routes u \<longleftrightarrow> (\<exists>q c es. (q, c, es) \<in> leaves u \<and> y \<in> set es)" for y u
    by (auto simp: tree_routes_def)
  show ?thesis
  proof (intro set_eqI iffI)
    fix y assume "y \<in> tree_routes (tins i j x t)"
    then show "y \<in> insert x (tree_routes t)" unfolding iff insert_iff using leaf_after [of _ _ _ i j x t] by fastforce
  next
    fix y assume "y \<in> insert x (tree_routes t)"
    then show "y \<in> tree_routes (tins i j x t)"
      using leaf_new [of x i j t] leaf_kept [of _ _ _ t i j x] unfolding iff insert_iff by (metis insertI2 set_push)
  qed
qed

section \<open>The invariant is kept\<close>

lemma mask_general: "wf_route e \<Longrightarrow> plen e \<le> s \<Longrightarrow> s \<le> 32 \<Longrightarrow> base e AND PREFIX_MASK s = base e"
proof (rule addr_eqI)
  fix i :: nat assume "wf_route e" "plen e \<le> s" "s \<le> 32" "i < 32"
  then show "bitpos (base e AND PREFIX_MASK s) i = bitpos (base e) i"
    using wf_route_bit [of e i] bitpos_masked [of s i "base e"] by auto
qed

lemma wf_leaf_general: "wf_leaf b es \<Longrightarrow> general s es \<Longrightarrow> s \<le> 32 \<Longrightarrow> b AND PREFIX_MASK s = b"
  using mask_general unfolding wf_leaf_def general_def by metis

lemma tinv_pull: "tinv t \<Longrightarrow> tinv (snd (tpull pos nb t))"
  by (cases t) (auto split: option.splits)

text \<open>The leaf that is passed up has the base of the new node.\<close>

lemma pull_leaf:
  assumes "tinv t" "distinct (leaf_ptrs t)" "branch nb pos v t" "pos < 32" "fst (tpull pos nb t) = Some q"
  shows "\<exists>es. (q, nb, es) \<in> leaves t"
proof (cases t)
  case (PL p b es)
  then have "general pos es" "q = p" "nb = b AND PREFIX_MASK pos" using assms(5) by (auto split: if_splits)
  then show ?thesis using wf_leaf_general [of b es pos] assms(1,4) PL by auto
next
  case (PN p b s lf l r)
  obtain c es where q: "lf = Some q" "es_at l q = Some (c, es)" "general pos es"
    using assms(5) by (auto simp: PN bind_eq_Some_conv split: option.splits if_splits)
  then have lv: "(q, c, es) \<in> leaves l" using es_at_leaves [of l] assms(2) PN by simp
  then have "c AND PREFIX_MASK pos = c" using wf_leaf_general [of c es pos] tinv_leaf [of l q c es] assms(1,4) q(3) PN by auto
  moreover have "c AND PREFIX_MASK pos = nb" using assms(3) lv PN by (auto dest: branchD)
  ultimately show ?thesis using lv PN by auto
qed

lemma tinv_split:
  assumes "tinv t" "distinct (leaf_ptrs t)" "tdiff t (base x) \<noteq> 0" "wf_route x"
  shows "tinv (tsplit i j x t)"
proof -
  obtain pos where p: "pos < 32" "mostSigOne (tdiff t (base x)) = int pos"
    "branch (base x AND PREFIX_MASK pos) pos (\<not> bitpos (base x) pos) t"
    using split_pos [OF assms(1,3)] by blast
  let ?nb = "base x AND PREFIX_MASK pos"
  have "branch ?nb pos (\<not> bitpos (base x) pos) (snd (tpull pos ?nb t))"
    using p(3) unfolding branch_def by simp
  moreover have "wf_leaf (base x) [x]" using assms(4) by (simp add: wf_leaf_def)
  moreover from this have "general pos [x] \<Longrightarrow> ?nb = base x" using wf_leaf_general [of "base x" "[x]" pos] p(1) by simp
  moreover have "\<exists>es. (q, ?nb, es) \<in> leaves t" if "fst (tpull pos ?nb t) = Some q" for q
    using pull_leaf [OF assms(1,2) p(3,1) that] .
  ultimately show ?thesis
    using assms(1) p tinv_pull [of t pos ?nb] by (auto simp: tsplit_def Let_def)
qed

lemma leaf_ptrs_pull [simp]: "leaf_ptrs (snd (tpull pos nb t)) = leaf_ptrs t"
  by (cases t) (auto split: option.splits)

lemma set_leaf_ptrs_ins: "set (leaf_ptrs (tins i j x t)) \<subseteq> insert j (set (leaf_ptrs t))"
proof
  fix q assume "q \<in> set (leaf_ptrs (tins i j x t))"
  then obtain c es where "(q, c, es) \<in> leaves (tins i j x t)" by (auto simp: leaf_ptrs_leaves)
  from leaf_after [OF this] show "q \<in> insert j (set (leaf_ptrs t))" by (force simp: leaf_ptrs_leaves)
qed

lemma distinct_ins: "distinct (leaf_ptrs t) \<Longrightarrow> j \<notin> set (leaf_ptrs t) \<Longrightarrow> distinct (leaf_ptrs (tins i j x t))"
proof (induction t)
  case (PL p b es)
  then show ?case by (auto simp: tsplit_def Let_def)
next
  case (PN p b s lf l r)
  then show ?case using set_leaf_ptrs_ins [of i j x l] set_leaf_ptrs_ins [of i j x r]
    by (auto simp: tsplit_def Let_def simp del: tpull.simps)
qed

lemma branch_ins:
  "branch b s v t \<Longrightarrow> base x AND PREFIX_MASK s = b \<Longrightarrow> bitpos (base x) s = v \<Longrightarrow> branch b s v (tins i j x t)"
  unfolding branch_def using leaf_after [of _ _ _ i j x t] by metis

lemma tdiff_nonzero: "tdiff (PL p b es) a \<noteq> 0 \<longleftrightarrow> b \<noteq> a" "tdiff (PN p b s lf l r) a \<noteq> 0 \<longleftrightarrow> b \<noteq> a AND PREFIX_MASK s"
  by (simp_all add: tdiff_def xor_eq_0)

lemma tinv_ins:
  "tinv t \<Longrightarrow> distinct (leaf_ptrs t) \<Longrightarrow> wf_route x \<Longrightarrow> tinv (tins i j x t)"
proof (induction t)
  case (PL p b es)
  then show ?case using wf_push [of b es x] tinv_split [of "PL p b es" x i j] tdiff_nonzero(1) by auto
next
  case (PN p b s lf l r)
  show ?case
  proof (cases "b = base x AND PREFIX_MASK s")
    case False
    then show ?thesis using tinv_split [OF PN.prems(1,2) _ PN.prems(3), of i j] tdiff_nonzero(2) by auto
  next
    case True
    have l: "\<exists>es. (q, b, es) \<in> leaves (tins i j x l)" if q: "lf = Some q" for q
    proof -
      obtain es where "(q, b, es) \<in> leaves l" using PN.prems(1) q unfolding tinv.simps by blast
      from leaf_kept [OF this, of i j x] show ?thesis by blast
    qed
    have inv: "s < 32" "tinv l" "tinv r" "branch b s False l" "branch b s True r" using PN.prems(1) by simp_all
    have dist: "distinct (leaf_ptrs l)" "distinct (leaf_ptrs r)" using PN.prems(2) by simp_all
    show ?thesis
    proof (cases "bitpos (base x) s")
      case bit: True
      have "tinv (tins i j x r)" by (rule PN.IH(2) [OF inv(3) dist(2) PN.prems(3)])
      moreover have "branch b s True (tins i j x r)" using branch_ins [OF inv(5)] True bit by simp
      ultimately show ?thesis using True bit PN.prems(1) by simp
    next
      case bit: False
      have "tinv (tins i j x l)" by (rule PN.IH(1) [OF inv(2) dist(1) PN.prems(3)])
      moreover have "branch b s False (tins i j x l)" using branch_ins [OF inv(4)] True bit by simp
      ultimately show ?thesis using True bit l inv by simp
    qed
  qed
qed

section \<open>Coverage is kept\<close>

lemma covered_mono: "covered A t \<Longrightarrow> A \<subseteq> B \<Longrightarrow> covered B t"
proof (induction t arbitrary: A B)
  case (PN p b s lf l r)
  have "A \<union> set_option lf \<subseteq> B \<union> set_option lf" using PN.prems(2) by blast
  then show ?case using PN.IH(1) [of "A \<union> set_option lf" "B \<union> set_option lf"] PN.IH(2) [of "A \<union> set_option lf" "B \<union> set_option lf"] PN.prems(1)
    unfolding covered.simps by blast
qed simp

lemma covered_pull:
  assumes "tinv t" "distinct (leaf_ptrs t)" "covered A t" "branch nb pos v t"
    and "above pos t"
  shows "\<And>q c es. (q, c, es) \<in> leaves t \<Longrightarrow> general pos es \<Longrightarrow> q \<in> A \<union> set_option (fst (tpull pos nb t))"
    and "covered (A \<union> set_option (fst (tpull pos nb t))) (snd (tpull pos nb t))"
proof -
  fix q c es assume lv: "(q, c, es) \<in> leaves t" and gen: "general pos es"
  have "c AND PREFIX_MASK pos = nb" using assms(4) lv by (auto dest: branchD)
  show "q \<in> A \<union> set_option (fst (tpull pos nb t))"
  proof (cases t)
    case (PL p b es')
    then show ?thesis using lv gen assms(4) by simp
  next
    case (PN p b s lf l r)
    have s: "pos < s" "s < 32" using assms(1,5) PN by (auto simp: above_def)
    obtain e where e: "e \<in> set es" "plen e \<le> pos" using gen by (auto simp: general_def)
    then have "wf_route e" "base e = c" using tinv_leaf [OF assms(1) lv] by (auto simp: wf_leaf_def)
    then have "\<not> bitpos c s" using wf_route_bit [of e s] e(2) s by auto
    then have l: "(q, c, es) \<in> leaves l" using lv assms(1) PN by (auto dest: branchD)
    moreover have "general s es" unfolding general_def using e s(1) by (intro bexI [of _ e]) auto
    ultimately have "q \<in> A \<union> set_option lf" using assms(3) PN by auto
    moreover have "es_at l q = Some (c, es)" using es_at_leaves [of l] l assms(2) PN by simp
    ultimately show ?thesis using gen PN by auto
  qed
next
  show "covered (A \<union> set_option (fst (tpull pos nb t))) (snd (tpull pos nb t))"
  proof (cases t)
    case (PN p b s lf l r)
    then show ?thesis using assms(3) by (auto split: option.splits simp: insert_absorb)
  qed simp
qed

lemma covered_split:
  assumes "tinv t" "distinct (leaf_ptrs t)" "covered A t" "tdiff t (base x) \<noteq> 0"
  shows "covered A (tsplit i j x t)"
proof -
  obtain pos where p: "pos < 32" "mostSigOne (tdiff t (base x)) = int pos"
    "branch (base x AND PREFIX_MASK pos) pos (\<not> bitpos (base x) pos) t" "above pos t"
    using split_pos [OF assms(1,4)] by blast
  note pull = covered_pull [OF assms(1-3) p(3,4)]
  show ?thesis using pull p(2) covered_mono [OF assms(3), of "insert j A"] assms(3)
    by (simp add: tsplit_def Let_def) blast
qed

text \<open>
  Some route on the right of a node is longer than its split position, so that a route that comes later is too and covers no inner
  node.
\<close>

lemma later_longer:
  assumes "tinv (PN p b s lf l r)" "\<And>y. y \<in> tree_routes r \<Longrightarrow> plen y \<le> plen x"
  shows "s < plen x"
proof -
  obtain q c es where lv: "(q, c, es) \<in> leaves r" using leaves_nonempty [of r] by fastforce
  then have wf: "wf_leaf c es" and bit: "bitpos c s" and s: "s < 32"
    using assms(1) tinv_leaf [of r q c es] by (auto dest: branchD)
  then obtain e where "e \<in> set es" by (cases es) (auto simp: wf_leaf_def)
  with wf have e: "e \<in> set es" "wf_route e" "base e = c" by (auto simp: wf_leaf_def)
  then have "s < plen e" using wf_route_bit [of e s] s bit by simp
  moreover have "e \<in> tree_routes r" using lv e(1) by (force simp: tree_routes_def)
  ultimately show ?thesis using assms(2) by (metis le_less_trans less_le_trans)
qed

lemma covered_ins:
  "tinv t \<Longrightarrow> distinct (leaf_ptrs t) \<Longrightarrow> covered A t \<Longrightarrow> (\<And>y. y \<in> tree_routes t \<Longrightarrow> plen y \<le> plen x) \<Longrightarrow> covered A (tins i j x t)"
proof (induction t arbitrary: A)
  case (PL p b es)
  then show ?case using covered_split [of "PL p b es" A x i j] tdiff_nonzero(1) by auto
next
  case (PN p b s lf l r)
  let ?A = "A \<union> set_option lf"
  have sub: "tree_routes l \<subseteq> tree_routes (PN p b s lf l r)" "tree_routes r \<subseteq> tree_routes (PN p b s lf l r)"
    by (auto simp: tree_routes_def)
  have len: "s < plen x" using later_longer [OF PN.prems(1), of x] PN.prems(4) sub by blast
  show ?case
  proof (cases "b = base x AND PREFIX_MASK s")
    case False
    then show ?thesis using covered_split [OF PN.prems(1-3), of x i j] tdiff_nonzero(2) by auto
  next
    case True
    have l: "q \<in> ?A" if q: "(q, c, es') \<in> leaves (tins i j x l)" "general s es'" for q c es'
    proof -
      have "\<exists>es. (q, c, es) \<in> leaves l \<and> general s es"
        using leaf_after [OF q(1)]
      proof (elim disjE conjE exE)
        fix es assume es: "(q, c, es) \<in> leaves l" "es' = pushRoute x es"
        then have "general s es" using q(2) len by (auto simp: general_def)
        with es(1) show ?thesis by blast
      qed (use q(2) len in \<open>auto simp: general_def\<close>)
      then show ?thesis using PN.prems(3) by auto
    qed
    have "covered ?A (tins i j x l)" "covered ?A (tins i j x r)"
      using PN.IH(1) [of ?A] PN.IH(2) [of ?A] PN.prems sub by auto
    then show ?thesis using True PN.prems(3) l by auto
  qed
qed

end
