(* ===== verification/PCRefine.thy ===== *)
theory PCRefine
  imports PCInsert
begin

text \<open>
  The heap of nodes represents a tree, and every operation of the class refines the operation on trees. This is where the parent
  pointers, the relinking in place and the sharing of leaves are accounted for.
\<close>

section \<open>Representation\<close>

fun nodes :: "ptree \<Rightarrow> nptr list" where
  "nodes (PL p b es) = [p]"
| "nodes (PN p b s lf l r) = p # nodes l @ nodes r"

fun rep :: "pc_heap \<Rightarrow> nptr option \<Rightarrow> ptree \<Rightarrow> bool" where
  "rep h par (PL p b es) \<longleftrightarrow> h p = LEAF par b es"
| "rep h par (PN p b s lf l r) \<longleftrightarrow> h p = INTERNAL par b (Some (ptr l)) (Some (ptr r)) lf (of_nat s) \<and>
     rep h (Some p) l \<and> rep h (Some p) r"

lemma rep_frame: "(\<And>p. p \<in> set (nodes t) \<Longrightarrow> h' p = h p) \<Longrightarrow> rep h' par t = rep h par t"
  by (induction t arbitrary: par) auto

lemma rep_upd [simp]: "p \<notin> set (nodes t) \<Longrightarrow> rep (h(p := v)) par t = rep h par t"
  by (rule rep_frame) auto

lemma ptr_nodes: "ptr t \<in> set (nodes t)"
  by (cases t) auto

lemma leaf_ptrs_nodes: "set (leaf_ptrs t) \<subseteq> set (nodes t)"
  by (induction t) auto

lemma distinct_leaf_ptrs: "distinct (nodes t) \<Longrightarrow> distinct (leaf_ptrs t)"
proof (induction t)
  case (PN p b s lf l r)
  then show ?case using leaf_ptrs_nodes [of l] leaf_ptrs_nodes [of r] by auto
qed simp

lemma rep_parent: "rep h par t \<Longrightarrow> n_parent (h (ptr t)) = par"
  by (cases t) auto

lemma rep_leaf: "rep h par t \<Longrightarrow> es_at t q = Some (c, es) \<Longrightarrow> n_base (h q) = c \<and> leaf_entries h q = es"
  by (induction t arbitrary: par) (auto simp: leaf_entries_def split: if_splits option.splits)

lemma unat_split: "s < 32 \<Longrightarrow> unat (of_nat s :: u8) = s"
  by (simp add: unat_of_nat take_bit_eq_mod)

lemma general_eq: "pos < 32 \<Longrightarrow> hasMoreGeneralRoute (ucast (of_nat pos :: u8)) es \<longleftrightarrow> general pos es"
proof -
  assume "pos < 32"
  then have "unat (ucast (of_nat pos :: u8) :: u32) = pos" by (simp add: unat_split unsigned_ucast_eq take_bit_nat_eq_self)
  then show ?thesis by (simp add: hasMoreGeneralRoute_def general_def list_ex_iff word_le_nat_alt plen_def)
qed

text \<open>The room for further split positions bounds the length of all paths.\<close>

definition room :: "ptree \<Rightarrow> nat" where
  "room t = (case t of PL _ _ _ \<Rightarrow> 0 | PN _ _ s _ _ _ \<Rightarrow> 32 - s)"

lemma room_child:
  assumes "tinv (PN p b s lf l r)"
  shows "room l < room (PN p b s lf l r)" "room r < room (PN p b s lf l r)"
proof -
  have s: "s < 32" using assms by simp
  have "room d < 32 - s" if d: "d \<in> {l, r}" for d
  proof (cases d)
    case (PN p' b' s' lf' l' r')
    have "s < s'" using split_below [OF assms, of p' b' s' lf' l' r'] d unfolding PN by blast
    then show ?thesis using s by (simp add: PN room_def)
  qed (use s in \<open>simp add: room_def\<close>)
  then show "room l < room (PN p b s lf l r)" "room r < room (PN p b s lf l r)" by (simp_all add: room_def)
qed

lemma room_le: "room t \<le> 32"
  by (cases t) (auto simp: room_def)

section \<open>The descent\<close>

definition stops :: "u32 \<Rightarrow> ptree \<Rightarrow> bool" where
  "stops b t \<longleftrightarrow> (case t of PL _ _ _ \<Rightarrow> True | PN _ c s _ _ _ \<Rightarrow> c \<noteq> b AND PREFIX_MASK s)"

fun tcur :: "u32 \<Rightarrow> ptree \<Rightarrow> ptree" where
  "tcur b (PL p c es) = PL p c es"
| "tcur b (PN p c s lf l r) =
     (if c \<noteq> b AND PREFIX_MASK s then PN p c s lf l r else tcur b (if bitpos b s then r else l))"

lemma extractBit_pos: "s < 32 \<Longrightarrow> extractBit ub b s \<noteq> 0 \<longleftrightarrow> bitpos b s"
  by (simp add: extractBit_bit)

lemma descend_eq:
  "rep h par t \<Longrightarrow> tinv t \<Longrightarrow> room t < fuel \<Longrightarrow> pc_descend fuel ub h b (ptr t) = Some (Inr (ptr (tcur b t)))"
proof (induction t arbitrary: par fuel)
  case (PL p c es)
  then show ?case by (cases fuel) auto
next
  case (PN p c s lf l r)
  then obtain f where f: "fuel = Suc f" by (cases fuel) auto
  have "s < 32" and "room l < f" "room r < f" using PN.prems(2,3) room_child [OF PN.prems(2)] f by auto
  then show ?case using PN by (auto simp: f xor_eq_0 unat_split extractBit_pos)
qed

lemma tcur_stops: "stops b t \<Longrightarrow> tcur b t = t"
  by (cases t) (auto simp: stops_def)

lemma tcur_inv: "tinv t \<Longrightarrow> tinv (tcur b t)"
  by (induction t) auto

lemma tcur_nodes: "set (nodes (tcur b t)) \<subseteq> set (nodes t)"
  by (induction t) auto

lemma tcur_distinct: "distinct (nodes t) \<Longrightarrow> distinct (nodes (tcur b t))"
  by (induction t) auto

lemma tcur_rep: "rep h par t \<Longrightarrow> \<exists>par'. rep h par' (tcur b t)"
  by (induction t arbitrary: par) auto

lemma tcur_diff: "tcur b t = PL p c es \<and> c \<noteq> b \<or> (\<exists>p c s lf l r. tcur b t = PN p c s lf l r) \<Longrightarrow> tdiff (tcur b t) b \<noteq> 0"
proof (induction t)
  case (PN p c s lf l r)
  then show ?case by (auto simp: tdiff_nonzero split: if_splits)
qed (auto simp: tdiff_nonzero)

text \<open>The parent of the node at which the descent stops.\<close>

lemma tcur_parent:
  "rep h par t \<Longrightarrow> \<not> stops b t \<Longrightarrow> distinct (nodes t) \<Longrightarrow>
     \<exists>p. n_parent (h (ptr (tcur b t))) = Some p \<and> p \<in> set (nodes t) \<and> p \<noteq> ptr (tcur b t)"
proof (induction t arbitrary: par)
  case (PN p c s lf l r)
  let ?d = "if bitpos b s then r else l"
  have d: "rep h (Some p) ?d" "tcur b (PN p c s lf l r) = tcur b ?d" "distinct (nodes ?d)" "p \<noteq> ptr ?d"
    using PN.prems ptr_nodes [of l] ptr_nodes [of r] by (auto simp: stops_def)
  show ?case
  proof (cases "stops b ?d")
    case True
    then show ?thesis using d rep_parent [OF d(1)] by (simp add: tcur_stops)
  next
    case False
    then show ?thesis using PN.IH d by (cases "bitpos b s") auto
  qed
qed (simp add: stops_def)

text \<open>The new split position is below that of the parent.\<close>

lemma tcur_split:
  "rep h par t \<Longrightarrow> tinv t \<Longrightarrow> \<not> stops b t \<Longrightarrow> tdiff (tcur b t) b \<noteq> 0 \<Longrightarrow>
     n_parent (h (ptr (tcur b t))) = Some q \<Longrightarrow> mostSigOne (tdiff (tcur b t) b) = int pos \<Longrightarrow>
     \<exists>s. n_splitPos (h q) = of_nat s \<and> s < 32 \<and> s < pos"
proof (induction t arbitrary: par)
  case (PN p c s lf l r)
  let ?d = "if bitpos b s then r else l"
  have d: "rep h (Some p) ?d" "tcur b (PN p c s lf l r) = tcur b ?d" "c = b AND PREFIX_MASK s" "tinv ?d" "branch c s (bitpos b s) ?d" "s < 32"
    using PN.prems(1-3) by (auto simp: stops_def)
  show ?case
  proof (cases "stops b ?d")
    case True
    then have q: "q = p" and diff: "tdiff ?d b \<noteq> 0" "mostSigOne (tdiff ?d b) = int pos"
      using PN.prems(4-6) d(2) rep_parent [OF d(1)] by (simp_all add: tcur_stops)
    obtain pos' where p: "pos' < 32" "mostSigOne (tdiff ?d b) = int pos'" "branch (b AND PREFIX_MASK pos') pos' (\<not> bitpos b pos') ?d"
      using split_pos [OF d(4) diff(1)] by blast
    obtain w e es where "(w, e, es) \<in> leaves ?d" using leaves_nonempty [of ?d] by fastforce
    note leaf = branchD [OF d(5) this] branchD [OF p(3) this]
    have "pos' = pos" using p(2) diff(2) by simp
    then have e: "bitpos e pos \<noteq> bitpos b pos" "bitpos e s = bitpos b s" "e AND PREFIX_MASK s = b AND PREFIX_MASK s"
      using leaf d(3) by simp_all
    then have "\<And>i. i < s \<Longrightarrow> bitpos e i = bitpos b i" using masked_bits [of s e b] d(6) by simp
    then have "s < pos" using e(1,2) by (metis linorder_neqE_nat)
    then show ?thesis using q d(6) PN.prems(1) by auto
  next
    case False
    show ?thesis
    proof (cases "bitpos b s")
      case True
      then show ?thesis using PN.IH(2) [of "Some p"] d PN.prems(4-6) False by simp
    next
      case bit: False
      then show ?thesis using PN.IH(1) [of "Some p"] d PN.prems(4-6) False by simp
    qed
  qed
qed (simp add: stops_def)

end
