(* ===== verification/PCSplit.thy ===== *)
theory PCSplit
  imports PCRefine
begin

text \<open>
  Insertion in the heap of nodes: the new inner node and the new leaf, the links of their neighbours, and what stays as it is.
\<close>

section \<open>The new nodes\<close>

lemma push_single: "pushRoute x [] = [x]"
proof -
  have "set (pushRoute x []) = {x}" "length (pushRoute x []) = 1" by (simp_all add: pushRoute_def)
  then show ?thesis by (cases "pushRoute x []") auto
qed

lemma set_parent_rep:
  "rep h par t \<Longrightarrow> distinct (nodes t) \<Longrightarrow> rep (h(ptr t := set_parent par' (h (ptr t)))) par' t"
  by (cases t) (auto simp: set_parent_def)

lemma ptr_pull [simp]: "ptr (snd (tpull pos nb t)) = ptr t"
  by (cases t) (auto split: option.splits)

lemma nodes_pull [simp]: "nodes (snd (tpull pos nb t)) = nodes t"
  by (cases t) (auto split: option.splits)

lemma pass_leaf_rep:
  assumes "rep h par t" "tinv t" "distinct (nodes t)" "pos < 32"
  obtains h' where "pass_leaf h nb (of_nat pos) (ptr t) = (fst (tpull pos nb t), h')"
    "rep h' par (snd (tpull pos nb t))" "\<And>q. q \<noteq> ptr t \<Longrightarrow> h' q = h q"
proof (cases t)
  case (PL p b es)
  with assms that [of h] show thesis by (simp add: pass_leaf_def general_eq unat_split)
next
  case (PN p b s lf l r)
  have hp: "h p = INTERNAL par b (Some (ptr l)) (Some (ptr r)) lf (of_nat s)" and l: "rep h (Some p) l" and r: "rep h (Some p) r"
    using assms(1) PN by auto
  show thesis
  proof (cases lf)
    case None
    with hp assms(1) that [of h] show thesis by (simp add: PN pass_leaf_def)
  next
    case (Some q)
    then obtain es where "(q, b, es) \<in> leaves l" using assms(2) PN by auto
    then have at: "es_at l q = Some (b, es)" using es_at_leaves [of l] distinct_leaf_ptrs [of l] assms(3) PN by simp
    then have es: "leaf_entries h q = es" using rep_leaf [OF l at] by simp
    let ?h = "h(p := INTERNAL par b (Some (ptr l)) (Some (ptr r)) None (of_nat s))"
    have "rep ?h (Some p) l" "rep ?h (Some p) r" using l r assms(3) PN by auto
    then show thesis
      using that [of "if general pos es then ?h else h"] hp es at Some assms(1,4)
      by (cases "general pos es") (simp_all add: PN pass_leaf_def general_eq)
  qed
qed

definition fresh_for :: "nptr \<Rightarrow> nptr \<Rightarrow> ptree \<Rightarrow> bool" where
  "fresh_for i j t \<longleftrightarrow> i \<noteq> j \<and> i \<notin> set (nodes t) \<and> j \<notin> set (nodes t)"

text \<open>The heap after a split, before the parent is linked to the new inner node.\<close>

lemma split_heap:
  assumes C: "rep (pc_nodes t) par C" "tinv C" "distinct (nodes C)"
    and fresh: "fresh_for (pc_fresh t) (Suc (pc_fresh t)) C"
    and diff: "tdiff C (base x) \<noteq> 0" "mostSigOne (tdiff C (base x)) = int pos"
  obtains H where "rep H par (tsplit (pc_fresh t) (Suc (pc_fresh t)) x C)"
    "\<And>q. q \<notin> {pc_fresh t, Suc (pc_fresh t), ptr C} \<Longrightarrow> H q = pc_nodes t q"
    "pc_split ub x (ptr C) t = (case par of
       None \<Rightarrow> Inr (t\<lparr>pc_fresh := Suc (Suc (pc_fresh t)), pc_nodes := H, pc_root := Some (pc_fresh t)\<rparr>)
     | Some p \<Rightarrow> if (of_nat pos :: u8) \<le> n_splitPos (H p) then Inl Abort
         else Inr (t\<lparr>pc_fresh := Suc (Suc (pc_fresh t)), pc_nodes := H(p := relink (ptr C) (pc_fresh t) (H p))\<rparr>))"
proof -
  let ?i = "pc_fresh t" and ?j = "Suc (pc_fresh t)" and ?c = "ptr C" and ?nb = "base x AND PREFIX_MASK pos"
  let ?h = "(pc_nodes t)(?j := LEAF (Some ?i) (base x) [x])"
  have pos: "pos < 32" using split_pos [OF C(2) diff(1)] diff(2) by auto
  then have pos': "\<not> 32 < pos" by simp
  have ne: "?i \<noteq> ?c" "?j \<noteq> ?c" "?i \<notin> set (nodes C)" "?j \<notin> set (nodes C)" using fresh ptr_nodes [of C] by (auto simp: fresh_for_def)
  have d: "pc_diff (pc_nodes t ?c) (base x) = tdiff C (base x)"
    using C(1,2) by (cases C) (auto simp: pc_diff_def tdiff_def unat_split)
  have par: "n_parent (pc_nodes t ?c) = par" using rep_parent [OF C(1)] .
  have rep': "rep ?h par C" using C(1) ne by auto
  show thesis
  proof (cases "bitpos (base x) pos")
    case True
    obtain h' where h': "pass_leaf ?h ?nb (of_nat pos) ?c = (fst (tpull pos ?nb C), h')"
      "rep h' par (snd (tpull pos ?nb C))" "\<And>q. q \<noteq> ?c \<Longrightarrow> h' q = ?h q"
      using pass_leaf_rep [OF rep' C(2,3) pos] by blast
    let ?k = "h'(?i := INTERNAL par ?nb (Some ?c) (Some ?j) (fst (tpull pos ?nb C)) (of_nat pos))"
    let ?H = "?k(?c := set_parent (Some ?i) (?k ?c))"
    have "rep ?k par (snd (tpull pos ?nb C))" using h'(2) ne by auto
    then have "rep ?H (Some ?i) (snd (tpull pos ?nb C))" using set_parent_rep [of ?k par "snd (tpull pos ?nb C)" "Some ?i"] C(3) by simp
    then have "rep ?H par (tsplit ?i ?j x C)" using True ne h'(3) diff(2) by (simp add: tsplit_def Let_def)
    moreover have "?H q = pc_nodes t q" if "q \<notin> {?i, ?j, ?c}" for q using that h'(3) by simp
    ultimately show thesis
      using True ne h'(1) by (cases par; intro that [of ?H]) (simp_all add: pc_split_def Let_def d diff(2) pos pos' extractBit_pos par push_single)
  next
    case False
    let ?lf = "if general pos [x] then Some ?j else None"
    let ?k = "?h(?i := INTERNAL par ?nb (Some ?j) (Some ?c) ?lf (of_nat pos))"
    let ?H = "?k(?c := set_parent (Some ?i) (?k ?c))"
    have pl: "pass_leaf ?h ?nb (of_nat pos) ?j = (?lf, ?h)" using pos by (simp add: pass_leaf_def general_eq unat_split)
    have "rep ?k par C" using rep' ne by auto
    then have "rep ?H (Some ?i) C" using set_parent_rep [OF _ C(3)] by blast
    then have "rep ?H par (tsplit ?i ?j x C)" using False ne diff(2) by (simp add: tsplit_def Let_def)
    moreover have "?H q = pc_nodes t q" if "q \<notin> {?i, ?j, ?c}" for q using that by simp
    ultimately show thesis
      using False ne pl by (cases par; intro that [of ?H]) (simp_all add: pc_split_def Let_def d diff(2) pos pos' extractBit_pos par push_single)
  qed
qed

section \<open>The whole tree\<close>

lemma nodes_split: "set (nodes (tsplit i j x t)) = {i, j} \<union> set (nodes t)"
  by (auto simp: tsplit_def Let_def)

lemma distinct_split: "distinct (nodes t) \<Longrightarrow> fresh_for i j t \<Longrightarrow> distinct (nodes (tsplit i j x t))"
  by (auto simp: tsplit_def Let_def fresh_for_def)

lemma ptr_split: "ptr (tsplit i j x t) = i"
  by (simp add: tsplit_def Let_def)

lemma ins_split: "stops (base x) t \<Longrightarrow> tdiff t (base x) \<noteq> 0 \<Longrightarrow> tins i j x t = tsplit i j x t"
  by (cases t) (auto simp: stops_def tdiff_nonzero)

lemma ptr_ins: "\<not> stops (base x) t \<Longrightarrow> ptr (tins i j x t) = ptr t"
  by (cases t) (auto simp: stops_def)

lemma fresh_for_child: "fresh_for i j (PN p b s lf l r) \<Longrightarrow> fresh_for i j l \<and> fresh_for i j r"
  by (auto simp: fresh_for_def)

lemma nodes_ins: "set (nodes (tins i j x t)) \<subseteq> {i, j} \<union> set (nodes t)"
  by (induction t) (auto simp: nodes_split)

lemma distinct_nodes_ins: "distinct (nodes t) \<Longrightarrow> fresh_for i j t \<Longrightarrow> distinct (nodes (tins i j x t))"
proof (induction t)
  case (PL p b es)
  then show ?case using distinct_split [of "PL p b es" i j x] by simp
next
  case (PN p b s lf l r)
  note sub = nodes_ins [of i j x l] nodes_ins [of i j x r]
  have kids: "fresh_for i j l" "fresh_for i j r" using fresh_for_child [OF PN.prems(2)] by auto
  consider "b \<noteq> base x AND PREFIX_MASK s" | "b = base x AND PREFIX_MASK s" "bitpos (base x) s"
    | "b = base x AND PREFIX_MASK s" "\<not> bitpos (base x) s" by blast
  then show ?case
  proof cases
    case 1
    then show ?thesis using distinct_split [OF PN.prems, of x] by simp
  next
    case 2
    have "distinct (nodes (tins i j x r))" using PN.IH(2) PN.prems(1) kids(2) by simp
    then show ?thesis using 2 sub(2) PN.prems by (auto simp: fresh_for_def)
  next
    case 3
    have "distinct (nodes (tins i j x l))" using PN.IH(1) PN.prems(1) kids(1) by simp
    then show ?thesis using 3 sub(1) PN.prems by (auto simp: fresh_for_def)
  qed
qed

text \<open>A route pushed into the leaf with its base.\<close>

lemma rep_ins_push:
  "rep h par t \<Longrightarrow> distinct (nodes t) \<Longrightarrow> tcur (base x) t = PL c (base x) es \<Longrightarrow>
     rep (h(c := LEAF (n_parent (h c)) (base x) (pushRoute x es))) par (tins i j x t)"
proof (induction t arbitrary: par)
  case (PN p b s lf l r)
  let ?d = "if bitpos (base x) s then r else l"
  have b: "b = base x AND PREFIX_MASK s" and d: "tcur (base x) ?d = PL c (base x) es" using PN.prems(3) by (auto split: if_splits)
  have c: "c \<in> set (nodes ?d)" using tcur_nodes [of "base x" ?d] d by auto
  have ptr: "ptr (tins i j x ?d) = ptr ?d" if "stops (base x) ?d" using d that by (simp add: tcur_stops)
  have ptr: "ptr (tins i j x ?d) = ptr ?d" using ptr ptr_ins [of x ?d i j] by blast
  let ?h = "h(c := LEAF (n_parent (h c)) (base x) (pushRoute x es))"
  have h: "?h p = h p" "rep ?h (Some p) (if bitpos (base x) s then l else r)"
  proof -
    have "c \<noteq> p" "c \<notin> set (nodes (if bitpos (base x) s then l else r))" using c PN.prems(2) by (auto split: if_splits)
    then show "?h p = h p" "rep ?h (Some p) (if bitpos (base x) s then l else r)" using PN.prems(1) by simp_all
  qed
  have "rep ?h (Some p) (tins i j x ?d)" using PN.IH [of "Some p"] PN.prems(1,2) d by (cases "bitpos (base x) s") (simp_all del: fun_upd_apply)
  with h ptr b PN.prems(1) show ?case by (cases "bitpos (base x) s") (simp_all del: fun_upd_apply)
qed auto

text \<open>The parent is linked to the new inner node, in place of the node the descent stopped at.\<close>

definition linked :: "nptr \<Rightarrow> nptr \<Rightarrow> nptr \<Rightarrow> pc_heap \<Rightarrow> pc_heap" where
  "linked c i p H = H(p := relink c i (H p))"

lemma linked_other: "q \<noteq> p \<Longrightarrow> linked c i p H q = H q"
  by (simp add: linked_def)

lemma rep_linked_other:
  assumes "rep h par t" "\<And>q. q \<in> set (nodes t) \<Longrightarrow> q \<notin> {i, j, c} \<and> q \<noteq> p" "\<And>q. q \<notin> {i, j, c} \<Longrightarrow> H q = h q"
  shows "rep (linked c i p H) par t"
proof -
  have "linked c i p H q = h q" if "q \<in> set (nodes t)" for q using assms(2) [OF that] assms(3) linked_other by metis
  then show ?thesis using assms(1) rep_frame [where t = t and h = h and h' = "linked c i p H" and par = par] by blast
qed

lemma rep_ins_link:
  "rep h par t \<Longrightarrow> distinct (nodes t) \<Longrightarrow> fresh_for i j t \<Longrightarrow> \<not> stops (base x) t \<Longrightarrow> tdiff (tcur (base x) t) (base x) \<noteq> 0 \<Longrightarrow>
     n_parent (h (ptr (tcur (base x) t))) = Some p \<Longrightarrow> rep H (Some p) (tsplit i j x (tcur (base x) t)) \<Longrightarrow>
     (\<And>q. q \<notin> {i, j, ptr (tcur (base x) t)} \<Longrightarrow> H q = h q) \<Longrightarrow>
     rep (linked (ptr (tcur (base x) t)) i p H) par (tins i j x t)"
proof (induction t arbitrary: par)
  case (PN p0 b s lf l r)
  let ?d = "if bitpos (base x) s then r else l" and ?o = "if bitpos (base x) s then l else r"
  let ?c = "ptr (tcur (base x) (PN p0 b s lf l r))"
  have b: "b = base x AND PREFIX_MASK s" using PN.prems(4) by (simp add: stops_def)
  then have cur: "tcur (base x) (PN p0 b s lf l r) = tcur (base x) ?d" by simp
  have d: "rep h (Some p0) ?d" and o: "rep h (Some p0) ?o"
    and h0: "h p0 = INTERNAL par b (Some (ptr l)) (Some (ptr r)) lf (of_nat s)" using PN.prems(1) by auto
  have c: "?c \<in> set (nodes ?d)" using cur ptr_nodes [of "tcur (base x) ?d"] tcur_nodes [of "base x" ?d] by auto
  have disj: "set (nodes ?d) \<inter> set (nodes ?o) = {}" "p0 \<notin> set (nodes ?d)" "p0 \<notin> set (nodes ?o)"
    "i \<notin> set (nodes ?o)" "j \<notin> set (nodes ?o)" "p0 \<noteq> i" "p0 \<noteq> j" "i \<noteq> j"
    using PN.prems(2,3) by (auto simp: fresh_for_def)
  have "p0 \<notin> {i, j, ?c}" using c disj(2,6,7) by (metis insertE singletonD)
  then have H0: "H p0 = h p0" by (rule PN.prems(8))
  have ptrs: "ptr l \<noteq> ptr r" using ptr_nodes [of l] ptr_nodes [of r] PN.prems(2) by auto
  show ?case
  proof (cases "stops (base x) ?d")
    case True
    have cd: "tcur (base x) (PN p0 b s lf l r) = ?d" using cur tcur_stops [OF True] by simp
    have p: "p = p0" using PN.prems(6) rep_parent [OF d] cd by simp
    have "tins i j x ?d = tsplit i j x ?d" using ins_split [OF True] PN.prems(5) cd by simp
    moreover have "rep (linked ?c i p H) (Some p0) (tsplit i j x ?d)"
      using PN.prems(7) cd p disj nodes_split [of i j x ?d] by (simp add: linked_def)
    moreover have "q \<notin> {i, j, ?c} \<and> q \<noteq> p" if q: "q \<in> set (nodes ?o)" for q using q disj c p by blast
    then have "rep (linked ?c i p H) (Some p0) ?o" by (rule rep_linked_other [OF o _ PN.prems(8)])
    moreover have "linked ?c i p H p0 = relink (ptr ?d) i (h p0)" using p cd H0 by (simp add: linked_def)
    ultimately show ?thesis using h0 b ptrs ptr_split [of i j x ?d] by (auto simp: relink_def)
  next
    case False
    have "distinct (nodes ?d)" using PN.prems(2) by simp
    then obtain p' where "n_parent (h (ptr (tcur (base x) ?d))) = Some p'" "p' \<in> set (nodes ?d)" using tcur_parent [OF d False] by blast
    then have p: "p \<in> set (nodes ?d)" using PN.prems(6) cur by simp
    have "q \<notin> {i, j, ?c} \<and> q \<noteq> p" if q: "q \<in> set (nodes ?o)" for q using q disj c p by blast
    then have other: "rep (linked ?c i p H) (Some p0) ?o" by (rule rep_linked_other [OF o _ PN.prems(8)])
    have "rep (linked ?c i p H) (Some p0) (tins i j x ?d)"
    proof (cases "bitpos (base x) s")
      case True
      then show ?thesis
        using PN.IH(2) [of "Some p0"] d PN.prems(2,5-8) fresh_for_child [OF PN.prems(3)] False cur by simp
    next
      case bit: False
      then show ?thesis
        using PN.IH(1) [of "Some p0"] d PN.prems(2,5-8) fresh_for_child [OF PN.prems(3)] False cur by simp
    qed
    moreover have "p0 \<noteq> p" using p disj(2) by metis
    then have "linked ?c i p H p0 = h p0" by (simp only: linked_other H0 not_False_eq_True)
    ultimately show ?thesis using h0 b other ptr_ins [OF False, of i j] by (cases "bitpos (base x) s") simp_all
  qed
qed (simp add: stops_def)

end
