(* ===== verification/PCCorrect.thy ===== *)
theory PCCorrect
  imports PCSplit BasicTrie
begin

text \<open>
  The class \<^verbatim>\<open>PCTrie\<close> as its clients see it: its constructor never aborts on a well-formed table, lookups return the longest covering prefix,
  the drawn trie is the trie, and it can take the place of \<^verbatim>\<open>BasicTrie\<close>.
\<close>

section \<open>Lookup\<close>

fun depth :: "u32 \<Rightarrow> ptree \<Rightarrow> nat" where
  "depth addr (PL p b es) = 0"
| "depth addr (PN p b s lf l r) = Suc (depth addr (if bitpos addr s then r else l))"

fun tleaf :: "u32 \<Rightarrow> ptree \<Rightarrow> ptree" where
  "tleaf addr (PL p b es) = PL p b es"
| "tleaf addr (PN p b s lf l r) = tleaf addr (if bitpos addr s then r else l)"

lemma depth_room: "tinv t \<Longrightarrow> depth addr t \<le> room t"
proof (induction t)
  case (PN p b s lf l r)
  then show ?case using room_child [OF PN.prems] by (cases "bitpos addr s") auto
qed simp

lemma down_eq:
  "rep h par t \<Longrightarrow> tinv t \<Longrightarrow> depth addr t < fuel \<Longrightarrow> pc_down fuel ub h addr (ptr t) = Some (Inr (ptr (tleaf addr t)))"
proof (induction t arbitrary: par fuel)
  case (PL p b es)
  then show ?case by (cases fuel) auto
next
  case (PN p b s lf l r)
  then obtain f where "fuel = Suc f" by (cases fuel) auto
  then show ?case using PN by (auto simp: unat_split extractBit_pos split: if_splits)
qed

text \<open>The way back up: what is not found below a node is looked for above it.\<close>

definition found_or :: "'a option \<Rightarrow> 'a option option \<Rightarrow> 'a option option" where
  "found_or a b = (case a of Some e \<Rightarrow> Some (Some e) | None \<Rightarrow> b)"

lemma found_or_assoc: "found_or (case a of Some e \<Rightarrow> Some e | None \<Rightarrow> b) c = found_or a (found_or b c)"
  by (simp add: found_or_def split: option.splits)

lemma up_eq:
  "rep h par t \<Longrightarrow> tinv t \<Longrightarrow> distinct (nodes t) \<Longrightarrow> q = ptr (tleaf addr t) \<Longrightarrow>
     found_or (leaf_match addr (n_base (h q)) (leaf_entries h q)) (pc_up (depth addr t + k) h addr (n_parent (h q))) =
     found_or (tlook addr t) (pc_up k h addr par)"
proof (induction t arbitrary: par k)
  case (PL p b es)
  then show ?case by (simp add: leaf_entries_def)
next
  case (PN p b s lf l r)
  let ?d = "if bitpos addr s then r else l" and ?t = "PN p b s lf l r"
  let ?own = "Option.bind lf (\<lambda>q. Option.bind (es_at l q) (\<lambda>(c, es). leaf_match addr c es))"
  have d: "rep h (Some p) ?d" "tinv ?d" "distinct (nodes ?d)" and hp: "h p = INTERNAL par b (Some (ptr l)) (Some (ptr r)) lf (of_nat s)"
    and l: "rep h (Some p) l" "distinct (leaf_ptrs l)"
    using PN.prems distinct_leaf_ptrs [of l] by auto
  have at: "\<exists>es. es_at l w = Some (b, es) \<and> n_base (h w) = b \<and> leaf_entries h w = es" if w: "lf = Some w" for w
  proof -
    obtain es where "(w, b, es) \<in> leaves l" using PN.prems(2) w by auto
    then have "es_at l w = Some (b, es)" using es_at_leaves [OF l(2)] by simp
    with rep_leaf [OF l(1) this] show ?thesis by blast
  qed
  have "pc_up (Suc k) h addr (Some p) = found_or ?own (pc_up k h addr par)"
    using hp at by (cases lf) (auto simp: Let_def found_or_def split: option.splits)
  moreover have "found_or (leaf_match addr (n_base (h q)) (leaf_entries h q)) (pc_up (depth addr ?d + Suc k) h addr (n_parent (h q))) =
     found_or (tlook addr ?d) (pc_up (Suc k) h addr (Some p))"
    using PN.IH [of "Some p" "Suc k"] d PN.prems(4) by (cases "bitpos addr s") (simp_all only: if_True if_False tleaf.simps)
  ultimately show ?case by (simp only: depth.simps tlook.simps found_or_assoc add_Suc add_Suc_right)
qed

section \<open>The state of the class\<close>

definition pc_rep :: "PCTrie \<Rightarrow> ptree \<Rightarrow> bool" where
  "pc_rep t T \<longleftrightarrow> pc_root t = Some (ptr T) \<and> rep (pc_nodes t) None T \<and> distinct (nodes T) \<and> (\<forall>p \<in> set (nodes T). p < pc_fresh t) \<and>
     tinv T \<and> covered {} T"

definition pc_ok :: "PCTrie \<Rightarrow> route set \<Rightarrow> bool" where
  "pc_ok t R \<longleftrightarrow> (if pc_root t = None then R = {} else \<exists>T. pc_rep t T \<and> tree_routes T = R)"

lemma pc_route_eq:
  assumes "pc_rep t T" "34 \<le> fuel"
  shows "pc_route fuel ub t addr = Some (Inr (tlook addr T))"
proof -
  have T: "pc_root t = Some (ptr T)" "rep (pc_nodes t) None T" "distinct (nodes T)" "tinv T" using assms(1) by (auto simp: pc_rep_def)
  have less: "depth addr T < fuel" using depth_room [OF T(4), of addr] room_le [of T] assms(2) by simp
  then obtain k where k: "fuel = depth addr T + Suc k" using less_imp_Suc_add by fastforce
  have down: "pc_down fuel ub (pc_nodes t) addr (ptr T) = Some (Inr (ptr (tleaf addr T)))" using down_eq [OF T(2,4) less] .
  let ?q = "ptr (tleaf addr T)" and ?h = "pc_nodes t"
  have "pc_up (Suc k) ?h addr None = Some None" by simp
  then have "found_or (leaf_match addr (n_base (?h ?q)) (leaf_entries ?h ?q)) (pc_up fuel ?h addr (n_parent (?h ?q))) =
     found_or (tlook addr T) (Some None)"
    unfolding k using up_eq [OF T(2,4,3) refl, of addr "Suc k"] by (simp only:)
  then show ?thesis using T(1) down by (auto simp: pc_route_def found_or_def split: option.splits)
qed

text \<open>The lookup gives a best route, or none if no route covers the address.\<close>

lemma pc_ok_route:
  assumes "pc_ok t R" "34 \<le> fuel"
  obtains res where "pc_route fuel ub t addr = Some (Inr res)"
    "res = None \<Longrightarrow> \<forall>r \<in> R. \<not> covers r addr" "\<And>e. res = Some e \<Longrightarrow> is_best R addr e"
proof (cases "pc_root t")
  case None
  with assms(1) that [of None] show thesis by (simp add: pc_ok_def pc_route_def)
next
  case (Some p)
  then obtain T where T: "pc_rep t T" "tree_routes T = R" using assms(1) by (auto simp: pc_ok_def)
  then have inv: "tinv T" "distinct (leaf_ptrs T)" "covered {} T" using distinct_leaf_ptrs by (auto simp: pc_rep_def)
  have best: "\<exists>e'. tlook addr T = Some e' \<and> plen e \<le> plen e'" if "e \<in> R" "covers e addr" for e
  proof -
    obtain q b es where "(q, b, es) \<in> leaves T" "e \<in> set es" using \<open>e \<in> R\<close> T(2) by (auto simp: tree_routes_def)
    from tlook_best [OF inv this that(2)] show ?thesis by blast
  qed
  have "is_best R addr e" if e: "tlook addr T = Some e" for e
  proof -
    obtain q b es where "(q, b, es) \<in> leaves T" "e \<in> set es" "covers e addr" using tlook_sound [OF inv(1,2) e] by blast
    then have "e \<in> R" "covers e addr" using T(2) by (force simp: tree_routes_def)+
    then show ?thesis using best e by (auto simp: is_best_def)
  qed
  moreover have "\<forall>r \<in> R. \<not> covers r addr" if "tlook addr T = None" using best that by fastforce
  ultimately show thesis by (rule that [OF pc_route_eq [OF T(1) assms(2)], rotated])
qed

section \<open>The drawing\<close>

fun ttext :: "(nptr \<Rightarrow> string) \<Rightarrow> ptree \<Rightarrow> string" where
  "ttext sp (PL p b es) = leaf_printer sp p b es"
| "ttext sp (PN p b s lf l r) =
     '' [ '' @ ''.'' @ bsl @ ''node('' @ sp p @ ''){'' @ ip_to_str b @ ''-'' @ string_of_nat s @ ''};'' @
     ttext sp l @ endl @ ttext sp r @ '' ] ''"

fun trefs :: "(nptr \<Rightarrow> string) \<Rightarrow> ptree \<Rightarrow> string" where
  "trefs sp (PL p b es) = []"
| "trefs sp (PN p b s lf l r) =
     (case lf of None \<Rightarrow> [] | Some q \<Rightarrow> bsl @ ''draw[semithick,dashed,->] ('' @ sp p @
       '') .. controls +(west:1.8) and +(north west:1.8) .. ('' @ sp q @ '');'' @ endl) @ trefs sp l @ trefs sp r"

definition is_inner :: "ptree \<Rightarrow> bool" where
  "is_inner t \<longleftrightarrow> (case t of PL _ _ _ \<Rightarrow> False | PN _ _ _ _ _ _ \<Rightarrow> True)"

text \<open>One child, as \<^verbatim>\<open>recursive_helper\<close> treats it.\<close>

definition draw_child :: "nat \<Rightarrow> (nptr \<Rightarrow> string) \<Rightarrow> pc_heap \<Rightarrow> nptr option \<Rightarrow> string \<times> string \<Rightarrow> (string \<times> string) result option" where
  "draw_child fuel sp h c = (\<lambda>(output, references).
     case c of
       None \<Rightarrow> Some (Inl NullDeref)
     | Some p \<Rightarrow>
         case h p of
           INTERNAL _ _ _ _ _ _ \<Rightarrow> recursive_helper fuel sp h p (output, references)
         | LEAF _ b es \<Rightarrow> Some (Inr (output @ leaf_printer sp p b es, references)))"

lemma draw_child_eq:
  assumes "rep h par t" "is_inner t \<Longrightarrow> recursive_helper fuel sp h (ptr t) (out, refs) = Some (Inr (out @ ttext sp t, refs @ trefs sp t))"
  shows "draw_child fuel sp h (Some (ptr t)) (out, refs) = Some (Inr (out @ ttext sp t, refs @ trefs sp t))"
  using assms by (cases t) (auto simp: draw_child_def is_inner_def)

lemma recursive_helper_eq:
  "rep h par t \<Longrightarrow> tinv t \<Longrightarrow> room t \<le> fuel \<Longrightarrow> is_inner t \<Longrightarrow>
     recursive_helper fuel sp h (ptr t) (out, refs) = Some (Inr (out @ ttext sp t, refs @ trefs sp t))"
proof (induction t arbitrary: par fuel out refs)
  case (PN p b s lf l r)
  have s: "s < 32" using PN.prems(2) by simp
  then obtain f where f: "fuel = Suc f" using PN.prems(3) by (cases fuel) (auto simp: room_def)
  have kids: "rep h (Some p) l" "rep h (Some p) r" "tinv l" "tinv r" "room l \<le> f" "room r \<le> f"
    using PN.prems(1-3) room_child [OF PN.prems(2)] f by auto
  have l: "draw_child f sp h (Some (ptr l)) (out, refs) = Some (Inr (out @ ttext sp l, refs @ trefs sp l))" for out refs
    using draw_child_eq [OF kids(1)] PN.IH(1) [OF kids(1,3,5)] by blast
  have r: "draw_child f sp h (Some (ptr r)) (out, refs) = Some (Inr (out @ ttext sp r, refs @ trefs sp r))" for out refs
    using draw_child_eq [OF kids(2)] PN.IH(2) [OF kids(2,4,6)] by blast
  have hp: "h p = INTERNAL par b (Some (ptr l)) (Some (ptr r)) lf (of_nat s)" using PN.prems(1) by simp
  show ?case
    unfolding f ptr.simps recursive_helper.simps Let_def draw_child_def [symmetric]
    by (cases lf) (simp_all add: hp l r unat_split [OF s])
qed (simp add: is_inner_def)

definition tikz :: "(nptr \<Rightarrow> string) \<Rightarrow> ptree \<Rightarrow> string" where
  "tikz sp t = ''%'' @ endl @ [CHR 0x09] @ bsl @ ''begin{tikzpicture}'' @ endl @
     [CHR 0x09] @ [CHR 0x09] @ bsl @ ''tikzset{every tree node/.style={align=center,anchor=north}}'' @ endl @ bsl @ ''Tree '' @
     ttext sp t @ trefs sp t @ [CHR 0x09] @ bsl @ ''end{tikzpicture}'' @ endl @ ''%'' @ endl"

lemma snapshot_eq:
  assumes "pc_root t = Some (ptr T)" "rep (pc_nodes t) None T" "tinv T" "32 \<le> fuel"
  shows "getQtreeSnapshot fuel sp t = (if is_inner T then Some (Inr (tikz sp T)) else Some (Inl Abort))"
proof (cases T)
  case (PL p b es)
  then show ?thesis using assms(1,2) by (simp add: getQtreeSnapshot_def is_inner_def)
next
  case (PN p b s lf l r)
  then have "is_inner T" "room T \<le> fuel" using room_le [of T] assms(4) by (auto simp: is_inner_def)
  note drawn = recursive_helper_eq [OF assms(2,3) this(2,1)]
  moreover have "\<exists>l r. pc_nodes t (ptr T) = INTERNAL None b l r lf (of_nat s)" using assms(2) PN by simp
  ultimately show ?thesis using assms(1) \<open>is_inner T\<close> by (auto simp: getQtreeSnapshot_def tikz_def Let_def)
qed

section \<open>Insertion\<close>

lemma ins_push_nodes: "tcur (base x) t = PL c (base x) es \<Longrightarrow> nodes (tins i j x t) = nodes t \<and> ptr (tins i j x t) = ptr t"
  by (induction t) (auto split: if_splits)

lemma tree_routes_single: "tree_routes (PL p b es) = set es"
  by (simp add: tree_routes_def)

lemma insert_empty:
  assumes "pc_root t = None" "wf_route x"
  shows "\<exists>t'. pc_insert fuel ub sp x t = Some (Inr t') \<and> pc_ok t' {x}"
proof -
  let ?t = "t\<lparr>pc_root := Some (pc_fresh t), pc_fresh := Suc (pc_fresh t),
    pc_nodes := (pc_nodes t)(pc_fresh t := LEAF None (base x) (pushRoute x []))\<rparr>"
  have "pc_rep ?t (PL (pc_fresh t) (base x) [x])"
    using assms(2) by (simp add: pc_rep_def push_single wf_leaf_def)
  then have "pc_ok ?t {x}" using tree_routes_single [of "pc_fresh t" "base x" "[x]"] by (auto simp: pc_ok_def)
  then show ?thesis using assms(1) by (simp add: pc_insert_def)
qed

text \<open>The inner loop of the build on a non-empty trie, without the drawing.\<close>

definition pc_step :: "(u32 \<Rightarrow> nat \<Rightarrow> u32) \<Rightarrow> route \<Rightarrow> nptr \<Rightarrow> PCTrie \<Rightarrow> PCTrie result" where
  "pc_step ub x cur t = (case pc_nodes t cur of
     LEAF p b es \<Rightarrow> if b = base x then Inr (t\<lparr>pc_nodes := (pc_nodes t)(cur := LEAF p b (pushRoute x es))\<rparr>) else pc_split ub x cur t
   | INTERNAL _ _ _ _ _ _ \<Rightarrow> pc_split ub x cur t)"

lemma pc_step_split:
  assumes T: "pc_rep t T" and C: "C = tcur (base x) T" and diff: "tdiff C (base x) \<noteq> 0"
  shows "\<exists>t'. pc_split ub x (ptr C) t = Inr t' \<and> qtree t' = qtree t \<and>
    pc_root t' = Some (ptr (tins (pc_fresh t) (Suc (pc_fresh t)) x T)) \<and> pc_fresh t' = Suc (Suc (pc_fresh t)) \<and>
    rep (pc_nodes t') None (tins (pc_fresh t) (Suc (pc_fresh t)) x T)"
proof -
  let ?i = "pc_fresh t" and ?j = "Suc (pc_fresh t)"
  have t: "pc_root t = Some (ptr T)" "rep (pc_nodes t) None T" "distinct (nodes T)" "tinv T" "\<And>p. p \<in> set (nodes T) \<Longrightarrow> p < ?i"
    using T by (auto simp: pc_rep_def)
  have fresh: "fresh_for ?i ?j T" using t(5) by (force simp: fresh_for_def)
  obtain par where rep: "rep (pc_nodes t) par C" using tcur_rep [OF t(2)] C by blast
  have c: "tinv C" "distinct (nodes C)" "fresh_for ?i ?j C"
    using tcur_inv [OF t(4)] tcur_distinct [OF t(3)] tcur_nodes [of "base x" T] fresh C by (auto simp: fresh_for_def)
  obtain pos where pos: "pos < 32" "mostSigOne (tdiff C (base x)) = int pos" using split_pos [OF c(1) diff] by blast
  obtain H where H: "rep H par (tsplit ?i ?j x C)" "\<And>q. q \<notin> {?i, ?j, ptr C} \<Longrightarrow> H q = pc_nodes t q"
    "pc_split ub x (ptr C) t = (case par of
       None \<Rightarrow> Inr (t\<lparr>pc_fresh := Suc ?j, pc_nodes := H, pc_root := Some ?i\<rparr>)
     | Some p \<Rightarrow> if (of_nat pos :: u8) \<le> n_splitPos (H p) then Inl Abort
         else Inr (t\<lparr>pc_fresh := Suc ?j, pc_nodes := H(p := relink (ptr C) ?i (H p))\<rparr>))"
    using split_heap [OF rep c diff pos(2), where ub = ub] by blast
  have parC: "n_parent (pc_nodes t (ptr C)) = par" by (rule rep_parent [OF rep])
  show ?thesis
  proof (cases "stops (base x) T")
    case True
    then have "C = T" using tcur_stops C by simp
    moreover from this have "par = None" using parC rep_parent [OF t(2)] by simp
    moreover have "tins ?i ?j x T = tsplit ?i ?j x T" using ins_split [OF True] diff \<open>C = T\<close> by simp
    ultimately show ?thesis using H(1,3) ptr_split [of ?i ?j x T] by simp
  next
    case False
    obtain p where p: "par = Some p" "p \<in> set (nodes T)" "p \<noteq> ptr C" using tcur_parent [OF t(2) False t(3)] parC C by auto
    obtain s where s: "n_splitPos (pc_nodes t p) = of_nat s" "s < 32" "s < pos"
      using tcur_split [OF t(2,4) False] diff pos(2) parC p(1) C by auto
    have "H p = pc_nodes t p" using H(2) [of p] t(5) [OF p(2)] p(3) by simp
    moreover have "\<not> (of_nat pos :: u8) \<le> of_nat s" using s(2,3) pos(1) by (simp add: word_le_nat_alt unat_split)
    ultimately have "pc_split ub x (ptr C) t = Inr (t\<lparr>pc_fresh := Suc ?j, pc_nodes := linked (ptr C) ?i p H\<rparr>)"
      using H(3) p(1) s(1) by (simp add: linked_def)
    moreover have "rep (linked (ptr C) ?i p H) None (tins ?i ?j x T)"
      unfolding C using diff parC H(1) p(1) by (intro rep_ins_link [OF t(2,3) fresh False _ _ _ H(2)]) (simp_all add: C)
    ultimately show ?thesis using ptr_ins [OF False, of ?i ?j] t(1) by simp
  qed
qed

lemma pc_step_rep:
  assumes T: "pc_rep t T" and x: "wf_route x" "\<And>y. y \<in> tree_routes T \<Longrightarrow> plen y \<le> plen x"
  shows "\<exists>t' T'. pc_step ub x (ptr (tcur (base x) T)) t = Inr t' \<and> qtree t' = qtree t \<and>
    pc_rep t' T' \<and> T' = tins (pc_fresh t) (Suc (pc_fresh t)) x T"
proof -
  let ?i = "pc_fresh t" and ?j = "Suc (pc_fresh t)" and ?C = "tcur (base x) T"
  let ?T = "tins ?i ?j x T"
  have t: "pc_root t = Some (ptr T)" "rep (pc_nodes t) None T" "distinct (nodes T)" "tinv T" "covered {} T" "\<And>p. p \<in> set (nodes T) \<Longrightarrow> p < ?i"
    using T by (auto simp: pc_rep_def)
  have fresh: "fresh_for ?i ?j T" using t(6) by (force simp: fresh_for_def)
  have "tinv ?T" "covered {} ?T" using tinv_ins [OF t(4)] covered_ins [OF t(4) _ t(5)] distinct_leaf_ptrs [OF t(3)] x by blast+
  moreover have "distinct (nodes ?T)" by (rule distinct_nodes_ins [OF t(3) fresh])
  moreover have "\<forall>p \<in> set (nodes ?T). p < Suc ?j" using nodes_ins [of ?i ?j x T] t(6) by (auto intro: less_SucI)
  ultimately have T': "pc_rep t' ?T"
    if "pc_root t' = Some (ptr ?T)" "rep (pc_nodes t') None ?T" "pc_fresh t' = Suc ?j" for t'
    using that by (simp add: pc_rep_def)
  obtain par where rep: "rep (pc_nodes t) par ?C" using tcur_rep [OF t(2)] by blast
  show ?thesis
  proof (cases "\<exists>c es. ?C = PL c (base x) es")
    case True
    then obtain c es where c: "?C = PL c (base x) es" by blast
    let ?t = "t\<lparr>pc_nodes := (pc_nodes t)(c := LEAF (n_parent (pc_nodes t c)) (base x) (pushRoute x es))\<rparr>"
    have "pc_nodes t c = LEAF par (base x) es" using rep c by simp
    then have step: "pc_step ub x (ptr ?C) t = Inr ?t" using c by (simp add: pc_step_def)
    have "rep (pc_nodes ?t) None ?T" using rep_ins_push [OF t(2,3) c] by simp
    moreover have nodes: "nodes ?T = nodes T \<and> ptr ?T = ptr T" using c by (rule ins_push_nodes)
    ultimately have "pc_rep ?t ?T" using t(1,6) \<open>tinv ?T\<close> \<open>covered {} ?T\<close> \<open>distinct (nodes ?T)\<close> by (simp add: pc_rep_def)
    with step show ?thesis by fastforce
  next
    case False
    then have diff: "tdiff ?C (base x) \<noteq> 0" using tcur_diff [of "base x" T] by (cases ?C) auto
    obtain t' where t': "pc_split ub x (ptr ?C) t = Inr t'" "qtree t' = qtree t" "pc_root t' = Some (ptr ?T)" "pc_fresh t' = Suc ?j"
      "rep (pc_nodes t') None ?T"
      using pc_step_split [OF T refl diff, of ub] by blast
    have "pc_step ub x (ptr ?C) t = pc_split ub x (ptr ?C) t" using rep False by (cases ?C) (auto simp: pc_step_def)
    then show ?thesis using t' T' [OF t'(3,5,4)] by metis
  qed
qed

text \<open>After a split the root is an inner node, so the snapshot can be drawn.\<close>

lemma inner_ins: "is_inner (tins i j x t) \<or> (\<exists>c es. tcur (base x) t = PL c (base x) es)"
  by (cases t) (auto simp: is_inner_def tsplit_def Let_def)

lemma snapshot_rep:
  assumes "pc_rep t T" "is_inner T" "32 \<le> fuel"
  shows "addQtreeSnapshot fuel sp t = Some (Inr (t\<lparr>qtree_prev := qtree_prev t @ tikz sp T\<rparr>))"
  using assms snapshot_eq [of t T fuel sp] by (simp add: addQtreeSnapshot_def pc_rep_def)

lemma insert_rep:
  assumes T: "pc_rep t T" and x: "wf_route x" "\<And>y. y \<in> tree_routes T \<Longrightarrow> plen y \<le> plen x" and fuel: "33 \<le> fuel"
  shows "\<exists>t'. pc_insert fuel ub sp x t = Some (Inr t') \<and> pc_rep t' (tins (pc_fresh t) (Suc (pc_fresh t)) x T)"
proof -
  let ?C = "tcur (base x) T" and ?T = "tins (pc_fresh t) (Suc (pc_fresh t)) x T"
  have t: "rep (pc_nodes t) None T" "tinv T" "pc_root t = Some (ptr T)" using T by (auto simp: pc_rep_def)
  obtain t' where t': "pc_step ub x (ptr ?C) t = Inr t'" "qtree t' = qtree t" "pc_rep t' ?T"
    using pc_step_rep [OF T x(1), of ub] x(2) by blast
  have "room T < fuel" using room_le [of T] fuel by simp
  then have down: "pc_descend fuel ub (pc_nodes t) (base x) (ptr T) = Some (Inr (ptr ?C))" by (rule descend_eq [OF t(1,2)])
  obtain par where rep: "rep (pc_nodes t) par ?C" using tcur_rep [OF t(1)] by blast
  show ?thesis
  proof (cases "\<exists>c es. ?C = PL c (base x) es")
    case True
    then obtain c es where c: "?C = PL c (base x) es" by blast
    then have "pc_nodes t c = LEAF par (base x) es" using rep by simp
    then have "pc_insert fuel ub sp x t = Some (Inr t')"
      using t'(1) t(3) down c by (simp add: pc_insert_def pc_step_def)
    then show ?thesis using t'(3) by blast
  next
    case False
    then have "is_inner ?T" using inner_ins by blast
    then have draw: "addQtreeSnapshot fuel sp t' = Some (Inr (t'\<lparr>qtree_prev := qtree_prev t' @ tikz sp ?T\<rparr>))"
      using snapshot_rep [OF t'(3)] fuel by simp
    have "pc_step ub x (ptr ?C) t = pc_split ub x (ptr ?C) t" using rep False by (cases ?C) (auto simp: pc_step_def)
    then have split: "pc_split ub x (ptr ?C) t = Inr t'" using t'(1) by simp
    have "pc_insert fuel ub sp x t = (if qtree t' then addQtreeSnapshot fuel sp t' else Some (Inr t'))"
      using rep False t(3) down split by (cases ?C) (auto simp: pc_insert_def Let_def)
    moreover have "pc_rep (t'\<lparr>qtree_prev := qtree_prev t' @ tikz sp ?T\<rparr>) ?T" using t'(3) by (simp add: pc_rep_def)
    ultimately show ?thesis using draw t'(3) by (cases "qtree t'") auto
  qed
qed

lemma insert_ok:
  assumes ok: "pc_ok t R" and x: "wf_route x" "\<And>y. y \<in> R \<Longrightarrow> plen y \<le> plen x" and fuel: "33 \<le> fuel"
  shows "\<exists>t'. pc_insert fuel ub sp x t = Some (Inr t') \<and> pc_ok t' (insert x R)"
proof (cases "pc_root t")
  case None
  then show ?thesis using insert_empty [OF None x(1)] ok by (simp add: pc_ok_def)
next
  case (Some root)
  then obtain T where T: "pc_rep t T" "tree_routes T = R" using ok by (auto simp: pc_ok_def)
  obtain t' where t': "pc_insert fuel ub sp x t = Some (Inr t')" "pc_rep t' (tins (pc_fresh t) (Suc (pc_fresh t)) x T)"
    using insert_rep [OF T(1) x(1) _ fuel] x(2) T(2) by blast
  then have "pc_ok t' (insert x R)" using tree_routes_ins [of _ _ x T] T(2) by (auto simp: pc_ok_def pc_rep_def)
  with t'(1) show ?thesis by blast
qed

section \<open>The whole table\<close>

lemma insert_all:
  "pc_ok t R \<Longrightarrow> 33 \<le> fuel \<Longrightarrow> (\<And>x. x \<in> set xs \<Longrightarrow> wf_route x \<and> plen x = len) \<Longrightarrow> (\<And>y. y \<in> R \<Longrightarrow> plen y \<le> len) \<Longrightarrow>
     \<exists>t'. foldO (pc_insert fuel ub sp) xs t = Some (Inr t') \<and> pc_ok t' (R \<union> set xs)"
proof (induction xs arbitrary: t R)
  case (Cons x xs)
  have x: "wf_route x" "plen x = len" using Cons.prems(3) by auto
  obtain t1 where t1: "pc_insert fuel ub sp x t = Some (Inr t1)" "pc_ok t1 (insert x R)"
    using insert_ok [OF Cons.prems(1) x(1) _ Cons.prems(2), of ub sp] Cons.prems(4) x(2) by blast
  have "plen y \<le> len" if "y \<in> insert x R" for y using that x(2) Cons.prems(4) by auto
  with Cons.IH [OF t1(2) Cons.prems(2)] Cons.prems(3) t1(1) show ?case by simp
qed simp

lemma insert_lengths:
  assumes "wf_rib es" "33 \<le> fuel" "pc_ok t {}" "n \<le> 33"
  shows "\<exists>t'. foldO (\<lambda>len t. if length es \<le> len then Some (Inl OutOfBounds) else foldO (pc_insert fuel ub sp) (es ! len) t) [0..<n] t =
    Some (Inr t') \<and> pc_ok t' (\<Union>len<n. set (es ! len))"
  using assms(4)
proof (induction n)
  case (Suc n)
  let ?R = "\<Union>len<n. set (es ! len)"
  obtain t' where t': "foldO (\<lambda>len t. if length es \<le> len then Some (Inl OutOfBounds) else foldO (pc_insert fuel ub sp) (es ! len) t) [0..<n] t =
    Some (Inr t')" "pc_ok t' ?R" using Suc by auto
  have b: "wf_bucket len (es ! len)" if "len < Suc n" for len using assms(1) Suc.prems that by (simp add: wf_rib_def)
  have "wf_route x \<and> plen x = n" if "x \<in> set (es ! n)" for x using wf_bucket_route [OF b _ that] Suc.prems by simp
  moreover have "plen y \<le> n" if y: "y \<in> ?R" for y
  proof -
    from y obtain len where "len < n" "y \<in> set (es ! len)" by auto
    then show ?thesis using wf_bucket_route [OF b, of len y] Suc.prems by simp
  qed
  ultimately obtain u where u: "foldO (pc_insert fuel ub sp) (es ! n) t' = Some (Inr u)" "pc_ok u (?R \<union> set (es ! n))"
    using insert_all [OF t'(2) assms(2)] by blast
  have "?R \<union> set (es ! n) = (\<Union>len<Suc n. set (es ! len))" by (auto simp: less_Suc_eq)
  then show ?case using t'(1) u assms(1) Suc.prems by (simp add: foldO_append wf_rib_def)
qed (use assms in simp)

lemma new_PCTrie_ok:
  assumes "wf_rib es" "33 \<le> fuel"
  shows "\<exists>t. new_PCTrie fuel ub sp es q = Some (Inr t) \<and> pc_ok t (routes es)"
proof -
  have "(\<Union>len<33. set (es ! len)) = routes es" using assms(1) by (auto simp: routes_iff wf_rib_def)
  then show ?thesis
    using insert_lengths [OF assms, of _ 33 ub sp] unfolding new_PCTrie_def pc_buildTrie_def by (force simp: pc_ok_def simp del: upt_rec_numeral)
qed

section \<open>The interface of the lookup structures\<close>

text \<open>
  The trie behind the interface the worker uses: an index instead of a route, and \<^verbatim>\<open>NH_INVALID\<close> for
  \<^verbatim>\<open>Table::invalidRoute\<close>. The fuel is enough for every path of a trie.
\<close>

definition pc_index :: "route option \<Rightarrow> nh_index" where
  "pc_index res = (case res of None \<Rightarrow> NH_INVALID | Some e \<Rightarrow> index e)"

definition total :: "'x result option \<Rightarrow> 'x result" where
  "total m = (case m of None \<Rightarrow> Inl Abort | Some res \<Rightarrow> res)"

definition pc_lookup :: "nat \<Rightarrow> (u32 \<Rightarrow> nat \<Rightarrow> u32) \<Rightarrow> PCTrie \<Rightarrow> u32 \<Rightarrow> nh_index result" where
  "pc_lookup fuel ub t addr = map_sum id pc_index (total (pc_route fuel ub t addr))"

lemma pc_built:
  assumes "wf_rib es" "34 \<le> fuel" "total (new_PCTrie fuel ub sp es q) = Inr t"
  shows "pc_ok t (routes es)"
  using new_PCTrie_ok [OF assms(1), of fuel ub sp q] assms(2,3) by (auto simp: total_def)

text \<open>Fuel beyond the longest path makes no difference.\<close>

interpretation pc: lpm_impl "\<lambda>es. total (new_PCTrie (34 + f) ub sp es q)" "pc_lookup (34 + f) ub" for f ub sp q
proof
  fix es assume ready: "lpm_ready es"
  then have wf: "wf_rib es" by (simp add: lpm_ready_def)
  show "\<exists>t. total (new_PCTrie (34 + f) ub sp es q) = Inr t"
    using new_PCTrie_ok [OF wf, of "34 + f" ub sp q] by (auto simp: total_def)
  fix t addr assume built: "total (new_PCTrie (34 + f) ub sp es q) = Inr t"
  obtain res where res: "pc_route (34 + f) ub t addr = Some (Inr res)" "res = None \<Longrightarrow> \<forall>r \<in> routes es. \<not> covers r addr"
    "\<And>e. res = Some e \<Longrightarrow> is_best (routes es) addr e"
    using pc_ok_route [OF pc_built [OF wf _ built], of "34 + f" ub addr] by auto
  have look: "pc_lookup (34 + f) ub t addr = Inr (pc_index res)" using res(1) by (simp add: pc_lookup_def total_def)
  show "pc_lookup (34 + f) ub t addr = Inr (index r)" if "is_best (routes es) addr r" for r
  proof (cases res)
    case None
    then show ?thesis using res(2) that by (auto simp: is_best_def)
  next
    case (Some e)
    then show ?thesis using look res(3) is_best_unique [OF wf that] by (simp add: pc_index_def)
  qed
  show "pc_lookup (34 + f) ub t addr = Inr NH_INVALID" if "\<And>r. r \<in> routes es \<Longrightarrow> \<not> covers r addr"
    using that res(3) look by (cases res) (auto simp: pc_index_def is_best_def)
qed

interpretation bp: lpm_pair "buildTrie ub" "\<lambda>t a. Inr (trie_route ub t a)"
  "\<lambda>es. total (new_PCTrie (34 + f) ub sp es q)" "pc_lookup (34 + f) ub" for f ub sp q
  ..

section \<open>Size\<close>

fun n_inner :: "ptree \<Rightarrow> nat" where
  "n_inner (PL p b es) = 0"
| "n_inner (PN p b s lf l r) = Suc (n_inner l + n_inner r)"

lemma leaf_count: "length (leaf_ptrs t) = Suc (n_inner t)"
  by (induction t) auto

definition sum_child :: "nat \<Rightarrow> u32 \<Rightarrow> pc_heap \<Rightarrow> nptr option \<Rightarrow> u32 \<times> u32 \<times> u32 \<Rightarrow> (u32 \<times> u32 \<times> u32) result option" where
  "sum_child fuel m h c = (\<lambda>(num_int, num_leaf, num_entries).
     case c of
       None \<Rightarrow> Some (Inl NullDeref)
     | Some p \<Rightarrow>
         case h p of
           INTERNAL _ _ _ _ _ _ \<Rightarrow> summer fuel m h p (num_int, num_leaf, num_entries)
         | LEAF _ _ _ \<Rightarrow> Some (Inr (num_int, num_leaf + 1, num_entries + m)))"

definition counted :: "ptree \<Rightarrow> u32 \<Rightarrow> u32 \<times> u32 \<times> u32 \<Rightarrow> u32 \<times> u32 \<times> u32" where
  "counted t m = (\<lambda>(a, b, c). (a + of_nat (n_inner t), b + of_nat (Suc (n_inner t)), c + of_nat (Suc (n_inner t)) * m))"

lemma summer_eq:
  "rep h par t \<Longrightarrow> tinv t \<Longrightarrow> room t \<le> fuel \<Longrightarrow> is_inner t \<Longrightarrow> summer fuel m h (ptr t) acc = Some (Inr (counted t m acc))"
proof (induction t arbitrary: par fuel acc)
  case (PN p b s lf l r)
  obtain x y z where acc: "acc = (x, y, z)" by (cases acc)
  obtain f where f: "fuel = Suc f" using PN.prems(2,3) by (cases fuel) (auto simp: room_def)
  have kids: "rep h (Some p) l" "rep h (Some p) r" "tinv l" "tinv r" "room l \<le> f" "room r \<le> f"
    using PN.prems(1-3) room_child [OF PN.prems(2)] f by auto
  have child: "sum_child f m h (Some (ptr d)) a = Some (Inr (counted d m a))"
    if "rep h (Some p) d" "is_inner d \<Longrightarrow> summer f m h (ptr d) a = Some (Inr (counted d m a))" for d a
    using that by (cases d; cases a) (auto simp: sum_child_def counted_def is_inner_def)
  have "sum_child f m h (Some (ptr l)) a = Some (Inr (counted l m a))" for a
    using child [OF kids(1)] PN.IH(1) [OF kids(1,3,5)] by blast
  moreover have "sum_child f m h (Some (ptr r)) a = Some (Inr (counted r m a))" for a
    using child [OF kids(2)] PN.IH(2) [OF kids(2,4,6)] by blast
  moreover have "n_left (h p) = Some (ptr l)" "n_right (h p) = Some (ptr r)" using PN.prems(1) by simp_all
  ultimately show ?case
    unfolding f acc ptr.simps summer.simps Let_def sum_child_def [symmetric]
    by (simp add: counted_def algebra_simps)
qed (simp add: is_inner_def)

text \<open>
  The size depends on the number of leaves only: the entries of a leaf do not count, the largest size of
  their vector does. A trie of a single leaf has size 0.
\<close>

lemma getSize_eq:
  assumes "pc_rep t T" "32 \<le> fuel"
  shows "getSize fuel m si sl se t = Some (Inr (
    if is_inner T then si * of_nat (n_inner T) + sl * of_nat (Suc (n_inner T)) + se * (of_nat (Suc (n_inner T)) * m) else 0))"
proof (cases T)
  case (PL p b es)
  then show ?thesis using assms(1) by (simp add: getSize_def pc_rep_def is_inner_def)
next
  case (PN p b s lf l r)
  have T: "pc_root t = Some (ptr T)" "rep (pc_nodes t) None T" "tinv T" "is_inner T" "room T \<le> fuel"
    using assms room_le [of T] PN by (auto simp: pc_rep_def is_inner_def)
  then have "summer fuel m (pc_nodes t) (ptr T) (0, 0, 0) = Some (Inr (counted T m (0, 0, 0)))"
    using summer_eq by blast
  moreover have "\<exists>l r. pc_nodes t (ptr T) = INTERNAL None b l r lf (of_nat s)" using T(2) PN by simp
  ultimately show ?thesis using T(1,4) by (auto simp: getSize_def counted_def)
qed

section \<open>Properties\<close>

text \<open>
  C22: the path-compressed trie is built without aborting from every well-formed table, with or without its history of drawings, and
  finds for every address a route with the longest covering prefix, or none exactly if no route covers the address.
  Thirty-four steps are enough for every walk through the trie.
\<close>

theorem pc_longest_prefix:
  assumes "wf_rib es" "34 \<le> fuel"
  shows "\<exists>t. new_PCTrie fuel ub sp es q = Some (Inr t) \<and>
    (\<forall>addr. \<exists>res. pc_route fuel ub t addr = Some (Inr res) \<and>
       (res = None \<longrightarrow> (\<forall>r \<in> routes es. \<not> covers r addr)) \<and> (\<forall>e. res = Some e \<longrightarrow> is_best (routes es) addr e))"
proof -
  obtain t where t: "new_PCTrie fuel ub sp es q = Some (Inr t)" "pc_ok t (routes es)"
    using new_PCTrie_ok [OF assms(1), of fuel ub sp q] assms(2) by auto
  then show ?thesis using pc_ok_route [OF t(2) assms(2), of ub] by metis
qed

theorem pc_longest_prefix_witness:
  "\<exists>t. new_PCTrie 34 (\<lambda>_ _. 0) (\<lambda>_. ''n'') test_numbered True = Some (Inr t) \<and>
     pc_route 34 (\<lambda>_ _. 0) t 0x10000040 = Some (Inr (Some test_best))"
proof -
  have wf: "wf_rib test_numbered" using ready_test_numbered by (simp add: lpm_ready_def)
  obtain t res where t: "new_PCTrie 34 (\<lambda>_ _. 0) (\<lambda>_. ''n'') test_numbered True = Some (Inr t)"
    "pc_route 34 (\<lambda>_ _. 0) t 0x10000040 = Some (Inr res)"
    "res = None \<longrightarrow> (\<forall>r \<in> routes test_numbered. \<not> covers r 0x10000040)"
    "\<forall>e. res = Some e \<longrightarrow> is_best (routes test_numbered) 0x10000040 e"
    using pc_longest_prefix [OF wf order_refl, of "\<lambda>_ _. 0" "\<lambda>_. ''n''" True] by blast
  have "res \<noteq> None" using t(3) test_best by (auto simp: is_best_def)
  then obtain e where e: "res = Some e" by blast
  then have "e = test_best" using is_best_unique [OF wf _ test_best] t(4) by blast
  with t(1,2) e show ?thesis by blast
qed

text \<open>
  C23: inserting a route that is no shorter than those in the trie relinks the nodes of the heap exactly as insertion into a tree does: the new
  inner node takes the place of the node the walk stopped at, parents and children agree, the leaf for backtracking moves up where it covers the
  new node, and every other node is left alone.
\<close>

theorem pc_insert_refines:
  assumes "pc_rep t T" "wf_route x" "\<forall>y \<in> tree_routes T. plen y \<le> plen x" "33 \<le> fuel"
  shows "\<exists>t'. pc_insert fuel ub sp x t = Some (Inr t') \<and> pc_rep t' (tins (pc_fresh t) (Suc (pc_fresh t)) x T)"
  using insert_rep [OF assms(1,2) _ assms(4)] assms(3) by blast

theorem pc_insert_refines_witness:
  "\<exists>t'. pc_insert 33 (\<lambda>_ _. 0) (\<lambda>_. []) (test_route 0x20000000 0 24 2)
       \<lparr>pc_root = Some 0, pc_nodes = (\<lambda>_. LEAF None 0x10000000 [test_route 0x10000000 0 16 1]), pc_fresh = 1, qtree = False, qtree_prev = []\<rparr> =
     Some (Inr t') \<and>
     pc_rep t' (PN 1 0 2 None (PL 0 0x10000000 [test_route 0x10000000 0 16 1]) (PL 2 0x20000000 [test_route 0x20000000 0 24 2]))"
proof -
  let ?t = "\<lparr>pc_root = Some 0, pc_nodes = (\<lambda>_. LEAF None 0x10000000 [test_route 0x10000000 0 16 1]), pc_fresh = 1, qtree = False, qtree_prev = []\<rparr>"
  let ?T = "PL 0 0x10000000 [test_route 0x10000000 0 16 1]" and ?x = "test_route 0x20000000 0 24 2"
  have wf: "wf_route (test_route 0x10000000 0 16 1)" "wf_route ?x" by code_simp+
  have "pc_rep ?t ?T" using wf(1) by (simp add: pc_rep_def wf_leaf_def test_route_def)
  moreover have "\<forall>y \<in> tree_routes ?T. plen y \<le> plen ?x" by (simp add: tree_routes_def test_route_def plen_def)
  ultimately have "\<exists>t'. pc_insert 33 (\<lambda>_ _. 0) (\<lambda>_. []) ?x ?t = Some (Inr t') \<and> pc_rep t' (tins (pc_fresh ?t) (Suc (pc_fresh ?t)) ?x ?T)"
    using wf(2) by (intro pc_insert_refines) simp_all
  moreover have "tins (pc_fresh ?t) (Suc (pc_fresh ?t)) ?x ?T = PN 1 0 2 None ?T (PL 2 0x20000000 [?x])" by code_simp
  ultimately show ?thesis by (simp only:)
qed

text \<open>
  C24: the three lookup structures are interchangeable. On a numbered well-formed table the walk over all routes, the trie and the
  path-compressed trie give the same answer for every address.
\<close>

theorem lookup_structures_agree:
  assumes "lpm_ready es" "buildTrie ub es = Inr b" "new_PCTrie (34 + f) ub sp es q = Some (Inr p)"
  shows "naive_route (Naive es) addr = Inr (trie_route ub b addr) \<and>
    (\<exists>res. pc_route (34 + f) ub p addr = Some (Inr res) \<and>
       trie_route ub b addr = (case res of None \<Rightarrow> NH_INVALID | Some e \<Rightarrow> index e))"
proof -
  have t: "total (new_PCTrie (34 + f) ub sp es q) = Inr p" using assms(3) by (simp add: total_def)
  have "pc_lookup (34 + f) ub p addr = Inr (trie_route ub b addr)" using bp.agree [OF assms(1,2) t, of addr] by simp
  moreover have "pc_ok p (routes es)" using pc_built [OF _ _ t] assms(1) by (simp add: lpm_ready_def)
  then obtain res where res: "pc_route (34 + f) ub p addr = Some (Inr res)"
    using pc_ok_route [of p "routes es" "34 + f" ub addr] by (metis le_add1)
  ultimately have "trie_route ub b addr = pc_index res" by (simp add: pc_lookup_def total_def)
  then show ?thesis using np.agree [OF assms(1) refl assms(2)] res by (simp add: pc_index_def)
qed

theorem lookup_structures_agree_witness:
  "\<exists>b p res. buildTrie (\<lambda>_ _. 0) test_numbered = Inr b \<and> new_PCTrie (34 + 0) (\<lambda>_ _. 0) (\<lambda>_. []) test_numbered False = Some (Inr p) \<and>
     naive_route (Naive test_numbered) 0x10000040 = Inr (trie_route (\<lambda>_ _. 0) b 0x10000040) \<and>
     pc_route (34 + 0) (\<lambda>_ _. 0) p 0x10000040 = Some (Inr res) \<and>
     trie_route (\<lambda>_ _. 0) b 0x10000040 = (case res of None \<Rightarrow> NH_INVALID | Some e \<Rightarrow> index e)"
proof -
  have wf: "wf_rib test_numbered" using ready_test_numbered by (simp add: lpm_ready_def)
  obtain b where b: "buildTrie (\<lambda>_ _. 0) test_numbered = Inr b" using bt.builds [OF ready_test_numbered] by blast
  obtain p where p: "new_PCTrie (34 + 0) (\<lambda>_ _. 0) (\<lambda>_. []) test_numbered False = Some (Inr p)"
    using new_PCTrie_ok [OF wf, of "34 + 0"] by fastforce
  show ?thesis using lookup_structures_agree [OF ready_test_numbered b p, of "0x10000040"] b p by blast
qed

end
