(* ===== verification/Hexdump.thy ===== *)
theory Hexdump
  imports Printing
begin

text \<open>
  \<^verbatim>\<open>include/hexdump.hpp\<close>: \<^verbatim>\<open>neolib::hex_dump\<close>, the formatter for packets in debug output, on a stream with default flags. The
  bytes of a row are shown as characters and in hexadecimal. A width of 0 never gets past the first row, hence the fuel.
\<close>

section \<open>Output\<close>

text \<open>\<^verbatim>\<open>std::hex\<close> with \<^verbatim>\<open>std::uppercase\<close>, a width and the fill character 0.\<close>

definition upper_hex :: "char \<Rightarrow> char" where
  "upper_hex c = (if 97 \<le> (of_char c :: nat) then char_of (of_char c - 32 :: nat) else c)"

definition put_hex :: "nat \<Rightarrow> nat \<Rightarrow> string" where
  "put_hex width n = (let s = map upper_hex (hex_of_nat n) in replicate (width - length s) (CHR ''0'') @ s)"

text \<open>\<^verbatim>\<open>char\<close> is signed: bytes from 128 on are negative and below 32.\<close>

definition put_char :: "u8 \<Rightarrow> char" where
  "put_char ch = (if sint ch < 32 then CHR ''.'' else char_of (unat ch))"

fun put_bytes :: "u8 list \<Rightarrow> string" where
  "put_bytes [] = []"
| "put_bytes [b] = put_hex 2 (unat b)"
| "put_bytes (b # c # bs) = put_hex 2 (unat b) @ '' '' @ put_bytes (c # bs)"

definition put_row :: "nat \<Rightarrow> nat \<Rightarrow> u8 list \<Rightarrow> string" where
  "put_row aWidth offset row =
     put_hex 4 offset @ '' : '' @ map put_char row @
     (if length row \<noteq> aWidth then replicate (aWidth - length row) (CHR '' '') else []) @ '' '' @
     put_bytes row @ '' '' @ endl"

fun hex_rows :: "nat \<Rightarrow> nat \<Rightarrow> nat \<Rightarrow> u8 list \<Rightarrow> string option" where
  "hex_rows 0 aWidth offset rest = None"
| "hex_rows (Suc fuel) aWidth offset rest =
     (if rest = [] then Some []
      else let lineLength = min aWidth (length rest) in
        map_option ((@) (put_row aWidth offset (take lineLength rest)))
          (hex_rows fuel aWidth (offset + lineLength) (drop lineLength rest)))"

definition hex_dump :: "nat \<Rightarrow> u8 list \<Rightarrow> nat \<Rightarrow> string option" where
  "hex_dump fuel aData aWidth = hex_rows fuel aWidth 0 aData"

section \<open>Reading a dump\<close>

fun read_bytes :: "string \<Rightarrow> u8 list \<times> string" where
  "read_bytes (c # d # e # s) = (let (bs, rest) = read_bytes s in
     if c = char_of (10 :: nat) then ([], d # e # s) else (of_nat (digits_value 16 [c, d]) # bs, rest))"
| "read_bytes s = ([], tl s)"

definition read_row :: "nat \<Rightarrow> string \<Rightarrow> u8 list \<times> string" where
  "read_row w s = read_bytes (drop (w + 3) (dropWhile (\<lambda>c. c \<noteq> CHR '':'') s))"

fun read_dump :: "nat \<Rightarrow> nat \<Rightarrow> string \<Rightarrow> u8 list" where
  "read_dump 0 w s = []"
| "read_dump (Suc n) w s = (if s = [] then [] else let (bs, rest) = read_row w s in bs @ read_dump n w rest)"

section \<open>Reading back what was written\<close>

lemma upper_digit:
  assumes "k < 16"
  shows "digit_value (upper_hex (hex_digit k)) = k" "upper_hex (hex_digit k) \<noteq> char_of (10 :: nat)"
proof -
  let ?c = "if k < 10 then 48 + k else 55 + k"
  have c: "upper_hex (hex_digit k) = char_of ?c" using assms by (simp add: upper_hex_def hex_digit_def)
  have v: "of_char (upper_hex (hex_digit k)) = ?c" unfolding c using assms by simp
  then show "digit_value (upper_hex (hex_digit k)) = k" using assms by (simp add: digit_value_def Let_def)
  show "upper_hex (hex_digit k) \<noteq> char_of (10 :: nat)"
  proof
    assume "upper_hex (hex_digit k) = char_of (10 :: nat)"
    then have "(of_char (upper_hex (hex_digit k)) :: nat) = 10" by simp
    then show False unfolding v by (simp split: if_splits)
  qed
qed

lemma put_hex_byte: "\<exists>c d. put_hex 2 (unat (b :: u8)) = [c, d] \<and> digits_value 16 [c, d] = unat b \<and> c \<noteq> char_of (10 :: nat)"
proof -
  let ?n = "unat b"
  have n: "?n < 256" using unat_less_pow(1) .
  have zero: "upper_hex (hex_digit 0) = CHR ''0''" by code_simp
  have "put_hex 2 ?n = [upper_hex (hex_digit (?n div 16)), upper_hex (hex_digit (?n mod 16))]"
    using n zero by (auto simp: put_hex_def hex_of_nat.simps [of ?n] hex_of_nat.simps [of "?n div 16"])
  moreover have "?n div 16 < 16" "?n mod 16 < 16" using n by auto
  ultimately show ?thesis using upper_digit by (simp add: digits_value_def)
qed

lemma put_bytes_concat: "row \<noteq> [] \<Longrightarrow> put_bytes row @ '' '' = concat (map (\<lambda>b. put_hex 2 (unat b) @ '' '') row)"
  by (induction row rule: put_bytes.induct) auto

lemma read_bytes_newline: "read_bytes (endl @ s) = ([], s)"
  by (cases s rule: list.exhaust; cases "tl s") (auto simp: endl_def split: prod.splits)

lemma read_put_bytes: "read_bytes (concat (map (\<lambda>b. put_hex 2 (unat b) @ '' '') row) @ endl @ s) = (row, s)"
proof (induction row)
  case (Cons b row)
  obtain c d where "put_hex 2 (unat b) = [c, d]" "digits_value 16 [c, d] = unat b" "c \<noteq> char_of (10 :: nat)" using put_hex_byte by blast
  then show ?case using Cons by (simp del: char_of_def)
qed (simp add: read_bytes_newline)

lemma put_hex_no_colon: "CHR '':'' \<notin> set (put_hex w n)"
proof -
  have "upper_hex c \<noteq> CHR '':''" if c: "c \<in> set (hex_of_nat n)" for c
  proof
    assume up: "upper_hex c = CHR '':''"
    have "is_digit 16 c" using hex_of_nat_value [of n] c by (simp add: list_all_iff)
    moreover have "\<not> is_digit 16 (CHR '':'')" by code_simp
    ultimately have "97 \<le> (of_char c :: nat)" using up by (auto simp: upper_hex_def split: if_splits)
    moreover from this have "(of_char (upper_hex c) :: nat) = (of_char c - 32) mod 256" by (simp add: upper_hex_def)
    moreover have "(of_char c :: nat) < 256" by (metis of_char_mod_256 mod_less_divisor zero_less_numeral)
    ultimately show False using up by simp
  qed
  then have "CHR '':'' \<notin> upper_hex ` set (hex_of_nat n)" by (metis imageE)
  then show ?thesis by (simp add: put_hex_def Let_def)
qed

lemma read_put_row:
  assumes "row \<noteq> []" "length row \<le> w"
  shows "read_row w (put_row w off row @ s) = (row, s)"
proof -
  let ?chars = "map put_char row @ (if length row \<noteq> w then replicate (w - length row) (CHR '' '') else [])"
  have len: "length ?chars = w" using assms(2) by simp
  have "put_row w off row @ s = put_hex 4 off @ CHR '' '' # CHR '':'' # CHR '' '' # ?chars @ CHR '' '' # (put_bytes row @ '' '') @ endl @ s"
    by (simp add: put_row_def)
  moreover have "dropWhile (\<lambda>c. c \<noteq> CHR '':'') (put_hex 4 off @ CHR '' '' # CHR '':'' # t) = CHR '':'' # t" for t
    using put_hex_no_colon [of 4 off] by (subst dropWhile_append2) auto
  moreover have "drop (w + 3) (CHR '':'' # CHR '' '' # ?chars @ CHR '' '' # t) = t" for t
    using len by (simp add: numeral_3_eq_3)
  ultimately have "read_row w (put_row w off row @ s) = read_bytes ((put_bytes row @ '' '') @ endl @ s)"
    unfolding read_row_def by (simp only:)
  then show ?thesis unfolding put_bytes_concat [OF assms(1)] read_put_bytes .
qed

text \<open>The dump of a packet ends and shows every byte: reading its rows gives the packet back.\<close>

lemma hex_rows_read:
  "0 < w \<Longrightarrow> length bs < fuel \<Longrightarrow> \<exists>s. hex_rows fuel w off bs = Some s \<and> read_dump fuel w s = bs"
proof (induction fuel arbitrary: off bs)
  case (Suc fuel)
  show ?case
  proof (cases "bs = []")
    case False
    let ?n = "min w (length bs)"
    have "length (drop ?n bs) < fuel" using Suc.prems False by (cases bs) auto
    then obtain s where s: "hex_rows fuel w (off + ?n) (drop ?n bs) = Some s" "read_dump fuel w s = drop ?n bs"
      using Suc.IH Suc.prems(1) by blast
    have row: "read_row w (put_row w off (take ?n bs) @ s) = (take ?n bs, s)"
      using False Suc.prems(1) by (intro read_put_row) auto
    have "put_row w off (take ?n bs) @ s \<noteq> []" by (simp add: put_row_def)
    then have "read_dump (Suc fuel) w (put_row w off (take ?n bs) @ s) = bs"
      using row s(2) by (simp only: read_dump.simps if_False Let_def case_prod_conv append_take_drop_id)
    moreover have "hex_rows (Suc fuel) w off bs = Some (put_row w off (take ?n bs) @ s)" using s(1) False by simp
    ultimately show ?thesis by blast
  qed simp
qed simp

lemma hex_dump_reads_back:
  assumes "0 < aWidth"
  shows "\<exists>s. hex_dump (Suc (length aData)) aData aWidth = Some s \<and> read_dump (Suc (length aData)) aWidth s = aData"
  unfolding hex_dump_def by (rule hex_rows_read [OF assms]) simp

lemma hex_dump_width_0: "aData \<noteq> [] \<Longrightarrow> hex_dump fuel aData 0 = None"
proof -
  have "hex_rows fuel 0 off aData = None" if "aData \<noteq> []" for off using that by (induction fuel arbitrary: off) auto
  then show "aData \<noteq> [] \<Longrightarrow> hex_dump fuel aData 0 = None" by (simp add: hex_dump_def)
qed

end
