(* ===== verification/Spec2Isabelle.thy ===== *)
theory Spec2Isabelle
  imports Start PacketPath Resolution Benchmark PCCorrect Hexdump
begin

text \<open>
  \<^bold>\<open>Ariadne, a software router.\<close>
  A manager thread binds network interfaces to netmap, moves received frames into a queue, and sends the frames
  that come back; worker threads take frames from the queue, verify the IPv4 header, look up the next hop and rewrite the frame;
  a statistics thread prints and clears counters. The routes and the interfaces come from the kernel through rtnetlink, the
  addresses of the next hops from ARP.

  \<^bold>\<open>Theories and sources.\<close>
  \<^item> \<open>Prelude\<close>: errors as values (\<open>error\<close>, \<open>result\<close>), loops that may stop the program (\<open>foldE\<close>, \<open>mapE\<close>), their invariant and
    totality rules, \<open>std_sort\<close>, words.
  \<^item> \<open>Util\<close>, \<open>Printing\<close>, \<open>Checksum\<close>: \<^verbatim>\<open>include/util.hpp\<close>. Bits and masks, byte order, printing and
    parsing of addresses, the header checksum. Shown: parsing a printed hardware address gives it back; the checksum is that of RFC 1071; decrementing
    the time to live and incrementing the checksum keeps the header valid.
  \<^item> \<open>Hexdump\<close>: \<^verbatim>\<open>include/hexdump.hpp\<close>, the formatter of debug output. Shown: it ends for every positive width, and its rows can be read back.
  \<^item> \<open>Interface\<close>: \<^verbatim>\<open>include/interface.hpp\<close>. \<^verbatim>\<open>shared_ptr<Interface>\<close> is an address into a heap of interface records, since the netmap index is
    written while routes and tables hold the pointer.
  \<^item> \<open>RoutingTable\<close>, \<open>SampleTable\<close>, \<open>Aggregation\<close>, \<open>NextHops\<close>: \<^verbatim>\<open>routingTable.cpp\<close>, \<^verbatim>\<open>routingTable.hpp\<close>. The table is a list of 33 lists of
    routes, one per prefix length. Shown: when no merged route meets an existing one, aggregation keeps gateway and interface of every address or
    leaves its vector, and exactly when it does the latter; the two numberings, before and after the ports are bound, succeed and give
    every route an index that names its gateway or its port, or \<^verbatim>\<open>NH_INVALID\<close> on an unbound interface.
  \<^item> \<open>Buckets\<close>, \<open>FileTable\<close>: \<^verbatim>\<open>fileTable.cpp\<close>. Routes from a text file; the regular expression as a matcher. Shown: the matcher accepts exactly
    the language of the expression; shape and bounds of the table; files of printed routes are read back; such a table cannot be numbered.
  \<^item> \<open>Mnl\<close>, \<open>Netlink\<close>, \<open>LinuxTable\<close>: \<^verbatim>\<open>netlink.cpp\<close>, \<^verbatim>\<open>linuxTable.cpp\<close>. The receive loop and the callbacks on the dumps of
    addresses, links and routes. Shown: the program stops on a refused attribute, and otherwise the vector of interfaces has addresses, name and hardware address of
    every kernel index as the dumps describe them; the table holds the unicast routes of the dump, or the program stops, and when.
  \<^item> \<open>LPM\<close>, \<open>Naive\<close>, \<open>BasicTrie\<close>: \<^verbatim>\<open>naive.cpp\<close>, \<^verbatim>\<open>basicTrie.cpp\<close>, the choice in \<^verbatim>\<open>config.hpp\<close>. The interface of a lookup structure is a
    locale, interpreted on each structure. Shown: they perform longest-prefix matching, so they agree.
  \<^item> \<open>PCTrie\<close>, \<open>PCTree\<close>, \<open>PCInsert\<close>, \<open>PCRefine\<close>, \<open>PCSplit\<close>, \<open>PCCorrect\<close>: \<^verbatim>\<open>pcTrie.cpp\<close>, \<^verbatim>\<open>pcTrie.hpp\<close>, a third lookup structure that the
    preprocessor disables at present. The class is a heap of nodes with parent pointers (\<open>PCTrie\<close>); trees with their invariant and insertion are its
    specification (\<open>PCTree\<close>, \<open>PCInsert\<close>); the heap refines them (\<open>PCRefine\<close>, \<open>PCSplit\<close>). Shown: the build never aborts, the checks
    it makes on its own structure never fail, lookups find the longest prefix, the drawing draws the trie, and what its size really counts.
  \<^item> \<open>Headers\<close>, \<open>Frame\<close>: \<^verbatim>\<open>headers.hpp\<close>, \<^verbatim>\<open>frame.hpp\<close>, \<^verbatim>\<open>frame.cpp\<close>. Packed structs as records with loads and stores on byte memory; a locale
    gives the laws of these accesses and is interpreted for every scalar and header.
  \<^item> \<open>ArpTable\<close>, \<open>ArpProtocol\<close>: \<^verbatim>\<open>arpTable.cpp\<close>, \<^verbatim>\<open>arpTable.hpp\<close>. Shown: the table built for a routing table; every ARP
    frame is handled within its 42 bytes and keeps the invariant; request and reply between two routers teach the address of a next hop or of a
    new station, and leave the entry of a known station as it is.
  \<^item> \<open>Worker\<close>, \<open>WorkerPath\<close>: \<^verbatim>\<open>worker.cpp\<close>, \<^verbatim>\<open>worker.hpp\<close>. Shown: what happens to a frame on every branch, and to nothing else in
    memory; an uninterrupted round ends and treats the frames that left the queue.
  \<^item> \<open>Manager\<close>, \<open>ManagerBuffers\<close>: \<^verbatim>\<open>manager.cpp\<close> (\<^verbatim>\<open>process\<close> and the statistics). Shown: a round does not duplicate buffers, and
    loses none while the queue to the workers has room for the free list; uninterrupted rounds end; over any sequence of frames the ARP requests are limited;
    sending and its out-of-bounds case.
  \<^item> \<open>ManagerSteps\<close>: \<^verbatim>\<open>Manager::process\<close> again, cut into steps (\<open>man_step\<close>) with its local variables in a program counter (\<open>man_pc\<close>). Shown: no step
    duplicates a buffer, those in the hands of the manager included; an uninterrupted round is a run of the steps.
  \<^item> \<open>Startup\<close>, \<open>Binding\<close>, \<open>Start\<close>: \<^verbatim>\<open>main.cpp\<close> and the start of the manager. Shown: the meaning of the command line; the ports of the
    interfaces; \<^verbatim>\<open>main\<close> reaches the manager's loop with all tables in agreement.
  \<^item> \<open>Challenge\<close>, \<open>Benchmark\<close>: the second half of \<^verbatim>\<open>main.cpp\<close>, a lookup benchmark that the preprocessor disables. \<open>Challenge\<close> has its functions on challenge files, which a
    second \<^verbatim>\<open>#if 0\<close> inside the first disables, \<open>Benchmark\<close> the former \<^verbatim>\<open>main\<close> as it is without that block. Shown: what a
    run of a challenge reports is exactly where two lookups differ; converted texts are read back; the conversion of a missing file never ends; what the words of
    the command line do.
  \<^item> \<open>System\<close>: the threads as an interleaving step relation on the shared queues, memory and ARP table. The steps are those of \<open>man_step\<close>, the fetch of a
    batch, the treatment of a frame and its enqueueing by a worker, and a pass of the statistics thread. Shown: every buffer has at most one owner in
    all reachable states, also in the middle of a burst; uninterrupted rounds of the manager and of a worker are runs of the relation.
  \<^item> \<open>Isolation\<close>: a frame rule for the packet path (the treatment of a frame depends on its headers only), and that the steps of different workers commute.
  \<^item> \<open>PacketPath\<close>: the way of a packet from the ring it is received in to the ring it leaves by, through two rounds of the manager and the steps of a worker.
  \<^item> \<open>Resolution\<close>: the resolution of a directly connected station, from the first packet through request and reply to the next packet.
  \<^item> \<open>Forwarding\<close> and this theory: the way of a route from the kernel's table to the frame that leaves.

  \<^bold>\<open>Conventions.\<close>
  Machine integers are words of their width. A program that stops is \<open>Inl\<close> of an error: \<open>Fatal\<close>, \<open>Abort\<close>,
  \<open>AssertFailed\<close>, \<open>Exit\<close>, and \<open>NullDeref\<close> or \<open>OutOfBounds\<close> where the behaviour of C++ is undefined. The value of an undefined
  operation that the program goes on with (a shift by a negative amount, an uninitialised variable, an overflowing conversion) is an argument (\<open>ub\<close>, \<open>junk\<close>),
  so that the theorems hold for all its values.

  \<^bold>\<open>Parameters.\<close>
  libmnl, netmap with its system calls, the concurrent queue, the clock and the contents of files are not part of the
  repository. They are arguments of the definitions, and what is relied on are named predicates: \<open>opens\<close>, \<open>cb_run_ok\<close>, \<open>answers\<close> and \<open>attrs_ok\<close> of
  libmnl and the kernel behind it, \<open>api_ok\<close>, \<open>spaced\<close>, \<open>poll_ok\<close> and \<open>os_ok\<close> of netmap, \<open>enq_ok\<close>, \<open>deq_ok\<close>, \<open>enqb_ok\<close> and \<open>deq1_ok\<close> of the queues, \<open>mmap_ok\<close> of the
  system call. The laws of the queues say only that frames are not made up or doubled: an enqueue may be refused and a dequeue may find nothing though
  frames are there. Where a queue that has room (\<open>has_room\<close>) or finds what there is (\<open>deq_finds\<close>, \<open>deq1_finds\<close>) matters, the statement says so. Each has a
  concrete instance for which the theorems are applied.

  \<^bold>\<open>Fuel.\<close>
  A loop whose end depends on the environment has a fuel argument and the result \<open>None\<close> when it runs out: \<open>process\<close> and
  \<open>manager_process\<close> (fuel above the number of queued frames is enough), \<open>recv_loop\<close> (above the number of datagrams of a dump, part of \<open>answers\<close>), \<open>free_walk\<close>
  (above the length of the list of extra buffers, part of \<open>os_ok\<close>), the walks through the path-compressed trie (34, since split positions increase
  along a path). The theorems state that the result is there. \<open>convert_loop\<close> is a partial function, since it really has an infinite run.

  \<^bold>\<open>Not modelled.\<close>
  The older \<^verbatim>\<open>buildNextHopList\<close> in \<^verbatim>\<open>routingTable.cpp\<close>, which the preprocessor disables, numbers next hops with types that are gone; the debug output that calls the formatter is left out; of the memory model of C++ only interleavings are considered, with each
  access to a queue, each buffer taken from a ring and the treatment of one frame as single steps.
\<close>

section \<open>From the kernel's routing table to the wire\<close>

text \<open>
  The entry of the ARP table a worker ends up with: the port of the interface the specification names.
\<close>

lemma hop_of_gateway:
  assumes "arp_inv h th a" "routingTable a = Some rt" "i < length (nextHopMapping (th rt))" "i < 32768"
    and "nh_interface (nextHopMapping (th rt) ! i) = Some p" "unat (netmapIndex (h p)) < 32768"
  shows "lookup_hop a (getCurrentTable a) (of_nat i) dst = Inr (hops_of a (getCurrentTable a) ! i) \<and>
    netmapInterface (hops_of a (getCurrentTable a) ! i) = ucast (netmapIndex (h p)) \<and>
    (ucast (netmapIndex (h p)) :: u16) \<noteq> uint16_t_max"
proof -
  let ?hs = "hops_of a (currentTable a)" and ?m = "nextHopMapping (th rt)"
  have all: "list_all2 (\<lambda>nh e. netmapInterface e = hop_port h nh \<and> (nh_mac e = zero_mac \<or> mapping a (nh_ip nh) \<noteq> None)) ?m ?hs"
    using assms(1,2) by (auto simp: arp_inv_def)
  have len: "length ?hs = length ?m" using list_all2_lengthD [OF all] by simp
  have "unat (of_nat i :: nh_index) = i" using assms(4) by (simp add: unat_of_nat take_bit_eq_mod)
  then have "lookup_hop a (currentTable a) (of_nat i) dst = Inr (?hs ! i)"
    using small_index(2) [OF assms(4)] assms(3) len by (simp add: lookup_hop_def)
  moreover have "netmapInterface (?hs ! i) = ucast (netmapIndex (h p))"
    using list_all2_nthD [OF all assms(3)] assms(5) by (simp add: hop_port_def)
  moreover have "unat (ucast (netmapIndex (h p)) :: u16) < 32768"
    using assms(6) by (simp add: unsigned_ucast_eq take_bit_nat_eq_self_iff take_bit_nat_eq_self)
  then have "(ucast (netmapIndex (h p)) :: u16) \<noteq> uint16_t_max" by (auto simp: uint16_t_max_def)
  ultimately show ?thesis by (simp add: getCurrentTable_def)
qed

text \<open>
  C3: The started router forwards as the kernel's routing table says. Let the table the kernel has reported be
  well-formed, let aggregation meet no clash and let each gateway be reached through one interface. After the
  aggregation, the numbering, the binding of the ports and the second numbering, a worker with the trie of that table
  and the current ARP table treats a verified packet, whose best route in the kernel's table leads to gateway \<open>g\<close>
  over interface \<open>p\<close>, as follows: the time to live is decremented and the checksum adjusted; when the ARP
  table has an address for \<open>g\<close>, the frame carries it and leaves through the port of \<open>p\<close>; when it has none, the frame
  goes to the manager for that port, marked for address resolution.
\<close>

theorem router_refines_kernel_table:
  assumes "wf_rib (entries t0)" "agg_clash_free (rev [1..<31]) (entries t0)" "nextHopMapping t0 = []"
    and "gateways_ok (entries t0)"
    and "update (\<lambda>_. Inr t0) h t = Inr t1" "buildNextHopList h' t1 = Inr t2" "buildTrie ub (entries t2) = Inr (cur_lpm w)"
    and "length (nextHopMapping t2) \<le> 32768" "unat (netmapIndex (h' p)) < 32768"
    and "arp_inv h' th a" "routingTable a = Some rt" "th rt = t2" "cur_arp_table w = getCurrentTable a"
    and "find_iface h' (w_interfaces w) (ucast (iface f AND IFACE_ID)) = Some q"
    and "ethertype (load_ether m (buf_ptr f)) = htons 0x0800"
    and "verified m (buf_ptr f + sizeof_ether) (frame_len f)"
    and "d_ip (load_ipv4 m (buf_ptr f + sizeof_ether)) \<notin> set (IPs (h' q))"
    and "forwards (routes (entries t0)) (ntohl (d_ip (load_ipv4 m (buf_ptr f + sizeof_ether)))) (g, Some p)" "g \<noteq> 0"
  shows "\<exists>i < length (nextHopMapping t2). \<exists>m'. nh_ip (nextHopMapping t2 ! i) = g \<and>
    (let mc = nh_mac (hops_of a (getCurrentTable a) ! i); port = ucast (netmapIndex (h' p)) in
     process_frame ub h' a w m f = Inr (m', f\<lparr>iface := if mc = zero_mac then port OR IFACE_NOMAC else port\<rparr>, True) \<and>
     load_ipv4 m' (buf_ptr f + sizeof_ether) = ttl_step (load_ipv4 m (buf_ptr f + sizeof_ether)) \<and>
     (mc = zero_mac \<or> d_mac (load_ether m' (buf_ptr f)) = mc \<and> s_mac (load_ether m' (buf_ptr f)) = if_mac (h' q)))"
proof -
  let ?p = "buf_ptr f + sizeof_ether" and ?m = "nextHopMapping t2"
  let ?dst = "ntohl (d_ip (load_ipv4 m ?p))"
  obtain i where i: "i < length ?m" "trie_route ub (cur_lpm w) ?dst = of_nat i" "nh_ip (?m ! i) = g" "nh_interface (?m ! i) = Some p"
    using tables_resolve [OF assms(1-6,18,19,7)] by blast
  let ?nh = "hops_of a (getCurrentTable a) ! i"
  have hop: "lookup_hop a (getCurrentTable a) (of_nat i) ?dst = Inr ?nh" "netmapInterface ?nh = ucast (netmapIndex (h' p))"
    "(ucast (netmapIndex (h' p)) :: u16) \<noteq> uint16_t_max"
    using hop_of_gateway [OF assms(10,11), of i p ?dst] i assms(8,9,12) by simp_all
  have valid: "nextHop_valid ?nh \<longleftrightarrow> nh_mac ?nh \<noteq> zero_mac" using hop(2,3) by (simp add: nextHop_valid_def invalidMac_def)
  have ix: "(of_nat i :: nh_index) \<noteq> NH_INVALID"
    using small_index(1) i(1) assms(8) by simp
  have fw: "forward ub h' a w q m f = (let m' = store_ipv4 ?p (ttl_step (load_ipv4 m ?p)) m in
      if nh_mac ?nh = zero_mac then Inr (m', f\<lparr>iface := ucast (netmapIndex (h' p)) OR IFACE_NOMAC\<rparr>)
      else Inr (store_ether (buf_ptr f) ((load_ether m (buf_ptr f))\<lparr>d_mac := nh_mac ?nh, s_mac := if_mac (h' q)\<rparr>) m',
             f\<lparr>iface := ucast (netmapIndex (h' p))\<rparr>))"
    unfolding forward_eq using hop valid ix i(2) assms(13) by (simp add: Let_def)
  show ?thesis
    by (rule exI [of _ i], rule conjI [OF i(1)], rule exI [of _ "case forward ub h' a w q m f of Inr (m', _) \<Rightarrow> m'"])
      (use assms(16,17) in \<open>auto simp: process_frame_ipv4 [OF assms(14,15)] fw i(3) Let_def eth.load_store
        ip.load_store eth_ip.load_disjoint'\<close>)
qed

text \<open>A default route over one gateway, bound, numbered and resolved.\<close>

definition default_table :: "nh_index \<Rightarrow> nh_abstract list \<Rightarrow> routing_table" where
  "default_table ix m = \<lparr>entries = [[(test_route 0 7 0 1)\<lparr>index := ix\<rparr>]] @ replicate 32 [], nextHopMapping = m, rt_interfaces = [1, 2]\<rparr>"

abbreviation one_gateway :: "nh_abstract list" where
  "one_gateway \<equiv> [\<lparr>nh_ip = 7, nh_interface = Some 1, nh_idx = 0\<rparr>]"

definition resolved_arp :: ARPTable where
  "resolved_arp = \<lparr>routingTable = Some 0, tables = [[], [\<lparr>nh_mac = Mac 2 0 0 0 9 9, netmapInterface = 1\<rparr>]], currentTable = 1,
     directlyConnected = Map.empty, mapping = [7 \<mapsto> \<lparr>nh_mac = Mac 2 0 0 0 9 9, netmapInterface = 1\<rparr>], arp_interfaces = [1, 2]\<rparr>"

lemma default_table_facts:
  "wf_rib (entries (default_table NH_INVALID []))" "agg_clash_free (rev [1..<31]) (entries (default_table NH_INVALID []))"
  "update (\<lambda>_. Inr (default_table NH_INVALID [])) (\<lambda>_. new_Interface) (default_table NH_INVALID []) = Inr (default_table 0 one_gateway)"
  "buildNextHopList port_heap (default_table 0 one_gateway) = Inr (default_table 0 one_gateway)"
  by code_simp+

lemma default_gateways_ok: "gateways_ok (entries (default_table NH_INVALID []))"
  by (simp add: gateways_ok_def rib_hops_def hops_def default_table_def)

lemma default_forwards: "forwards (routes (entries (default_table NH_INVALID []))) addr (7, Some 1)"
  by (auto simp: forwards_def is_best_def routes_def default_table_def test_route_def covers_def plen_def)

lemma resolved_arp_inv: "arp_inv port_heap (\<lambda>_. default_table 0 one_gateway) resolved_arp"
  by (simp add: arp_inv_def resolved_arp_def default_table_def hops_ready_def hop_ready_def port_heap_def hop_port_def
      hops_of_def uint16_t_max_def)

theorem router_refines_kernel_table_witness:
  "\<exists>lpm m'. buildTrie (\<lambda>_ _. 0) (entries (default_table 0 one_gateway)) = Inr lpm \<and>
     process_frame (\<lambda>_ _. 0) port_heap resolved_arp (new_Worker lpm 1 [1, 2] 0) test_packet test_frame =
       Inr (m', test_frame\<lparr>iface := 1\<rparr>, True) \<and> d_mac (load_ether m' 0) = Mac 2 0 0 0 9 9"
proof -
  have "wf_rib (entries (default_table 0 one_gateway))" by code_simp
  then obtain lpm where lpm: "buildTrie (\<lambda>_ _. 0) (entries (default_table 0 one_gateway)) = Inr lpm"
    using buildTrie_eq [of "entries (default_table 0 one_gateway)" "\<lambda>_ _. 0"] by (simp add: wf_rib_def)
  let ?w = "new_Worker lpm 1 [1, 2] 0"
  have w: "w_interfaces ?w = [1, 2]" "cur_lpm ?w = lpm" "cur_arp_table ?w = 1" by (simp_all add: new_Worker_def)
  have m: "nextHopMapping (default_table NH_INVALID []) = []" "nextHopMapping (default_table 0 one_gateway) = one_gateway"
    and a: "routingTable resolved_arp = Some 0" "getCurrentTable resolved_arp = 1"
      "hops_of resolved_arp 1 = [\<lparr>nh_mac = Mac 2 0 0 0 9 9, netmapInterface = 1\<rparr>]"
    and p: "netmapIndex (port_heap 1) = 1"
    by (simp_all add: default_table_def resolved_arp_def getCurrentTable_def hops_of_def port_heap_def)
  show ?thesis
    using router_refines_kernel_table [OF default_table_facts(1,2) m(1) default_gateways_ok default_table_facts(3,4),
        of "\<lambda>_ _. 0" ?w 1 "\<lambda>_. default_table 0 one_gateway" resolved_arp 0 test_frame 2 test_packet 7]
      lpm m a p w resolved_arp_inv test_frame_facts default_forwards
    by (auto simp: new_frame_def)
qed

end
